(* ===== verification/Prelude.thy ===== *)
theory Prelude
  imports Main "HOL-Library.Word"
begin

text \<open>
  What every component shares: the machine types of \<open>src/basic.h\<close>, C's run-time failures
  as values, the early-return idiom \<open>if (code != OK) return code;\<close> as the operation
  \<open>check_ok\<close>, reads from a byte buffer that fail outside the object, and the contract
  \<open>safe\<close> in which the components state "no undefined behaviour, no failed assertion,
  and this holds of the results".
\<close>

unbundle bit_operations_syntax

section \<open>Machine types\<close>

type_synonym byte = "8 word"
type_synonym uint16 = "16 word"
type_synonym uint32 = "32 word"
type_synonym uinta = "64 word"

section \<open>Failures\<close>

text \<open>
  \<open>Code c\<close> is an error code the C function returns. \<open>Fault f\<close> is an execution
  that the C program does not survive or that C leaves undefined, or a call that never returns.
\<close>

datatype fault =
    OutOfBounds          \<comment> \<open>a read outside the object a pointer points into\<close>
  | AssertFailed         \<comment> \<open>\<open>assert\<close> of \<open>assert.h\<close> aborts the process\<close>
  | BadPointer           \<comment> \<open>an uninitialised or dangling pointer value is used\<close>
  | Blocked              \<comment> \<open>a system call never returns\<close>

datatype 'c fail = Code 'c | Fault fault

definition check_ok :: "'e + 'a \<Rightarrow> ('a \<Rightarrow> 'e + 'b) \<Rightarrow> 'e + 'b" where
  "check_ok m f = (case m of Inl e \<Rightarrow> Inl e | Inr a \<Rightarrow> f a)"

definition c_assert :: "bool \<Rightarrow> 'c fail + unit" where
  "c_assert b = (if b then Inr () else Inl (Fault AssertFailed))"

lemma check_ok_simps [simp, code]:
  "check_ok (Inl e) f = Inl e"
  "check_ok (Inr a) f = f a"
  by (simp_all add: check_ok_def)

lemma check_ok_cong [fundef_cong]:
  "m = m' \<Longrightarrow> (\<And>a. m' = Inr a \<Longrightarrow> f a = g a) \<Longrightarrow> check_ok m f = check_ok m' g"
  by (cases m') (auto simp: check_ok_def)

lemma check_ok_Inr [simp]:
  "check_ok m f = Inr b \<longleftrightarrow> (\<exists>a. m = Inr a \<and> f a = Inr b)"
  by (cases m) auto

lemma check_ok_Inl:
  "check_ok m f = Inl e \<longleftrightarrow> m = Inl e \<or> (\<exists>a. m = Inr a \<and> f a = Inl e)"
  by (cases m) auto

lemma if_fail: "(if c then Inl e else m) = Inr b \<longleftrightarrow> \<not> c \<and> m = Inr b"
  by simp

lemma check_ok_if [simp]:
  "check_ok (if b then m else m') f = (if b then check_ok m f else check_ok m' f)"
  by simp

lemma check_ok_assoc:
  "check_ok (check_ok m f) g = check_ok m (\<lambda>a. check_ok (f a) g)"
  by (cases m) auto

lemma c_assert_simps [simp]:
  "c_assert True = Inr ()"
  "c_assert b = Inr u \<longleftrightarrow> b"
  by (auto simp: c_assert_def)

section \<open>The contract of an operation\<close>

text \<open>
  \<open>safe ok m Q\<close>: \<open>m\<close> is not a fault, an error code it returns is not the success
  code \<open>ok\<close>, and the values of a success satisfy \<open>Q\<close>.
\<close>

definition safe :: "'c \<Rightarrow> 'c fail + 'a \<Rightarrow> ('a \<Rightarrow> bool) \<Rightarrow> bool" where
  "safe ok m Q \<longleftrightarrow>
     (case m of Inl (Code c) \<Rightarrow> c \<noteq> ok | Inl (Fault _) \<Rightarrow> False | Inr a \<Rightarrow> Q a)"

named_theorems safe_rules

lemma safe_Inr [simp]: "safe ok (Inr a) Q \<longleftrightarrow> Q a"
  and safe_Code [simp]: "safe ok (Inl (Code c)) Q \<longleftrightarrow> c \<noteq> ok"
  and safe_Fault [simp]: "safe ok (Inl (Fault x)) Q \<longleftrightarrow> False"
  by (simp_all add: safe_def)

lemma safe_check_ok:
  "safe ok m Q \<Longrightarrow> (\<And>a. m = Inr a \<Longrightarrow> Q a \<Longrightarrow> safe ok (f a) R) \<Longrightarrow> safe ok (check_ok m f) R"
  by (cases m) (auto simp: safe_def)

lemma safe_check_ok2:
  "safe ok m (\<lambda>(a, b). Q a b) \<Longrightarrow> (\<And>a b. m = Inr (a, b) \<Longrightarrow> Q a b \<Longrightarrow> safe ok (f (a, b)) R) \<Longrightarrow>
   safe ok (check_ok m f) R"
  by (erule safe_check_ok) auto

lemma safe_check_ok3:
  "safe ok m (\<lambda>(a, b, c). Q a b c) \<Longrightarrow>
   (\<And>a b c. m = Inr (a, b, c) \<Longrightarrow> Q a b c \<Longrightarrow> safe ok (f (a, b, c)) R) \<Longrightarrow> safe ok (check_ok m f) R"
  by (erule safe_check_ok) auto

lemma safe_seq2:
  "safe ok m (\<lambda>(a, b). Q a b) \<Longrightarrow> (\<And>a b. m = Inr (a, b) \<Longrightarrow> Q a b \<Longrightarrow> safe ok (g a b) R) \<Longrightarrow>
   safe ok (check_ok m (\<lambda>(a, b). g a b)) R"
  by (erule safe_check_ok2) simp

lemma safe_seq3:
  "safe ok m (\<lambda>(a, b, c). Q a b c) \<Longrightarrow>
   (\<And>a b c. m = Inr (a, b, c) \<Longrightarrow> Q a b c \<Longrightarrow> safe ok (g a b c) R) \<Longrightarrow>
   safe ok (check_ok m (\<lambda>(a, b, c). g a b c)) R"
  by (erule safe_check_ok3) simp

lemma safe_mono: "safe ok m Q \<Longrightarrow> (\<And>a. m = Inr a \<Longrightarrow> Q a \<Longrightarrow> R a) \<Longrightarrow> safe ok m R"
  by (auto simp: safe_def split: sum.splits fail.splits)

lemma safe_InrD: "safe ok m Q \<Longrightarrow> m = Inr a \<Longrightarrow> Q a"
  by (simp add: safe_def)

lemma safe_conj: "safe ok m Q \<Longrightarrow> safe ok m R \<Longrightarrow> safe ok m (\<lambda>a. Q a \<and> R a)"
  by (auto simp: safe_def split: sum.splits fail.splits)

lemma safe_no_fault: "safe ok m Q \<Longrightarrow> m \<noteq> Inl (Fault x)"
  by (auto simp: safe_def)

lemma safe_no_ok_code: "safe ok m Q \<Longrightarrow> m \<noteq> Inl (Code ok)"
  by (auto simp: safe_def)

lemma safe_if [safe_rules]:
  "(b \<Longrightarrow> safe ok m Q) \<Longrightarrow> (\<not> b \<Longrightarrow> safe ok m' Q) \<Longrightarrow> safe ok (if b then m else m') Q"
  by simp

lemma safe_assert: "b \<Longrightarrow> safe ok (c_assert b) (\<lambda>_. True)"
  by simp

text \<open>
  Operations that report their status in their result rather than by an early return: only a fault
  ends them. \<open>catch\<close> turns the early return of a parser into a value.
\<close>

type_synonym 'a run = "unit fail + 'a"

definition catch :: "'c fail + 'a \<Rightarrow> ('c + 'a) run" where
  "catch m = (case m of Inl (Code c) \<Rightarrow> Inr (Inl c) | Inl (Fault x) \<Rightarrow> Inl (Fault x) | Inr a \<Rightarrow> Inr (Inr a))"

lemma catch_simps [simp]:
  "catch (Inl (Code c)) = Inr (Inl c)"
  "catch (Inl (Fault x)) = Inl (Fault x)"
  "catch (Inr a) = Inr (Inr a)"
  by (simp_all add: catch_def)

lemma run_safe_iff: "safe () m Q \<longleftrightarrow> (\<exists>a. m = Inr a \<and> Q a)"
  by (auto simp: safe_def split: sum.splits fail.splits)

lemma catch_safe: "safe ok m Q \<Longrightarrow> safe () (catch m) (\<lambda>r. case r of Inl c \<Rightarrow> c \<noteq> ok | Inr a \<Rightarrow> Q a)"
  by (auto simp: safe_def split: sum.splits fail.splits)

section \<open>Buffers\<close>

text \<open>
  A pointer and the bytes behind it are a \<open>byte list\<close>, an index is a \<open>uinta\<close>. On
  the 64-bit targets of the build no object is larger than \<open>PTRDIFF_MAX\<close> bytes, so an
  index from there on is outside every object, and a read at it is a fault whatever the list.
\<close>

definition PTRDIFF_MAX :: nat where
  "PTRDIFF_MAX = 2 ^ 63 - 1"

definition object_size :: "byte list \<Rightarrow> nat" where
  "object_size raw = min (length raw) PTRDIFF_MAX"

definition rd :: "byte list \<Rightarrow> uinta \<Rightarrow> 'c fail + byte" where
  "rd raw i = (if unat i < object_size raw then Inr (raw ! unat i) else Inl (Fault OutOfBounds))"

definition rd_bytes :: "byte list \<Rightarrow> uinta \<Rightarrow> uinta \<Rightarrow> 'c fail + byte list" where
  "rd_bytes raw i n =
     (if unat i + unat n \<le> object_size raw then Inr (take (unat n) (drop (unat i) raw))
      else Inl (Fault OutOfBounds))"

text \<open>An end index is valid in a buffer when everything before it may be read.\<close>

definition valid_end :: "byte list \<Rightarrow> uinta \<Rightarrow> bool" where
  "valid_end raw e \<longleftrightarrow> unat e \<le> object_size raw"

text \<open>The bytes from a start index up to an end index.\<close>

definition slice :: "byte list \<Rightarrow> uinta \<Rightarrow> uinta \<Rightarrow> byte list" where
  "slice raw i e = take (unat e - unat i) (drop (unat i) raw)"

text \<open>\<open>memeq\<close> of \<open>basic.h\<close>: the sizes are compared first, then \<open>memcmp\<close>.\<close>

definition memeq :: "byte list \<Rightarrow> uinta \<Rightarrow> uinta \<Rightarrow> byte list \<Rightarrow> 'c fail + bool" where
  "memeq raw start n bs =
     (if unat n \<noteq> length bs then Inr False
      else check_ok (rd_bytes raw start n) (\<lambda>xs. Inr (xs = bs)))"

lemma valid_end_mono: "valid_end raw e \<Longrightarrow> e' \<le> e \<Longrightarrow> valid_end raw e'"
  by (auto simp: valid_end_def word_le_nat_alt)

lemma rd_valid: "valid_end raw e \<Longrightarrow> i < e \<Longrightarrow> rd raw i = Inr (raw ! unat i)"
  by (auto simp: rd_def valid_end_def word_less_nat_alt)

lemma safe_rd [safe_rules]: "valid_end raw e \<Longrightarrow> i < e \<Longrightarrow> safe ok (rd raw i) (\<lambda>b. b = raw ! unat i)"
  by (simp add: rd_valid)

lemma rd_bind_safe [safe_rules]:
  "valid_end raw e \<Longrightarrow> i < e \<Longrightarrow> safe ok (f (raw ! unat i)) Q \<Longrightarrow> safe ok (check_ok (rd raw i) f) Q"
  by (simp add: rd_valid)

lemma rd_Inr_iff: "rd raw i = Inr b \<longleftrightarrow> unat i < object_size raw \<and> b = raw ! unat i"
  by (auto simp: rd_def)

lemma rd_bytes_slice:
  assumes "valid_end raw e" "i \<le> e"
  shows "rd_bytes raw i (e - i) = Inr (slice raw i e)"
proof -
  have "unat (e - i) = unat e - unat i" using assms(2) by (simp add: unat_sub)
  with assms show ?thesis
    by (auto simp: rd_bytes_def slice_def valid_end_def word_le_nat_alt)
qed

lemma length_slice:
  "valid_end raw e \<Longrightarrow> length (slice raw i e) = unat e - unat i"
  by (auto simp: slice_def valid_end_def object_size_def)

lemma slice_same [simp]: "slice raw i i = []"
  by (simp add: slice_def)

lemma slice_append:
  assumes "i \<le> j" "j \<le> e"
  shows "slice raw i e = slice raw i j @ slice raw j e"
proof -
  let ?k = "unat j - unat i"
  have k: "unat e - unat i = ?k + (unat e - unat j)" "unat i + ?k = unat j"
    using assms by (auto simp: word_le_nat_alt)
  have "take (?k + (unat e - unat j)) (drop (unat i) raw)
      = take ?k (drop (unat i) raw) @ take (unat e - unat j) (drop ?k (drop (unat i) raw))"
    by (rule take_add)
  also have "drop ?k (drop (unat i) raw) = drop (unat j) raw"
    using k(2) by (simp add: add.commute)
  finally show ?thesis unfolding slice_def k(1) .
qed

lemma slice_whole: "unat e = length raw \<Longrightarrow> slice raw 0 e = raw"
  by (simp add: slice_def)

lemma unat_add1: "(i :: uinta) < e \<Longrightarrow> unat (i + 1) = unat i + 1"
  by unat_arith

lemma add1_le: "(i :: uinta) < e \<Longrightarrow> i + 1 \<le> e"
  by (rule inc_le)

lemma less_add1: "(i :: uinta) < e \<Longrightarrow> i < i + 1"
  by (simp add: word_less_nat_alt unat_add1)

lemma slice_Cons:
  assumes "valid_end raw e" "i < e"
  shows "slice raw i e = raw ! unat i # slice raw (i + 1) e"
proof -
  have l: "unat i < length raw" and s: "unat e - unat i = Suc (unat e - (unat i + 1))"
    using assms by (auto simp: valid_end_def object_size_def word_less_nat_alt)
  show ?thesis
    unfolding slice_def unat_add1 [OF assms(2)] s by (simp add: Cons_nth_drop_Suc [OF l, symmetric])
qed

lemma memeq_safe:
  "valid_end raw e \<Longrightarrow> i \<le> e \<Longrightarrow>
   memeq raw i (e - i) bs = Inr (slice raw i e = bs)"
  by (auto simp: memeq_def rd_bytes_slice length_slice unat_sub word_le_nat_alt)

text \<open>Bytes as numbers.\<close>

lemma unat_of_nat_small: "n < 2 ^ 64 \<Longrightarrow> unat (of_nat n :: uinta) = n"
  by (simp add: unat_of_nat take_bit_nat_eq_self)

lemma unat_lt_256: "unat (b :: byte) < 256"
  using unsigned_less [of b, where 'a = nat] by simp

lemma unat_ucast_byte [simp]: "unat (ucast (b :: byte) :: uinta) = unat b"
proof -
  have "unat b < 2 ^ 64" using unat_lt_256 [of b] by simp
  then show ?thesis by (simp add: unsigned_ucast_eq take_bit_nat_eq_self)
qed

lemma odd_div_128: "(n :: nat) < 256 \<Longrightarrow> odd (n div 128) \<longleftrightarrow> 128 \<le> n"
proof (cases "128 \<le> n")
  case True
  assume "n < 256"
  with True have "n div 128 = 1" by arith
  with True show ?thesis by simp
qed simp

text \<open>
  A cursor: the bytes from index \<open>i\<close> to a valid end \<open>e\<close>. Functional proofs follow the code
  by moving a cursor over the list it reads.
\<close>

definition cursor :: "byte list \<Rightarrow> uinta \<Rightarrow> uinta \<Rightarrow> byte list \<Rightarrow> bool" where
  "cursor raw i e bs \<longleftrightarrow> valid_end raw e \<and> i \<le> e \<and> slice raw i e = bs"

lemma cursor_length: "cursor raw i e bs \<Longrightarrow> unat e = unat i + length bs"
  by (auto simp: cursor_def length_slice word_le_nat_alt)

lemma cursor_Cons:
  assumes "cursor raw i e (b # bs)"
  shows "i < e" "rd raw i = Inr b" "cursor raw (i + 1) e bs"
proof -
  show lt: "i < e" using cursor_length [OF assms] by (simp add: word_less_nat_alt)
  have v: "valid_end raw e" using assms by (simp add: cursor_def)
  have "b # bs = raw ! unat i # slice raw (i + 1) e"
    using assms slice_Cons [OF v lt] by (simp add: cursor_def)
  then show "rd raw i = Inr b" "cursor raw (i + 1) e bs"
    using rd_valid [OF v lt] add1_le [OF lt] v by (auto simp: cursor_def)
qed

lemma cursor_append:
  assumes "cursor raw i e (xs @ ys)"
  shows "cursor raw i (i + of_nat (length xs)) xs" "cursor raw (i + of_nat (length xs)) e ys"
    "i \<le> i + of_nat (length xs)" "i + of_nat (length xs) \<le> e"
    "unat (i + of_nat (length xs)) = unat i + length xs"
proof -
  let ?j = "i + of_nat (length xs)"
  have len: "unat e = unat i + length xs + length ys"
    using cursor_length [OF assms] by simp
  then have "unat i + length xs < 2 ^ 64"
    using unsigned_less [of e, where 'a = nat] by simp
  then show uj: "unat ?j = unat i + length xs"
    by (simp add: unat_word_ariths unat_of_nat take_bit_eq_mod)
  show le: "i \<le> ?j" and je: "?j \<le> e"
    using uj len by (simp_all add: word_le_nat_alt)
  have v: "valid_end raw e" and s: "slice raw i e = xs @ ys"
    using assms by (auto simp: cursor_def)
  have "length (slice raw i ?j) = length xs"
    using length_slice [OF valid_end_mono [OF v je], of i] uj by simp
  with slice_append [OF le je, of raw] s
  have "slice raw i ?j = xs" "slice raw ?j e = ys" by simp_all
  with v le je show "cursor raw i ?j xs" "cursor raw ?j e ys"
    by (auto simp: cursor_def intro: valid_end_mono)
qed

lemma cursor_Cons2: "cursor raw idx e (a # b # bs) \<Longrightarrow> cursor raw (idx + 2) e bs"
  using cursor_Cons(3) [OF cursor_Cons(3)] by (simp add: add.assoc)

lemma cursor_size_iff:
  assumes c: "cursor raw j e bs" and k: "k < 2 ^ 64"
  shows "j + of_nat k = e \<longleftrightarrow> length bs = k"
proof -
  have l: "length bs < 2 ^ 64" and e: "e = j + of_nat (length bs)"
    using cursor_append(5) [of raw j e bs "[]"] c cursor_length [OF c]
      unsigned_less [of e, where 'a = nat] by (simp_all add: word_unat_eq_iff)
  have "unat (of_nat n :: uinta) = n" if "n < 2 ^ 64" for n
    using that by (simp add: unat_of_nat take_bit_nat_eq_self)
  then have "of_nat k = (of_nat (length bs) :: uinta) \<longleftrightarrow> k = length bs"
    using k l by (metis (no_types))
  then show ?thesis by (auto simp: e)
qed

lemma slice_cursor: "valid_end raw e \<Longrightarrow> i \<le> e \<Longrightarrow> cursor raw i e (slice raw i e)"
  by (simp add: cursor_def)

lemma take2: "2 \<le> length xs \<Longrightarrow> (\<And>a b ys. xs = a # b # ys \<Longrightarrow> P) \<Longrightarrow> P"
  by (cases xs; cases "tl xs") auto

lemma take4: "4 \<le> length xs \<Longrightarrow> (\<And>a b c d ys. xs = a # b # c # d # ys \<Longrightarrow> P) \<Longrightarrow> P"
  by (rule take2 [of xs], simp, rule take2 [of "drop 2 xs"]) auto

lemma cursor_end_unique: "cursor raw e pe r \<Longrightarrow> cursor raw e' pe r \<Longrightarrow> e = e'"
  by (metis add_right_cancel cursor_length word_unat_eq_iff)

end
