(* ===== verification/Basic.thy ===== *)
theory Basic
  imports Prelude
begin

text \<open>
  The constants and the byte macros of \<open>src/basic.h\<close> that only the header itself defines: sizes, the ends of the
  integer types, and the macros that compose a word of bytes and take it apart, with the lowest byte first.
\<close>

section \<open>Constants\<close>

definition MEGABYTE :: int where "MEGABYTE = 2 ^ 20"
definition GIGABYTE :: int where "GIGABYTE = 2 ^ 30"
definition TERABYTE :: int where "TERABYTE = 2 ^ 40"
definition MAX_UINT32 :: uint32 where "MAX_UINT32 = 0xffffffff"
definition MAX_UINT64 :: uinta where "MAX_UINT64 = 0xffffffffffffffff"

text \<open>
  A hexadecimal constant that does not fit into a signed type has the unsigned one, so these two are positive
  in C: \<open>unsigned int\<close> and \<open>unsigned long long\<close>. Only a conversion makes them the least integers.
\<close>

definition MIN_INT32 :: uint32 where "MIN_INT32 = 0x80000000"
definition MIN_INT64 :: uinta where "MIN_INT64 = 0x8000000000000000"

lemma max_words: "MAX_UINT32 = - 1" "MAX_UINT64 = - 1"
  by (simp_all add: MAX_UINT32_def MAX_UINT64_def)

lemma min_words:
  "uint MIN_INT32 = 2 ^ 31" "sint MIN_INT32 = - (2 ^ 31)" "uint MIN_INT64 = 2 ^ 63" "sint MIN_INT64 = - (2 ^ 63)"
  by (simp_all add: MIN_INT32_def MIN_INT64_def)

section \<open>Words of bytes\<close>

definition tobyte32 :: "byte \<Rightarrow> byte \<Rightarrow> byte \<Rightarrow> byte \<Rightarrow> uint32" where
  "tobyte32 b0 b1 b2 b3 = push_bit 24 (ucast b3) OR push_bit 16 (ucast b2) OR push_bit 8 (ucast b1) OR ucast b0"

definition tobyte16 :: "byte \<Rightarrow> byte \<Rightarrow> uint16" where
  "tobyte16 b0 b1 = push_bit 8 (ucast b1) OR ucast b0"

definition getbyte :: "uint32 \<Rightarrow> nat \<Rightarrow> uint32" where
  "getbyte bs i = drop_bit (push_bit 3 i) bs AND 255"

definition getbyte0 :: "uint32 \<Rightarrow> uint32" where "getbyte0 bs = bs AND 255"
definition getbyte1 :: "uint32 \<Rightarrow> uint32" where "getbyte1 bs = drop_bit 8 bs AND 255"
definition getbyte2 :: "uint32 \<Rightarrow> uint32" where "getbyte2 bs = drop_bit 16 bs AND 255"
definition getbyte3 :: "uint32 \<Rightarrow> uint32" where "getbyte3 bs = drop_bit 24 bs AND 255"

lemmas getbyte_defs = getbyte0_def getbyte1_def getbyte2_def getbyte3_def

lemma and_255: "x AND 255 = take_bit 8 (x :: uint32)"
  by (simp add: take_bit_eq_mask mask_eq_exp_minus_1)

lemma getbyte_numbered: "getbyte bs 0 = getbyte0 bs" "getbyte bs 1 = getbyte1 bs" "getbyte bs 2 = getbyte2 bs" "getbyte bs 3 = getbyte3 bs"
  by (simp_all add: getbyte_def getbyte_defs)

text \<open>Taking apart what was composed gives the bytes, and composing the bytes of a word gives the word.\<close>

lemma getbyte_tobyte32:
  "getbyte0 (tobyte32 b0 b1 b2 b3) = ucast b0" "getbyte1 (tobyte32 b0 b1 b2 b3) = ucast b1"
  "getbyte2 (tobyte32 b0 b1 b2 b3) = ucast b2" "getbyte3 (tobyte32 b0 b1 b2 b3) = ucast b3"
  unfolding getbyte_defs tobyte32_def and_255
  by (rule bit_word_eqI; auto simp: bit_simps dest: bit_imp_le_length)+

lemma tobyte32_getbyte:
  "tobyte32 (ucast (getbyte0 bs)) (ucast (getbyte1 bs)) (ucast (getbyte2 bs)) (ucast (getbyte3 bs)) = bs"
  unfolding getbyte_defs tobyte32_def and_255
proof (rule bit_word_eqI, goal_cases)
  case (1 n)
  then consider "n < 8" | "8 \<le> n" "n < 16" | "16 \<le> n" "n < 24" | "24 \<le> n" "n < 32" by fastforce
  then show ?case by cases (auto simp: bit_simps)
qed

lemma tobyte16_tobyte32: "ucast (tobyte16 b0 b1) = tobyte32 b0 b1 0 0"
  by (rule bit_word_eqI) (auto simp: tobyte16_def tobyte32_def bit_simps dest: bit_imp_le_length)

end
