(* ===== verification/X509_Types.thy ===== *)
theory X509_Types
  imports Prelude
begin

text \<open>
  The constants and types of \<open>src/x509.h\<close>: DER identifier octets, key-usage flags, the
  status codes of the parser and the record of field indices it fills in.
\<close>

section \<open>Constants\<close>

definition IDX_NONE :: uinta where "IDX_NONE = 0"
definition MAX_EXTN :: nat where "MAX_EXTN = 64"

definition DER_CONSTRUCTED :: byte where "DER_CONSTRUCTED = 0b00100000"
definition DER_BOOLEAN :: byte where "DER_BOOLEAN = 1"
definition DER_INTEGER :: byte where "DER_INTEGER = 2"
definition DER_BITSTRING :: byte where "DER_BITSTRING = 3"
definition DER_OCTET_STRING :: byte where "DER_OCTET_STRING = 4"
definition DER_OID :: byte where "DER_OID = 6"
definition DER_SEQUENCE :: byte where "DER_SEQUENCE = DER_CONSTRUCTED OR 16"
definition DER_SET :: byte where "DER_SET = DER_CONSTRUCTED OR 17"
definition DER_UTCTIME :: byte where "DER_UTCTIME = 23"
definition DER_GENERALIZEDTIME :: byte where "DER_GENERALIZEDTIME = 24"
definition DER_EXPLICIT_0 :: byte where "DER_EXPLICIT_0 = 0b10100000"
definition DER_IMPLICIT_0 :: byte where "DER_IMPLICIT_0 = 0b10000000"
definition DER_IMPLICIT_1 :: byte where "DER_IMPLICIT_1 = 0b10000001"
definition DER_IMPLICIT_2 :: byte where "DER_IMPLICIT_2 = 0b10000010"
definition DER_EXPLICIT_3 :: byte where "DER_EXPLICIT_3 = 0b10100011"
definition DER_LENGTH_FORM_MASK :: byte where "DER_LENGTH_FORM_MASK = 0b10000000"
definition DER_LENGTH_INDEFINITE :: byte where "DER_LENGTH_INDEFINITE = 0b10000000"
definition DER_LENGTH_RESERVED :: byte where "DER_LENGTH_RESERVED = 0b11111111"

definition X509_ACCEPTED_VERSION :: byte where "X509_ACCEPTED_VERSION = 2"

definition KEY_USAGE_FLAG_SIGN :: uint32 where "KEY_USAGE_FLAG_SIGN = push_bit 7 1"
definition KEY_USAGE_FLAG_NONREP :: uint32 where "KEY_USAGE_FLAG_NONREP = push_bit 6 1"
definition KEY_USAGE_FLAG_KEY_ENC :: uint32 where "KEY_USAGE_FLAG_KEY_ENC = push_bit 5 1"
definition KEY_USAGE_FLAG_DATA_ENC :: uint32 where "KEY_USAGE_FLAG_DATA_ENC = push_bit 4 1"
definition KEY_USAGE_FLAG_KEY_AGREEMENT :: uint32 where "KEY_USAGE_FLAG_KEY_AGREEMENT = push_bit 3 1"
definition KEY_USAGE_FLAG_KEY_CERT_SIGN :: uint32 where "KEY_USAGE_FLAG_KEY_CERT_SIGN = push_bit 2 1"
definition KEY_USAGE_FLAG_KEY_CRL_SIGN :: uint32 where "KEY_USAGE_FLAG_KEY_CRL_SIGN = push_bit 1 1"
definition KEY_USAGE_FLAG_KEY_ENC_ONLY :: uint32 where "KEY_USAGE_FLAG_KEY_ENC_ONLY = push_bit 0 1"
definition KEY_USAGE_FLAG_KEY_DEC_ONLY :: uint32 where "KEY_USAGE_FLAG_KEY_DEC_ONLY = push_bit 15 1"
definition KEY_USAGE_FLAG_ANY_EXTENDED :: uint32 where "KEY_USAGE_FLAG_ANY_EXTENDED = push_bit 16 1"
definition KEY_USAGE_FLAG_SERVER_AUTH :: uint32 where "KEY_USAGE_FLAG_SERVER_AUTH = push_bit 17 1"
definition KEY_USAGE_FLAG_CLIENT_AUTH :: uint32 where "KEY_USAGE_FLAG_CLIENT_AUTH = push_bit 18 1"
definition KEY_USAGE_FLAG_CODE_SIGNING :: uint32 where "KEY_USAGE_FLAG_CODE_SIGNING = push_bit 19 1"
definition KEY_USAGE_FLAG_EMAIL_PROTECT :: uint32 where "KEY_USAGE_FLAG_EMAIL_PROTECT = push_bit 20 1"
definition KEY_USAGE_FLAG_TIMESTAMP :: uint32 where "KEY_USAGE_FLAG_TIMESTAMP = push_bit 21 1"
definition KEY_USAGE_FLAG_OCSP_SIGN :: uint32 where "KEY_USAGE_FLAG_OCSP_SIGN = push_bit 22 1"

lemmas der_tags =
  IDX_NONE_def DER_CONSTRUCTED_def DER_BOOLEAN_def DER_INTEGER_def DER_BITSTRING_def
  DER_OCTET_STRING_def DER_OID_def DER_SEQUENCE_def DER_SET_def DER_UTCTIME_def
  DER_GENERALIZEDTIME_def DER_EXPLICIT_0_def DER_IMPLICIT_0_def DER_IMPLICIT_1_def
  DER_IMPLICIT_2_def DER_EXPLICIT_3_def DER_LENGTH_FORM_MASK_def DER_LENGTH_INDEFINITE_def
  DER_LENGTH_RESERVED_def X509_ACCEPTED_VERSION_def

lemmas usage_flags =
  KEY_USAGE_FLAG_SIGN_def KEY_USAGE_FLAG_KEY_CERT_SIGN_def KEY_USAGE_FLAG_KEY_DEC_ONLY_def
  KEY_USAGE_FLAG_ANY_EXTENDED_def KEY_USAGE_FLAG_SERVER_AUTH_def KEY_USAGE_FLAG_CLIENT_AUTH_def
  KEY_USAGE_FLAG_CODE_SIGNING_def KEY_USAGE_FLAG_EMAIL_PROTECT_def KEY_USAGE_FLAG_TIMESTAMP_def
  KEY_USAGE_FLAG_OCSP_SIGN_def

text \<open>The bits of an octet, of which the first is the highest, are the flags from the digital signature on.\<close>

lemma key_usage_bits:
  "map (\<lambda>n. push_bit (7 - n) 1) [0..<8] = [KEY_USAGE_FLAG_SIGN, KEY_USAGE_FLAG_NONREP, KEY_USAGE_FLAG_KEY_ENC,
     KEY_USAGE_FLAG_DATA_ENC, KEY_USAGE_FLAG_KEY_AGREEMENT, KEY_USAGE_FLAG_KEY_CERT_SIGN, KEY_USAGE_FLAG_KEY_CRL_SIGN,
     KEY_USAGE_FLAG_KEY_ENC_ONLY]"
  by (simp add: upt_rec usage_flags KEY_USAGE_FLAG_NONREP_def KEY_USAGE_FLAG_KEY_ENC_def KEY_USAGE_FLAG_DATA_ENC_def
      KEY_USAGE_FLAG_KEY_AGREEMENT_def KEY_USAGE_FLAG_KEY_CRL_SIGN_def KEY_USAGE_FLAG_KEY_ENC_ONLY_def)

section \<open>Status codes and fields\<close>

datatype ParseCode =
    PARSE_OK
  | UNEXPECTED_END_OF_DATA
  | UNEXPECTED_IDENTIFIER
  | INVALID_LENGTH_FORM
  | TRAILING_DATA
  | INVALID_VERSION
  | INVALID_BOOLEAN
  | INVALID_INTEGER
  | INVALID_BITSTRING
  | INVALID_VALIDITY_TIME
  | MISMATCHED_SIG_ID
  | EXCEEDS_MAX_EXTNS
  | DUPLICATE_EXTNS
  | UNRECOGNIZED_CRITICAL_EXTN
  | INVALID_CRITICALITY

text \<open>
  A parser returns the values of its out parameters (\<open>Inr\<close>, the code is
  \<open>PARSE_OK\<close>), or another code (\<open>Inl (Code c)\<close>, after which the code documents its
  out parameters as undefined), or faults.
\<close>

type_synonym 'a parsed = "ParseCode fail + 'a"

abbreviation psafe :: "'a parsed \<Rightarrow> ('a \<Rightarrow> bool) \<Rightarrow> bool" where
  "psafe \<equiv> safe PARSE_OK"

text \<open>\<open>time_t\<close> is a signed 64-bit integer on the targets; its values here are \<open>int\<close>.\<close>

record x509Fields =
  sig_id_start :: uinta
  sig_id_end :: uinta
  sig_oid_start :: uinta
  sig_oid_end :: uinta
  sig_start :: uinta
  sig_end :: uinta
  pub_key_id_start :: uinta
  pub_key_id_end :: uinta
  pub_key_oid_start :: uinta
  pub_key_oid_end :: uinta
  pub_key_start :: uinta
  pub_key_end :: uinta
  signed_data_start :: uinta
  signed_data_end :: uinta
  cert_serial_start :: uinta
  cert_serial_end :: uinta
  skid_start :: uinta
  skid_end :: uinta
  akid_start :: uinta
  akid_end :: uinta
  not_before :: int
  not_after :: int
  key_cert_sign :: bool
  path_len_constraint :: uint32
  has_key_usage :: bool
  has_ext_key_usage :: bool
  key_usage_flags :: uint32

text \<open>\<open>x509Fields fields = {0}\<close>, the caller's initial value.\<close>

definition zero_fields :: x509Fields where
  "zero_fields = \<lparr>
     sig_id_start = 0, sig_id_end = 0, sig_oid_start = 0, sig_oid_end = 0,
     sig_start = 0, sig_end = 0, pub_key_id_start = 0, pub_key_id_end = 0,
     pub_key_oid_start = 0, pub_key_oid_end = 0, pub_key_start = 0, pub_key_end = 0,
     signed_data_start = 0, signed_data_end = 0, cert_serial_start = 0, cert_serial_end = 0,
     skid_start = 0, skid_end = 0, akid_start = 0, akid_end = 0,
     not_before = 0, not_after = 0, key_cert_sign = False, path_len_constraint = 0,
     has_key_usage = False, has_ext_key_usage = False, key_usage_flags = 0\<rparr>"

lemma cursor_rd: "cursor raw i e (b # bs) \<Longrightarrow> rd raw i = (Inr b :: byte parsed)"
  by (rule cursor_Cons(2))

section \<open>Loops over elements\<close>

text \<open>
  Every loop of the parser reads one element after the other until an end index. The locale states
  what one iteration owes the loop (\<open>step\<close> moves \<open>pos\<close> forward and stays within the end, keeps the
  invariant, and does not fault) and derives the rule of the loop and its contract.
\<close>

text \<open>Progress in the shape a termination proof of a loop over elements needs.\<close>

lemma loop_measure: "(idx :: uinta) < i' \<Longrightarrow> i' \<le> e \<Longrightarrow> unat e - unat i' < unat e - unat idx"
  by (simp add: word_less_nat_alt word_le_nat_alt)

text \<open>A loop that is given up after \<open>n\<close> more rounds; the last test of its condition is not a round.\<close>

fun rounds :: "nat \<Rightarrow> ('s \<Rightarrow> bool) \<Rightarrow> ('s \<Rightarrow> 's parsed) \<Rightarrow> 's \<Rightarrow> 's parsed option" where
  "rounds 0 again step s = (if again s then None else Some (Inr s))"
| "rounds (Suc n) again step s =
    (if again s then (case step s of Inl e \<Rightarrow> Some (Inl e) | Inr s' \<Rightarrow> rounds n again step s') else Some (Inr s))"

lemma rounds_more: "rounds n again step s = Some r \<Longrightarrow> rounds (n + k) again step s = Some r"
proof (induction n arbitrary: s)
  case 0
  then show ?case by (cases k) (auto split: if_splits)
next
  case (Suc n)
  then show ?case by (cases "step s") (auto split: if_splits)
qed

locale element_loop =
  fixes step :: "byte list \<Rightarrow> uinta \<Rightarrow> 's \<Rightarrow> 's parsed"
    and loop :: "byte list \<Rightarrow> uinta \<Rightarrow> 's \<Rightarrow> 's parsed"
    and again :: "uinta \<Rightarrow> 's \<Rightarrow> bool"
    and pos :: "'s \<Rightarrow> uinta"
    and inv :: "byte list \<Rightarrow> uinta \<Rightarrow> 's \<Rightarrow> bool"
  assumes loop_unfold:
      "loop raw e s = (if again e s then check_ok (step raw e s) (\<lambda>s'. loop raw e s') else Inr s)"
    and step_progress: "step raw e s = Inr s' \<Longrightarrow> pos s < pos s' \<and> pos s' \<le> e"
    and step_safe: "valid_end raw e \<Longrightarrow> inv raw e s \<Longrightarrow> again e s \<Longrightarrow> psafe (step raw e s) (inv raw e)"
    and stop: "inv raw e s \<Longrightarrow> \<not> again e s \<Longrightarrow> pos s = e"
begin

lemma loop_rule:
  assumes "loop raw e s = Inr t" "P s"
    and "\<And>s s'. again e s \<Longrightarrow> step raw e s = Inr s' \<Longrightarrow> P s \<Longrightarrow> P s'"
  shows "P t \<and> \<not> again e t"
  using assms(1,2)
proof (induction "unat e - unat (pos s)" arbitrary: s rule: less_induct)
  case less
  show ?case
  proof (cases "again e s")
    case True
    with less.prems(1) loop_unfold [of raw e s] obtain s' where
      s': "step raw e s = Inr s'" "loop raw e s' = Inr t" by auto
    from step_progress [OF s'(1)] have "unat e - unat (pos s') < unat e - unat (pos s)"
      by (intro loop_measure) auto
    from less.hyps [OF this s'(2) assms(3) [OF True s'(1) less.prems(2)]] show ?thesis .
  next
    case False
    with less.prems loop_unfold [of raw e s] show ?thesis by simp
  qed
qed

lemma loop_safe:
  assumes v: "valid_end raw e" and i: "inv raw e s"
  shows "psafe (loop raw e s) (\<lambda>t. pos t = e \<and> inv raw e t)"
  using i
proof (induction "unat e - unat (pos s)" arbitrary: s rule: less_induct)
  case less
  show ?case
  proof (cases "again e s")
    case True
    have "psafe (check_ok (step raw e s) (loop raw e)) (\<lambda>t. pos t = e \<and> inv raw e t)"
    proof (rule safe_check_ok [OF step_safe [OF v less.prems True]])
      fix s' assume s': "step raw e s = Inr s'" "inv raw e s'"
      from step_progress [OF s'(1)] have "unat e - unat (pos s') < unat e - unat (pos s)"
        by (intro loop_measure) auto
      from less.hyps [OF this s'(2)] show "psafe (loop raw e s') (\<lambda>t. pos t = e \<and> inv raw e t)" .
    qed
    then show ?thesis using True loop_unfold [of raw e s] by simp
  next
    case False
    then show ?thesis
      using less.prems stop [OF less.prems False] loop_unfold [of raw e s] by simp
  qed
qed

text \<open>Every round consumes a byte, apart from one that ends the loop with a status.\<close>

lemma loop_rounds: "rounds (Suc (unat e - unat (pos s))) (again e) (step raw e) s = Some (loop raw e s)"
proof (induction "unat e - unat (pos s)" arbitrary: s rule: less_induct)
  case less
  show ?case
  proof (cases "\<exists>s'. again e s \<and> step raw e s = Inr s'")
    case True
    then obtain s' where s': "again e s" "step raw e s = Inr s'" by blast
    then have m: "unat e - unat (pos s') < unat e - unat (pos s)"
      using step_progress [OF s'(2)] by (intro loop_measure) auto
    then obtain k where k: "unat e - unat (pos s) = Suc (unat e - unat (pos s') + k)"
      using less_imp_Suc_add by blast
    have "rounds (Suc (unat e - unat (pos s')) + k) (again e) (step raw e) s' = Some (loop raw e s')"
      by (rule rounds_more [OF less.hyps [OF m]])
    with s' k show ?thesis by (simp add: loop_unfold [of raw e s])
  next
    case False
    then show ?thesis by (cases "step raw e s") (auto simp: loop_unfold [of raw e s])
  qed
qed

end

end
