(* ===== verification/Der.thy ===== *)
theory Der
  imports X509_Types
begin

text \<open>
  The DER primitives of \<open>src/x509.c\<close>: one tag-length-value header (\<open>parse_any\<close>), an
  element with an expected identifier, NULL, an optional element, a defaulted boolean and a
  bit string without unused bits. First the operations, then their contracts: no read outside
  the buffer, and \<open>*idx <= *ret_content_end <= parent_end\<close>.
\<close>

section \<open>Operations\<close>

text \<open>The loop \<open>for_each_lt(i, length_octets)\<close>, with the octets that remain.\<close>

fun length_octets_loop :: "byte list \<Rightarrow> nat \<Rightarrow> uinta \<Rightarrow> uinta \<Rightarrow> (uinta \<times> uinta) parsed" where
  "length_octets_loop raw_cert 0 idx len = Inr (idx, len)"
| "length_octets_loop raw_cert (Suc n) idx len =
     check_ok (rd raw_cert idx) (\<lambda>b.
       length_octets_loop raw_cert n (idx + 1) (push_bit 8 len OR ucast b))"

text \<open>The length octets after the first, or none: the new index and the length.\<close>

definition parse_length :: "byte list \<Rightarrow> byte \<Rightarrow> uinta \<Rightarrow> uinta \<Rightarrow> (uinta \<times> uinta) parsed" where
  "parse_length raw_cert length_byte idx parent_end =
    (if length_byte AND DER_LENGTH_FORM_MASK > 0 then
       let length_octets = ucast (length_byte AND NOT DER_LENGTH_FORM_MASK) :: uinta in
       if idx + length_octets > parent_end then Inl (Code UNEXPECTED_END_OF_DATA)
       else check_ok (rd raw_cert idx) (\<lambda>first_octet.
         if first_octet = 0 then Inl (Code INVALID_LENGTH_FORM)
         else if length_octets > 8 then Inl (Code UNEXPECTED_END_OF_DATA)
         else check_ok (length_octets_loop raw_cert (unat length_octets) idx 0) (\<lambda>(idx, len).
           if len \<le> 127 then Inl (Code INVALID_LENGTH_FORM) else Inr (idx, len)))
     else Inr (idx, ucast length_byte))"

text \<open>The result: the index of the contents, the index after them, the identifier octet.\<close>

definition parse_any :: "byte list \<Rightarrow> uinta \<Rightarrow> uinta \<Rightarrow> (uinta \<times> uinta \<times> byte) parsed" where
  "parse_any raw_cert idx parent_end =
    (if idx \<ge> parent_end then Inl (Code UNEXPECTED_END_OF_DATA)
     else check_ok (rd raw_cert idx) (\<lambda>identifier.
       let idx = idx + 1 in
       if idx \<ge> parent_end then Inl (Code UNEXPECTED_END_OF_DATA)
       else check_ok (rd raw_cert idx) (\<lambda>length_byte.
         if length_byte = DER_LENGTH_INDEFINITE \<or> length_byte = DER_LENGTH_RESERVED
         then Inl (Code INVALID_LENGTH_FORM)
         else
           let idx = idx + 1 in
           check_ok (parse_length raw_cert length_byte idx parent_end) (\<lambda>(idx, len).
             if len > parent_end - idx then Inl (Code UNEXPECTED_END_OF_DATA)
             else Inr (idx, idx + len, identifier)))))"

definition parse_data_element ::
    "byte list \<Rightarrow> byte \<Rightarrow> uinta \<Rightarrow> uinta \<Rightarrow> (uinta \<times> uinta) parsed" where
  "parse_data_element raw_cert expected_identifier idx parent_end =
    check_ok (parse_any raw_cert idx parent_end) (\<lambda>(idx, content_end, identifier).
      if identifier \<noteq> expected_identifier then Inl (Code UNEXPECTED_IDENTIFIER)
      else Inr (idx, content_end))"

text \<open>\<open>parse_null\<close> leaves \<open>*idx\<close> alone unless it succeeds.\<close>

definition parse_null :: "byte list \<Rightarrow> uinta \<Rightarrow> uinta \<Rightarrow> uinta parsed" where
  "parse_null raw_cert idx parent_end =
    (if idx + 2 > parent_end then Inl (Code UNEXPECTED_END_OF_DATA)
     else check_ok (rd raw_cert idx) (\<lambda>b0.
       if b0 \<noteq> 0x05 then Inl (Code UNEXPECTED_IDENTIFIER)
       else check_ok (rd raw_cert (idx + 1)) (\<lambda>b1.
         if b1 \<noteq> 0x00 then Inl (Code INVALID_LENGTH_FORM)
         else Inr (idx + 2))))"

text \<open>
  \<open>content_end\<close> is the value of \<open>*ret_content_end\<close> before the call, to which the
  rollback returns.
\<close>

definition parse_optional_data ::
    "byte list \<Rightarrow> byte \<Rightarrow> uinta \<Rightarrow> uinta \<Rightarrow> uinta \<Rightarrow> (uinta \<times> uinta) parsed" where
  "parse_optional_data raw_cert expected_identifier idx parent_end content_end =
    (case parse_data_element raw_cert expected_identifier idx parent_end of
       Inl (Code UNEXPECTED_END_OF_DATA) \<Rightarrow> Inr (idx, content_end)
     | Inl (Code UNEXPECTED_IDENTIFIER) \<Rightarrow> Inr (idx, content_end)
     | Inl e \<Rightarrow> Inl e
     | Inr r \<Rightarrow> Inr r)"

definition parse_default_bool :: "byte list \<Rightarrow> uinta \<Rightarrow> uinta \<Rightarrow> (uinta \<times> bool) parsed" where
  "parse_default_bool raw_cert idx parent_end =
    check_ok (parse_optional_data raw_cert DER_BOOLEAN idx parent_end IDX_NONE) (\<lambda>(idx, bool_end).
      if bool_end \<noteq> IDX_NONE then
        if bool_end \<noteq> idx + 1 then Inl (Code INVALID_BOOLEAN)
        else check_ok (rd raw_cert idx) (\<lambda>b.
          if b \<noteq> 0xff then Inl (Code INVALID_BOOLEAN) else Inr (bool_end, True))
      else Inr (idx, False))"

definition parse_bitstring_no_unused :: "byte list \<Rightarrow> uinta \<Rightarrow> uinta \<Rightarrow> (uinta \<times> uinta) parsed" where
  "parse_bitstring_no_unused raw_cert idx parent_end =
    check_ok (parse_data_element raw_cert DER_BITSTRING idx parent_end) (\<lambda>(idx, content_end).
      if idx \<ge> content_end then Inl (Code UNEXPECTED_END_OF_DATA)
      else check_ok (rd raw_cert idx) (\<lambda>b.
        if b \<noteq> 0 then Inl (Code INVALID_BITSTRING) else Inr (idx + 1, content_end)))"

section \<open>Progress\<close>

text \<open>
  A successful header always advances the index, whatever the buffer and the end: the reads
  before the length octets bound the index away from wrap-around. The termination proofs of the
  loops over elements need this without hypotheses.
\<close>

lemma length_octets_loop_idx:
  "length_octets_loop raw n idx len = Inr (i', len') \<Longrightarrow> i' = idx + of_nat n"
  by (induction raw n idx len rule: length_octets_loop.induct) auto

lemma octets_add_mono:
  "unat (idx :: uinta) < 2 ^ 63 \<Longrightarrow> n \<le> 255 \<Longrightarrow> idx \<le> idx + n"
  "unat (idx :: uinta) < 2 ^ 63 \<Longrightarrow> n \<le> 255 \<Longrightarrow> unat (idx + n) = unat idx + unat n"
proof -
  assume h: "unat idx < 2 ^ 63" "n \<le> 255"
  then have "unat idx + unat n < 2 ^ LENGTH(64)"
    using word_le_nat_alt [of n 255] by simp
  then show u: "unat (idx + n) = unat idx + unat n"
    by (rule unat_add_lem [THEN iffD1])
  then show "idx \<le> idx + n" by (simp add: word_le_nat_alt)
qed

text \<open>The form bit and the seven length bits of a length octet, as numbers.\<close>

lemma length_form_iff: "lb AND DER_LENGTH_FORM_MASK > 0 \<longleftrightarrow> 128 \<le> unat lb"
proof -
  have "lb AND DER_LENGTH_FORM_MASK > 0 \<longleftrightarrow> bit lb 7"
    by (simp add: bit_iff_and_push_bit_not_eq_0 DER_LENGTH_FORM_MASK_def word_gt_0)
  also have "\<dots> \<longleftrightarrow> odd (unat lb div 2 ^ 7)"
    using bit_iff_odd [of "unat lb" 7] by (simp add: bit_unsigned_iff)
  also have "\<dots> \<longleftrightarrow> 128 \<le> unat lb"
    using odd_div_128 [OF unat_lt_256] by simp
  finally show ?thesis .
qed

lemma length_octets_unat:
  "unat (ucast (lb AND NOT DER_LENGTH_FORM_MASK) :: uinta) = unat lb mod 128"
proof -
  have "NOT DER_LENGTH_FORM_MASK = mask 7"
    by (simp add: DER_LENGTH_FORM_MASK_def mask_eq_exp_minus_1)
  then have "lb AND NOT DER_LENGTH_FORM_MASK = take_bit 7 lb"
    by (simp only: take_bit_eq_mask)
  then have "unat (lb AND NOT DER_LENGTH_FORM_MASK) = unat lb mod 2 ^ 7"
    by (simp only: unsigned_take_bit_eq) (simp add: take_bit_eq_mod)
  then show ?thesis by simp
qed

lemma length_octets_le: "(ucast (lb AND NOT DER_LENGTH_FORM_MASK) :: uinta) \<le> 255"
  using unat_lt_256 [of "lb AND NOT DER_LENGTH_FORM_MASK"] by (simp add: word_le_nat_alt)

lemma parse_length_progress:
  assumes "parse_length raw lb idx pe = Inr (i', len)" "unat idx < 2 ^ 63" "idx \<le> pe"
  shows "idx \<le> i' \<and> i' \<le> pe"
proof (cases "lb AND DER_LENGTH_FORM_MASK > 0")
  case True
  let ?n = "ucast (lb AND NOT DER_LENGTH_FORM_MASK) :: uinta"
  from True assms(1) have "\<not> idx + ?n > pe" "i' = idx + of_nat (unat ?n)"
    by (auto simp: parse_length_def Let_def dest!: length_octets_loop_idx split: if_splits)
  then show ?thesis
    using octets_add_mono(1) [OF assms(2) length_octets_le] by simp
next
  case False
  with assms show ?thesis by (simp add: parse_length_def)
qed

lemma parse_any_progress:
  assumes "parse_any raw idx pe = Inr (i', e, ident)"
  shows "idx < i' \<and> i' \<le> e \<and> e \<le> pe"
proof -
  from assms obtain lb len where
    lt: "idx < pe" "idx + 1 < pe" and r: "unat (idx + 1) < object_size raw"
    and p: "parse_length raw lb (idx + 2) pe = Inr (i', len)"
    and l: "len \<le> pe - i'" and e: "e = i' + len"
    by (auto simp: parse_any_def Let_def rd_Inr_iff add.assoc not_le not_less
             simp del: less_eq_word_numeral_numeral split: if_splits)
  have u: "unat (idx + 1) = unat idx + 1" "unat (idx + 1 + 1) = unat (idx + 1) + 1"
    using lt by (simp_all only: unat_add1)
  have i2: "unat (idx + 2) = unat idx + 2" using u by (simp add: add.assoc)
  have small: "unat (idx + 2) < 2 ^ 63"
    using r u i2 by (simp add: object_size_def PTRDIFF_MAX_def)
  have le: "idx + 2 \<le> pe" using add1_le [OF lt(2)] by (simp add: add.assoc)
  from parse_length_progress [OF p small le] have i': "idx + 2 \<le> i'" "i' \<le> pe" by auto
  have "idx < i'" using i' i2 by (simp add: word_less_nat_alt word_le_nat_alt)
  moreover have "i' \<le> i' + len \<and> i' + len \<le> pe"
    using i'(2) l by unat_arith
  ultimately show ?thesis using e by simp
qed

lemma parse_data_element_progress:
  "parse_data_element raw ident idx pe = Inr (i', e) \<Longrightarrow> idx < i' \<and> i' \<le> e \<and> e \<le> pe"
  by (auto simp: parse_data_element_def dest!: parse_any_progress split: if_splits)

section \<open>Contracts\<close>

lemma length_octets_loop_safe:
  "valid_end raw e \<Longrightarrow> unat idx + n \<le> unat e \<Longrightarrow> psafe (length_octets_loop raw n idx len) (\<lambda>_. True)"
proof (induction raw n idx len rule: length_octets_loop.induct)
  case (2 raw n idx len)
  then have lt: "idx < e" by (simp add: word_less_nat_alt)
  show ?case
    using 2 unat_add1 [OF lt] by (simp add: rd_valid [OF "2.prems"(1) lt])
qed simp

lemma long_form_octets:
  assumes "lb AND DER_LENGTH_FORM_MASK > 0" "lb \<noteq> DER_LENGTH_INDEFINITE"
  shows "0 < unat lb mod 128"
proof (rule ccontr)
  assume "\<not> ?thesis"
  with assms(1) have "unat lb = 128"
    using unat_lt_256 [of lb] unfolding length_form_iff by auto
  then have "lb = 128" by (simp add: word_unat_eq_iff)
  with assms(2) show False by (simp add: DER_LENGTH_INDEFINITE_def)
qed

lemma parse_length_safe:
  assumes v: "valid_end raw pe" and le: "idx \<le> pe" and lb: "lb \<noteq> DER_LENGTH_INDEFINITE"
  shows "psafe (parse_length raw lb idx pe) (\<lambda>(i', len). idx \<le> i' \<and> i' \<le> pe)"
proof -
  let ?n = "ucast (lb AND NOT DER_LENGTH_FORM_MASK) :: uinta"
  have small: "unat idx < 2 ^ 63"
    using v le by (simp add: valid_end_def object_size_def PTRDIFF_MAX_def word_le_nat_alt)
  have "psafe (parse_length raw lb idx pe) (\<lambda>_. True)"
  proof (cases "lb AND DER_LENGTH_FORM_MASK > 0 \<and> \<not> idx + ?n > pe")
    case True
    then have sum: "unat idx + unat ?n \<le> unat pe"
      using octets_add_mono(2) [OF small length_octets_le, of lb] by (simp add: not_less word_le_nat_alt)
    moreover have "0 < unat ?n"
      using True long_form_octets lb by (simp add: length_octets_unat del: unat_ucast_byte)
    ultimately have "idx < pe" by (simp add: word_less_nat_alt)
    with True sum show ?thesis
      by (auto simp: parse_length_def Let_def simp del: unat_ucast_byte
               intro!: safe_rules v safe_check_ok [OF length_octets_loop_safe [OF v]])
  qed (auto simp: parse_length_def)
  then show ?thesis
    by (rule safe_mono) (use parse_length_progress [OF _ small le] in auto)
qed

lemma add2_le: "(i :: uinta) + 1 < e \<Longrightarrow> 2 + i \<le> e"
  using add1_le [of "i + 1" e] by (simp add: add.commute)

lemma parse_any_safe:
  assumes v: "valid_end raw pe"
  shows "psafe (parse_any raw idx pe) (\<lambda>(i', e, ident). idx < i' \<and> i' \<le> e \<and> e \<le> pe)"
proof -
  have "psafe (parse_any raw idx pe) (\<lambda>_. True)"
    by (auto simp: parse_any_def Let_def not_le add2_le intro!: safe_rules v safe_check_ok [OF parse_length_safe])
  then show ?thesis
    by (rule safe_mono) (use parse_any_progress in auto)
qed

lemma parse_data_element_safe [safe_rules]:
  assumes v: "valid_end raw pe"
  shows "psafe (parse_data_element raw ident idx pe) (\<lambda>(i', e). idx < i' \<and> i' \<le> e \<and> e \<le> pe)"
  unfolding parse_data_element_def
  by (rule safe_check_ok [OF parse_any_safe [OF v]]) auto

lemma parse_null_safe:
  assumes v: "valid_end raw pe" and i: "idx \<le> pe"
  shows "psafe (parse_null raw idx pe) (\<lambda>i'. i' = idx + 2 \<and> idx < i' \<and> i' \<le> pe)"
proof -
  have "unat idx < 2 ^ 63"
    using v i by (simp add: valid_end_def object_size_def PTRDIFF_MAX_def word_le_nat_alt)
  then have u: "unat (idx + 2) = unat idx + 2" "unat (idx + 1) = unat idx + 1"
    using octets_add_mono(2) [of idx 2] octets_add_mono(2) [of idx 1] by simp_all
  then show ?thesis
    by (auto simp: parse_null_def word_less_nat_alt word_le_nat_alt intro!: safe_rules v)
qed

lemma parse_optional_data_safe [safe_rules]:
  assumes v: "valid_end raw pe"
  shows "psafe (parse_optional_data raw ident idx pe ce)
     (\<lambda>(i', e). (i' = idx \<and> e = ce) \<or> (idx < i' \<and> i' \<le> e \<and> e \<le> pe))"
  using parse_data_element_safe [OF v, of ident idx]
  by (auto simp: parse_optional_data_def safe_def split: sum.splits fail.splits ParseCode.splits)

text \<open>
  The sentinel \<open>IDX_NONE\<close> is unambiguous: the end of an element that was found is never 0.
\<close>

lemma parse_optional_data_none:
  assumes v: "valid_end raw pe"
  shows "psafe (parse_optional_data raw ident idx pe IDX_NONE)
     (\<lambda>(i', e). if e = IDX_NONE then i' = idx else idx < i' \<and> i' \<le> e \<and> e \<le> pe)"
  by (rule safe_mono [OF parse_optional_data_safe [OF v]]) (auto simp: IDX_NONE_def)

lemma parse_default_bool_safe [safe_rules]:
  assumes v: "valid_end raw pe" and i: "idx \<le> pe"
  shows "psafe (parse_default_bool raw idx pe) (\<lambda>(i', b). idx \<le> i' \<and> i' \<le> pe)"
  unfolding parse_default_bool_def
proof (rule safe_check_ok2 [OF parse_optional_data_none [OF v]], goal_cases)
  case (1 j e)
  then have "(rd raw j :: byte parsed) = Inr (raw ! unat j)" if "e = j + 1" "e \<noteq> IDX_NONE"
    using that by (intro rd_valid [OF v]) (auto simp: order.strict_iff_order)
  with 1 show ?case using i by auto
qed

lemma parse_bitstring_no_unused_safe [safe_rules]:
  assumes v: "valid_end raw pe"
  shows "psafe (parse_bitstring_no_unused raw idx pe) (\<lambda>(i', e). idx < i' \<and> i' \<le> e \<and> e \<le> pe)"
  unfolding parse_bitstring_no_unused_def
proof (rule safe_check_ok2 [OF parse_data_element_safe [OF v]], goal_cases)
  case (1 j e)
  then have "j < e \<Longrightarrow> idx < j + 1 \<and> j + 1 \<le> e"
    using less_add1 [of j e] add1_le [of j e] by auto
  with 1 show ?case
    by (auto simp: rd_valid [OF valid_end_mono [OF v]])
qed

lemma parse_optional_data_Inr_iff:
  "parse_optional_data raw ident idx pe IDX_NONE = Inr (i', e) \<longleftrightarrow>
     (if e = IDX_NONE
      then i' = idx \<and> (parse_data_element raw ident idx pe = Inl (Code UNEXPECTED_END_OF_DATA) \<or>
                       parse_data_element raw ident idx pe = Inl (Code UNEXPECTED_IDENTIFIER))
      else parse_data_element raw ident idx pe = Inr (i', e))"
proof (cases "parse_data_element raw ident idx pe")
  case (Inr r)
  then have "snd r \<noteq> 0"
    using parse_data_element_progress [of raw ident idx pe "fst r" "snd r"] by auto
  with Inr show ?thesis by (auto simp: parse_optional_data_def IDX_NONE_def)
next
  case (Inl x)
  then show ?thesis
    by (auto simp: parse_optional_data_def split: fail.splits ParseCode.splits)
qed

lemma parse_default_bool_progress:
  "parse_default_bool raw idx pe = Inr (i', b) \<Longrightarrow> i' = idx \<or> idx < i' \<and> i' \<le> pe"
  by (auto simp: parse_default_bool_def parse_optional_data_Inr_iff split: if_splits
      dest!: parse_data_element_progress)

end
