(* ===== verification/Der_Spec.thy ===== *)
theory Der_Spec
  imports Der
begin

text \<open>
  The reference for the DER primitives: the distinguished encoding of a tag-length-value
  element over byte lists (\<open>der_tlv\<close>: the shortest definite length form), and the proof
  that \<open>parse_any\<close> accepts exactly these encodings, with the indices they determine.
\<close>

section \<open>Big-endian numbers and the length octets of DER\<close>

fun be_val :: "byte list \<Rightarrow> nat \<Rightarrow> nat" where
  "be_val [] n = n"
| "be_val (b # bs) n = be_val bs (256 * n + unat b)"

fun be_bytes :: "nat \<Rightarrow> byte list" where
  "be_bytes n = (if n = 0 then [] else be_bytes (n div 256) @ [of_nat (n mod 256)])"

declare be_bytes.simps [simp del]

lemma be_bytes_0 [simp]: "be_bytes 0 = []"
  by (simp add: be_bytes.simps)

definition der_length :: "nat \<Rightarrow> byte list" where
  "der_length n =
     (if n < 128 then [of_nat n]
      else of_nat (128 + length (be_bytes n)) # be_bytes n)"

definition der_tlv :: "byte \<Rightarrow> byte list \<Rightarrow> byte list" where
  "der_tlv ident content = ident # der_length (length content) @ content"

lemma be_val_append: "be_val (xs @ ys) n = be_val ys (be_val xs n)"
  by (induction xs arbitrary: n) auto

lemma be_val_add: "be_val bs n = n * 256 ^ length bs + be_val bs 0"
proof (induction bs arbitrary: n)
  case (Cons b bs)
  show ?case
    unfolding be_val.simps Cons.IH [of "256 * n + unat b"] Cons.IH [of "256 * 0 + unat b"]
    by (simp add: algebra_simps)
qed simp

lemma be_val_bound: "be_val bs 0 < 256 ^ length bs"
proof (induction bs)
  case (Cons b bs)
  have "be_val (b # bs) 0 = unat b * 256 ^ length bs + be_val bs 0"
    using be_val_add [of bs "unat b"] by simp
  also have "\<dots> < unat b * 256 ^ length bs + 256 ^ length bs" using Cons by simp
  also have "\<dots> = (unat b + 1) * 256 ^ length bs" by simp
  also have "\<dots> \<le> 256 * 256 ^ length bs"
    by (rule mult_le_mono1) (use unat_lt_256 [of b] in simp)
  finally show ?case by simp
qed simp

lemma be_val_be_bytes [simp]: "be_val (be_bytes n) 0 = n"
proof (induction n rule: be_bytes.induct)
  case (1 n)
  have "unat (of_nat (n mod 256) :: byte) = n mod 256"
    by (simp add: unat_of_nat take_bit_eq_mod)
  with 1 show ?case
    by (cases "n = 0") (simp_all add: be_bytes.simps [of n] be_val_append)
qed

lemma be_bytes_be_val: "(bs \<noteq> [] \<Longrightarrow> hd bs \<noteq> 0) \<Longrightarrow> be_bytes (be_val bs 0) = bs"
proof (induction bs rule: rev_induct)
  case Nil
  then show ?case by (simp add: be_bytes.simps)
next
  case (snoc b bs)
  have v: "be_val (bs @ [b]) 0 = 256 * be_val bs 0 + unat b"
    by (simp add: be_val_append)
  have ih: "be_bytes (be_val bs 0) = bs"
    using snoc by (cases bs) auto
  have nz: "be_val (bs @ [b]) 0 \<noteq> 0"
  proof (cases bs)
    case Nil
    with snoc.prems show ?thesis by (simp add: v unat_eq_0)
  next
    case (Cons a as)
    have "be_val bs 0 \<noteq> 0"
    proof
      assume "be_val bs 0 = 0"
      with ih Cons show False by simp
    qed
    then show ?thesis by (simp add: v)
  qed
  show ?case
    using nz ih unat_lt_256 [of b]
    by (subst be_bytes.simps) (simp add: v)
qed

lemma hd_be_bytes: "n \<noteq> 0 \<Longrightarrow> be_bytes n \<noteq> [] \<and> hd (be_bytes n) \<noteq> 0"
proof (induction n rule: be_bytes.induct)
  case (1 n)
  show ?case
  proof (cases "n div 256 = 0")
    case True
    with 1 have "n < 256" by (simp add: div_eq_0_iff)
    moreover have "\<not> 256 dvd n" using \<open>n < 256\<close> "1.prems" by (auto dest: dvd_imp_le)
    ultimately show ?thesis
      using True "1.prems" by (simp add: be_bytes.simps [of n] word_of_nat_eq_0_iff)
  next
    case False
    with 1 show ?thesis by (simp add: be_bytes.simps [of n])
  qed
qed

lemma push_octet:
  assumes "unat (len :: uinta) < 2 ^ 56"
  shows "unat (push_bit 8 len OR ucast (b :: byte)) = 256 * unat len + unat b"
proof -
  have nb: "\<not> bit b n" if "8 \<le> n" for n
    using that bit_imp_le_length [of b n] by auto
  have "push_bit 8 len OR ucast b = push_bit 8 len + (ucast b :: uinta)"
    by (rule disjunctive_add_eq_or [symmetric]) (auto intro!: bit_word_eqI simp: bit_simps nb)
  moreover have "unat (push_bit 8 len) = 256 * unat len"
    unfolding unsigned_push_bit_eq using assms
    by (simp add: take_bit_nat_eq_self push_bit_eq_mult)
  moreover have "unat (push_bit 8 len) + unat (ucast b :: uinta) < 2 ^ LENGTH(64)"
    using calculation(2) unat_lt_256 [of b] assms by simp
  ultimately show ?thesis
    using unat_add_lem by (metis unat_ucast_byte)
qed

lemma length_octets_loop_val:
  "cursor raw idx e (bs @ rest) \<Longrightarrow> (unat len + 1) * 256 ^ length bs \<le> 2 ^ 64 \<Longrightarrow>
   \<exists>len'. length_octets_loop raw (length bs) idx len = Inr (idx + of_nat (length bs), len') \<and>
     unat len' = be_val bs (unat len)"
proof (induction bs arbitrary: idx len)
  case (Cons b bs)
  from cursor_Cons [OF Cons.prems(1) [simplified]] have c:
    "rd raw idx = (Inr b :: byte parsed)" "cursor raw (idx + 1) e (bs @ rest)" by simp_all
  have "((unat len + 1) * 256 ^ length bs) * 256 \<le> 2 ^ 56 * 256"
    using Cons.prems(2) by (simp add: algebra_simps)
  then have b1: "(unat len + 1) * 256 ^ length bs \<le> 2 ^ 56"
    by (simp only: mult_le_cancel2)
  moreover have "(unat len + 1) * 1 \<le> (unat len + 1) * 256 ^ length bs"
    by (rule mult_le_mono2) simp
  ultimately have "(unat len + 1) * 1 \<le> 2 ^ 56" by (rule order_trans [rotated])
  then have "unat len < 2 ^ 56" by simp
  note p = push_octet [OF this, of b]
  have "(256 * unat len + unat b + 1) * 256 ^ length bs \<le> ((unat len + 1) * 256) * 256 ^ length bs"
    by (rule mult_le_mono1) (use unat_lt_256 [of b] in simp)
  also have "\<dots> \<le> 2 ^ 64" using Cons.prems(2) by (simp add: algebra_simps)
  finally show ?case
    using Cons.IH [OF c(2), of "push_bit 8 len OR ucast b"] p c(1) by (auto simp: add.assoc)
qed simp

lemma length_be_bytes_le: "n < 256 ^ k \<Longrightarrow> length (be_bytes n) \<le> k"
proof (induction k arbitrary: n)
  case (Suc k)
  then have "n div 256 < 256 ^ k" by (simp add: div_less_iff_less_mult mult.commute)
  with Suc.IH show ?case by (cases "n = 0") (simp_all add: be_bytes.simps [of n])
qed simp

lemma octets_byte:
  assumes "k < 128"
  shows "unat (of_nat k :: byte) = k" "unat (of_nat (128 + k) :: byte) = 128 + k"
    "\<not> of_nat k AND DER_LENGTH_FORM_MASK > 0" "of_nat (128 + k) AND DER_LENGTH_FORM_MASK > 0"
    "(of_nat k :: byte) \<noteq> DER_LENGTH_INDEFINITE" "(of_nat k :: byte) \<noteq> DER_LENGTH_RESERVED"
proof -
  show u: "unat (of_nat k :: byte) = k" "unat (of_nat (128 + k) :: byte) = 128 + k"
    using assms by (simp_all only: unat_of_nat) (simp_all add: take_bit_eq_mod)
  show "\<not> of_nat k AND DER_LENGTH_FORM_MASK > 0" "of_nat (128 + k) AND DER_LENGTH_FORM_MASK > 0"
    unfolding length_form_iff u using assms by simp_all
  show "(of_nat k :: byte) \<noteq> DER_LENGTH_INDEFINITE" "(of_nat k :: byte) \<noteq> DER_LENGTH_RESERVED"
    using u assms by (auto simp: DER_LENGTH_INDEFINITE_def DER_LENGTH_RESERVED_def)
qed

lemma parse_length_long:
  assumes c: "cursor raw idx e (bs @ rest)" and pe: "e \<le> pe"
    and lb: "lb AND DER_LENGTH_FORM_MASK > 0" "unat lb mod 128 = length bs"
    and bs: "bs \<noteq> []" "hd bs \<noteq> 0" "length bs \<le> 8" "127 < be_val bs 0"
  shows "parse_length raw lb idx pe = Inr (idx + of_nat (length bs), of_nat (be_val bs 0))"
proof -
  let ?n = "ucast (lb AND NOT DER_LENGTH_FORM_MASK) :: uinta"
  have un: "unat ?n = length bs" using lb(2) by (simp only: length_octets_unat)
  then have n: "?n = of_nat (length bs)" by (metis of_nat_unat ucast_id)
  obtain b bs' where bb: "bs = b # bs'" "b \<noteq> 0" using bs by (cases bs) auto
  have r0: "rd raw idx = (Inr b :: byte parsed)"
    using cursor_Cons(2) c bb by simp
  have "(256 :: nat) ^ length bs \<le> 256 ^ 8" by (rule power_increasing) (use bs in auto)
  then obtain len where l: "length_octets_loop raw (length bs) idx 0 = Inr (idx + of_nat (length bs), len)"
      "unat len = be_val bs 0"
    using length_octets_loop_val [OF c, of 0] by auto
  have len: "len = of_nat (be_val bs 0)" using l(2) by (metis of_nat_unat ucast_id)
  have "\<not> len \<le> 127" using bs(4) l(2) by (simp add: word_le_nat_alt)
  moreover have "\<not> pe < idx + ?n"
    unfolding n using cursor_append(4) [OF c] pe by simp
  moreover have "\<not> 8 < ?n" using un bs(3) by (simp add: word_less_nat_alt del: unat_ucast_byte)
  ultimately show ?thesis
    using lb(1) l(1) r0 bb(2) un len unfolding parse_length_def Let_def by simp
qed
section \<open>\<open>parse_any\<close> accepts exactly the DER headers\<close>

lemma end_minus: "(i' :: uinta) \<le> e \<Longrightarrow> e - i' = of_nat (unat e - unat i')"
  by (simp add: word_le_nat_alt of_nat_diff)

lemma end_room: "(i' :: uinta) \<le> e \<Longrightarrow> e \<le> pe \<Longrightarrow> \<not> pe - i' < e - i'"
  by unat_arith

lemma parse_any_header:
  assumes "idx < pe" "idx + 1 < pe" "rd raw idx = (Inr ident :: byte parsed)"
    "rd raw (idx + 1) = (Inr lb :: byte parsed)"
    "lb \<noteq> DER_LENGTH_INDEFINITE" "lb \<noteq> DER_LENGTH_RESERVED"
    "parse_length raw lb (idx + 2) pe = Inr (i', len)" "\<not> pe - i' < len"
  shows "parse_any raw idx pe = Inr (i', i' + len, ident)"
  using assms by (simp add: parse_any_def Let_def add.assoc not_le)

lemma parse_any_complete:
  assumes v: "valid_end raw pe" and le: "idx \<le> i'" "i' \<le> e" "e \<le> pe"
    and s: "slice raw idx i' = ident # der_length (unat e - unat i')"
  shows "parse_any raw idx pe = Inr (i', e, ident)"
proof -
  let ?n = "unat e - unat i'"
  obtain lb bs where d: "der_length ?n = lb # bs"
    by (cases "?n < 128") (auto simp: der_length_def intro: that)
  have "cursor raw idx i' (ident # lb # bs)"
    using assms d by (auto simp: cursor_def intro: valid_end_mono)
  note c1 = cursor_Cons [OF this] note c2 = cursor_Cons [OF c1(3)]
  have c3: "cursor raw (idx + 2) i' bs" using c2(3) by (simp add: add.assoc)
  have lt: "idx < pe" "idx + 1 < pe" using c1(1) c2(1) le by auto
  note hdr = parse_any_header [OF lt c1(2) c2(2)]
  show ?thesis
  proof (cases "?n < 128")
    case True
    with d have lb: "lb = of_nat ?n" "bs = []" by (auto simp: der_length_def)
    note o = octets_byte [OF True, folded lb(1)]
    have "i' = idx + 2"
      using cursor_length [OF c3] lb(2) by (simp add: word_unat_eq_iff)
    moreover have "ucast lb = e - i'"
      using o(1) by (simp add: word_unat_eq_iff unat_sub le)
    ultimately have "parse_length raw lb (idx + 2) pe = Inr (i', e - i')"
      using o(3) by (simp add: parse_length_def)
    from hdr [OF o(5,6) this end_room [OF le(2,3)]] show ?thesis by simp
  next
    case False
    with d have lb: "lb = of_nat (128 + length bs)" "bs = be_bytes ?n"
      by (auto simp: der_length_def)
    have "?n < 256 ^ 8" using unsigned_less [of e, where 'a = nat] by simp
    then have l8: "length bs \<le> 8" unfolding lb(2) by (rule length_be_bytes_le)
    then have l128: "length bs < 128" by simp
    note o = octets_byte [OF l128, folded lb(1)]
    have bs: "bs \<noteq> []" "hd bs \<noteq> 0" using hd_be_bytes [of ?n] False lb(2) by auto
    have m: "unat lb mod 128 = length bs" unfolding o(2) using l128 by simp
    have val: "be_val bs 0 = ?n" by (simp only: lb(2) be_val_be_bytes)
    have gt: "127 < be_val bs 0" unfolding val using False by simp
    have "cursor raw (idx + 2) i' (bs @ [])" using c3 by simp
    from parse_length_long [OF this order_trans [OF le(2,3)] o(4) m bs l8 gt]
    have p: "parse_length raw lb (idx + 2) pe = Inr (idx + 2 + of_nat (length bs), e - i')"
      unfolding val end_minus [OF le(2)] .
    have i': "idx + 2 + of_nat (length bs) = i'"
      using cursor_append(5) [of raw "idx + 2" i' bs "[]"] cursor_length [OF c3] c3
      by (simp add: word_unat_eq_iff)
    have "length bs \<noteq> 0" using bs(1) by simp
    then have "unat lb \<noteq> unat DER_LENGTH_INDEFINITE" "unat lb \<noteq> unat DER_LENGTH_RESERVED"
      unfolding o(2) using l8 by (simp_all add: DER_LENGTH_INDEFINITE_def DER_LENGTH_RESERVED_def)
    then have "lb \<noteq> DER_LENGTH_INDEFINITE" "lb \<noteq> DER_LENGTH_RESERVED" by blast+
    from hdr [OF this p [unfolded i'] end_room [OF le(2,3)]] show ?thesis by simp
  qed
qed

lemma parse_length_sound:
  assumes p: "parse_length raw lb idx pe = Inr (i', len)"
    and v: "valid_end raw pe" and le: "idx \<le> pe" and lb: "lb \<noteq> DER_LENGTH_INDEFINITE"
  shows "lb # slice raw idx i' = der_length (unat len)"
proof (cases "lb AND DER_LENGTH_FORM_MASK > 0")
  case False
  then have "unat lb < 128" by (simp add: length_form_iff)
  moreover have "unat len = unat lb" "i' = idx" using False p by (auto simp: parse_length_def)
  ultimately show ?thesis by (simp add: der_length_def)
next
  case True
  let ?n = "ucast (lb AND NOT DER_LENGTH_FORM_MASK) :: uinta"
  have un: "unat ?n = unat lb mod 128" by (rule length_octets_unat)
  from True p obtain b where b: "rd raw idx = (Inr b :: byte parsed)" "b \<noteq> 0"
    and small: "\<not> 8 < ?n" and room: "\<not> pe < idx + ?n"
    and l: "length_octets_loop raw (unat ?n) idx 0 = Inr (i', len)" "\<not> len \<le> 127"
    by (auto simp: parse_length_def Let_def split: if_splits)
  define k where "k = unat ?n"
  have k: "k = unat lb mod 128" "k \<le> 8" "0 < k"
    using un small long_form_octets [OF True lb] by (auto simp: k_def word_less_nat_alt)
  have i': "i' = idx + of_nat k" using length_octets_loop_idx [OF l(1)] k_def by simp
  have "unat idx < 2 ^ 63"
    using v le by (simp add: valid_end_def object_size_def PTRDIFF_MAX_def word_le_nat_alt)
  then have i'_le: "idx \<le> i'" "i' \<le> pe" "unat i' = unat idx + k"
    using octets_add_mono [of idx ?n] room length_octets_le k_def i' by auto
  define bs where "bs = slice raw idx i'"
  have c: "cursor raw idx i' (bs @ [])"
    using v i'_le by (auto simp: cursor_def bs_def intro: valid_end_mono)
  have len_bs: "length bs = k" using cursor_length [OF c] i'_le(3) by simp
  have "(256 :: nat) ^ k \<le> 256 ^ 8" by (rule power_increasing) (use k in auto)
  then have val: "unat len = be_val bs 0"
    using length_octets_loop_val [OF c, of 0] l(1) len_bs k_def by auto
  have "rd raw idx = (Inr (hd bs) :: byte parsed)"
    using c len_bs k(3) cursor_Cons(2) [of raw idx i' "hd bs" "tl bs"] by (cases bs) auto
  with b have "hd bs \<noteq> 0" by simp
  then have be: "be_bytes (unat len) = bs" by (simp add: val be_bytes_be_val)
  have "unat lb = 128 + k"
    using True unat_lt_256 [of lb] k(1) by (simp add: length_form_iff le_mod_geq)
  then have "lb = of_nat (128 + k)" by (metis of_nat_unat ucast_id)
  moreover have "\<not> unat len < 128" using l(2) by (simp add: word_le_nat_alt)
  ultimately show ?thesis
    by (simp add: der_length_def be len_bs flip: bs_def)
qed

lemma parse_any_sound:
  assumes p: "parse_any raw idx pe = Inr (i', e, ident)" and v: "valid_end raw pe"
  shows "slice raw idx i' = ident # der_length (unat e - unat i')"
proof -
  note g = parse_any_progress [OF p]
  from p obtain lb len where
    lt: "idx < pe" "idx + 1 < pe" and r: "rd raw idx = (Inr ident :: byte parsed)"
    "rd raw (idx + 1) = (Inr lb :: byte parsed)"
    and lb: "lb \<noteq> DER_LENGTH_INDEFINITE" and pl: "parse_length raw lb (idx + 2) pe = Inr (i', len)"
    and e: "e = i' + len"
    by (auto simp: parse_any_def Let_def add.assoc not_le split: if_splits)
  have le2: "idx + 2 \<le> pe" using add2_le [OF lt(2)] by (simp add: add.commute)
  have le3: "idx + 2 \<le> i'"
    using parse_length_safe [OF v le2 lb] pl by (auto dest: safe_InrD)
  have len: "unat len = unat e - unat i'"
    using e g unat_sub [of i' e] by simp
  have v': "valid_end raw i'" by (rule valid_end_mono [OF v]) (use g in auto)
  have l1: "idx < i'" "idx + 1 < i'"
    using g le3 lt unat_add1 [OF lt(1)] unat_add1 [OF lt(2)]
    by (auto simp: word_le_nat_alt word_less_nat_alt add.assoc)
  have "slice raw idx i' = ident # lb # slice raw (idx + 2) i'"
    using slice_Cons [OF v' l1(1)] slice_Cons [OF v' l1(2)] r by (simp add: rd_Inr_iff add.assoc)
  with parse_length_sound [OF pl v le2 lb] len show ?thesis by simp
qed
lemma parse_any_iff:
  assumes "valid_end raw pe"
  shows "parse_any raw idx pe = Inr (i', e, ident) \<longleftrightarrow>
     idx \<le> i' \<and> i' \<le> e \<and> e \<le> pe \<and> slice raw idx i' = ident # der_length (unat e - unat i')"
  using parse_any_sound [OF _ assms] parse_any_complete [OF assms] parse_any_progress
  by (metis order.strict_implies_order)

text \<open>An element that is there is found, with its contents and what follows it.\<close>

lemma cursor_slice: "cursor raw i e bs \<Longrightarrow> slice raw i e = bs"
  and cursor_valid: "cursor raw i e bs \<Longrightarrow> valid_end raw e"
  and cursor_le: "cursor raw i e bs \<Longrightarrow> i \<le> e"
  by (simp_all add: cursor_def)

lemma parse_any_tlv:
  assumes c: "cursor raw idx pe (der_tlv ident content @ rest)"
  obtains i' e where "parse_any raw idx pe = Inr (i', e, ident)"
    "cursor raw i' e content" "cursor raw e pe rest" "slice raw idx e = der_tlv ident content"
    "idx \<le> i'" "i' \<le> e" "e \<le> pe"
proof -
  let ?hd = "ident # der_length (length content)"
  let ?i' = "idx + of_nat (length ?hd)" and ?e = "idx + of_nat (length (der_tlv ident content))"
  have c1: "cursor raw idx pe (?hd @ (content @ rest))"
    using c by (simp add: der_tlv_def)
  note a = cursor_append [OF c1] and b = cursor_append [OF c]
  have e: "?i' + of_nat (length content) = ?e" by (simp add: der_tlv_def algebra_simps)
  note d = cursor_append [OF a(2), unfolded e]
  have "unat ?e - unat ?i' = length content" using d(5) by simp
  then have "parse_any raw idx pe = Inr (?i', ?e, ident)"
    using a b d cursor_slice [OF a(1)] cursor_valid [OF c] by (intro parse_any_complete) auto
  then show thesis
    using that a b d cursor_slice [OF b(1)] by blast
qed

lemma parse_data_element_tlv:
  assumes c: "cursor raw idx pe (der_tlv ident content @ rest)"
  obtains i' e where "parse_data_element raw ident idx pe = Inr (i', e)"
    "cursor raw i' e content" "cursor raw e pe rest" "slice raw idx e = der_tlv ident content"
    "idx \<le> i'" "i' \<le> e" "e \<le> pe"
  using parse_any_tlv [OF c] that by (fastforce simp: parse_data_element_def)

lemma parse_data_element_other:
  assumes c: "cursor raw idx pe (der_tlv ident content @ rest)" and "ident \<noteq> ident'"
  shows "parse_data_element raw ident' idx pe = Inl (Code UNEXPECTED_IDENTIFIER)"
  using parse_any_tlv [OF c] assms(2) by (fastforce simp: parse_data_element_def)

lemma parse_any_slice:
  assumes p: "parse_any raw idx pe = Inr (i', e, ident)" and v: "valid_end raw pe"
  shows "slice raw idx e = der_tlv ident (slice raw i' e)"
proof -
  note g = parse_any_progress [OF p]
  have "slice raw idx e = slice raw idx i' @ slice raw i' e"
    by (rule slice_append) (use g in auto)
  moreover have "length (slice raw i' e) = unat e - unat i'"
    by (rule length_slice [OF valid_end_mono [OF v]]) (use g in auto)
  ultimately show ?thesis
    using parse_any_sound [OF p v] by (simp add: der_tlv_def)
qed

lemma parse_data_element_slice:
  assumes "parse_data_element raw ident idx pe = Inr (i', e)" and "valid_end raw pe"
  shows "slice raw idx e = der_tlv ident (slice raw i' e)"
  using assms by (auto simp: parse_data_element_def dest!: parse_any_slice split: if_splits)

end
