(* ===== verification/Cert_Time.thy ===== *)
theory Cert_Time
  imports Der_Spec
begin

text \<open>
  Validity times: \<open>struct tm\<close> and \<open>timegm\<close> of the C library (the proleptic Gregorian
  calendar, no leap seconds, fields out of range carried into the next field and written back
  normalised), and \<open>parse_time\<close> of \<open>src/x509.c\<close>.
\<close>

section \<open>\<open>struct tm\<close> and \<open>timegm\<close>\<close>

record tm =
  tm_sec :: int
  tm_min :: int
  tm_hour :: int
  tm_mday :: int
  tm_mon :: int
  tm_year :: int

definition zero_tm :: tm where
  "zero_tm = \<lparr>tm_sec = 0, tm_min = 0, tm_hour = 0, tm_mday = 0, tm_mon = 0, tm_year = 0\<rparr>"

definition is_leap :: "int \<Rightarrow> bool" where
  "is_leap y \<longleftrightarrow> 4 dvd y \<and> (\<not> 100 dvd y \<or> 400 dvd y)"

definition year_length :: "int \<Rightarrow> int" where
  "year_length y = (if is_leap y then 366 else 365)"

text \<open>Days from 1 January 1970 to 1 January of year \<open>y\<close>.\<close>

definition days_before_year :: "int \<Rightarrow> int" where
  "days_before_year y =
     365 * (y - 1970) + ((y - 1) div 4 - 492) - ((y - 1) div 100 - 19) + ((y - 1) div 400 - 4)"

text \<open>Days from 1 January to the first of month \<open>m\<close> (0 is January, 12 the year after).\<close>

definition days_before_month :: "bool \<Rightarrow> int \<Rightarrow> int" where
  "days_before_month leap m =
     (if m \<le> 0 then 0 else if m = 1 then 31
      else (if leap then 1 else 0) +
        (if m = 2 then 59 else if m = 3 then 90 else if m = 4 then 120 else if m = 5 then 151
         else if m = 6 then 181 else if m = 7 then 212 else if m = 8 then 243
         else if m = 9 then 273 else if m = 10 then 304 else if m = 11 then 334 else 365))"

definition month_length :: "bool \<Rightarrow> int \<Rightarrow> int" where
  "month_length leap m = days_before_month leap (m + 1) - days_before_month leap m"

definition timegm_secs :: "tm \<Rightarrow> int" where
  "timegm_secs t =
     (let y = tm_year t + 1900 + tm_mon t div 12;
          m = tm_mon t mod 12;
          d = days_before_year y + days_before_month (is_leap y) m + (tm_mday t - 1)
      in ((d * 24 + tm_hour t) * 60 + tm_min t) * 60 + tm_sec t)"

lemma div_pred_step:
  assumes "0 < (k :: int)"
  shows "y div k = (y - 1) div k + (if k dvd y then 1 else 0)"
proof -
  let ?q = "y div k" let ?r = "y mod k"
  have y: "y = k * ?q + ?r" by simp
  have r: "0 \<le> ?r" "?r < k" using assms by auto
  show ?thesis
  proof (cases "?r = 0")
    case True
    with y have "y - 1 = k * (?q - 1) + (k - 1)" by (simp add: algebra_simps)
    then have "(y - 1) div k = ?q - 1"
      by (rule int_div_pos_eq) (use assms in auto)
    with True show ?thesis by (simp add: dvd_eq_mod_eq_0)
  next
    case False
    with y have "y - 1 = k * ?q + (?r - 1)" by simp
    then have "(y - 1) div k = ?q"
      by (rule int_div_pos_eq) (use False r in auto)
    with False show ?thesis by (simp add: dvd_eq_mod_eq_0)
  qed
qed

lemma days_before_year_step: "days_before_year (y + 1) = days_before_year y + year_length y"
proof -
  have "(if P \<and> (\<not> Q \<or> R) then 366 else 365)
      = (365 :: int) + (if P then 1 else 0) - (if Q then 1 else 0) + (if R then 1 else 0)"
    if "R \<longrightarrow> Q" "Q \<longrightarrow> P" for P Q R
    using that by (cases P; cases Q; cases R) simp_all
  moreover have "400 dvd y \<longrightarrow> 100 dvd y"
    by (intro impI, rule dvd_trans [OF dvdI [of 400 100 4]]) simp_all
  moreover have "100 dvd y \<longrightarrow> 4 dvd y"
    by (intro impI, rule dvd_trans [OF dvdI [of 100 4 25]]) simp_all
  ultimately have len:
    "year_length y = 365 + (if 4 dvd y then 1 else 0) - (if 100 dvd y then 1 else 0)
       + (if 400 dvd y then 1 else 0)"
    unfolding year_length_def is_leap_def by blast
  have sum: "365 * (y + 1 - 1970) + (a + p - 492) - (b + q - 19) + (c + r - 4)
      = 365 * (y - 1970) + (a - 492) - (b - 19) + (c - 4) + (365 + p - q + r)"
    for a b c p q r :: int
    by (simp add: algebra_simps)
  have steps: "(y + 1 - 1) div 4 = (y - 1) div 4 + (if 4 dvd y then 1 else 0)"
    "(y + 1 - 1) div 100 = (y - 1) div 100 + (if 100 dvd y then 1 else 0)"
    "(y + 1 - 1) div 400 = (y - 1) div 400 + (if 400 dvd y then 1 else 0)"
    unfolding add_diff_cancel_right' by (rule div_pred_step; simp)+
  show ?thesis
    unfolding days_before_year_def steps len by (rule sum)
qed

function year_from :: "int \<Rightarrow> int \<Rightarrow> int" where
  "year_from d y = (if days_before_year (y + 1) \<le> d then year_from d (y + 1) else y)"
  by pat_completeness auto
termination
  by (relation "measure (\<lambda>(d, y). nat (d - days_before_year y))")
    (auto simp: days_before_year_step year_length_def split: if_splits)

declare year_from.simps [simp del]

fun month_from :: "bool \<Rightarrow> int \<Rightarrow> nat \<Rightarrow> int" where
  "month_from leap yd 0 = 0"
| "month_from leap yd (Suc m) =
     (if days_before_month leap (int (Suc m)) \<le> yd then int (Suc m) else month_from leap yd m)"

text \<open>The broken-down time of a number of seconds since 1 January 1970.\<close>

definition gmtime :: "int \<Rightarrow> tm" where
  "gmtime s =
     (let d = s div 86400; r = s mod 86400;
          y = year_from d (1970 + (if d < 0 then d div 365 else d div 366));
          yd = d - days_before_year y;
          m = month_from (is_leap y) yd 11
      in \<lparr>tm_sec = r mod 60, tm_min = r div 60 mod 60, tm_hour = r div 3600,
          tm_mday = yd - days_before_month (is_leap y) m + 1, tm_mon = m, tm_year = y - 1900\<rparr>)"

text \<open>\<open>timegm(&utc)\<close>: the timestamp, and \<open>utc\<close> as it is written back.\<close>

definition timegm :: "tm \<Rightarrow> int \<times> tm" where
  "timegm t = (timegm_secs t, gmtime (timegm_secs t))"

section \<open>\<open>parse_time\<close>\<close>

text \<open>The macros \<open>CONVERT_NUM\<close> and \<open>CONVERT_2DIGIT\<close>.\<close>

definition convert_num :: "byte list \<Rightarrow> uinta \<Rightarrow> int \<Rightarrow> int \<Rightarrow> (uinta \<times> int) parsed" where
  "convert_num raw_cert idx n m =
    check_ok (rd raw_cert idx) (\<lambda>b.
      let ch = uint b in
      if ch < 48 \<or> ch > 57 then Inl (Code INVALID_VALIDITY_TIME)
      else Inr (idx + 1, n + (ch - 48) * m))"

definition convert_2digit :: "byte list \<Rightarrow> uinta \<Rightarrow> int \<Rightarrow> (uinta \<times> int) parsed" where
  "convert_2digit raw_cert idx n =
    check_ok (convert_num raw_cert idx n 10) (\<lambda>(idx, n). convert_num raw_cert idx n 1)"

definition UTCTIME_SIZE :: uinta where "UTCTIME_SIZE = 13"
definition GENERALIZEDTIME_SIZE :: uinta where "GENERALIZEDTIME_SIZE = 15"

text \<open>Header and year: the index of the month, \<open>utc.tm_year\<close>, the end of the element.\<close>

definition parse_time_year :: "byte list \<Rightarrow> uinta \<Rightarrow> uinta \<Rightarrow> (uinta \<times> int \<times> uinta) parsed" where
  "parse_time_year raw_cert idx parent_end =
    check_ok (parse_optional_data raw_cert DER_UTCTIME idx parent_end IDX_NONE) (\<lambda>(idx, ts_end).
      if ts_end \<noteq> IDX_NONE then
        if idx + UTCTIME_SIZE \<noteq> ts_end then Inl (Code INVALID_VALIDITY_TIME)
        else check_ok (convert_2digit raw_cert idx 0) (\<lambda>(idx, year).
          Inr (idx, year + (if year < 50 then 1 else 0) * 100, ts_end))
      else
        check_ok (parse_data_element raw_cert DER_GENERALIZEDTIME idx parent_end) (\<lambda>(idx, ts_end).
        if idx + GENERALIZEDTIME_SIZE \<noteq> ts_end then Inl (Code INVALID_VALIDITY_TIME)
        else
          check_ok (convert_num raw_cert idx 0 1000) (\<lambda>(idx, year).
          check_ok (convert_num raw_cert idx year 100) (\<lambda>(idx, year).
          check_ok (convert_num raw_cert idx year 10) (\<lambda>(idx, year).
          check_ok (convert_num raw_cert idx year 1) (\<lambda>(idx, year).
            Inr (idx, year, ts_end)))))))"

text \<open>The rest of the fields, the \<open>Z\<close>, and the check that \<open>timegm\<close> changes nothing.\<close>

definition parse_time_rest :: "byte list \<Rightarrow> uinta \<Rightarrow> int \<Rightarrow> int parsed" where
  "parse_time_rest raw_cert idx year =
    check_ok (convert_2digit raw_cert idx 0) (\<lambda>(idx, mon).
    check_ok (convert_2digit raw_cert idx 0) (\<lambda>(idx, mday).
    check_ok (convert_2digit raw_cert idx 0) (\<lambda>(idx, hour).
    check_ok (convert_2digit raw_cert idx 0) (\<lambda>(idx, minute).
    check_ok (convert_2digit raw_cert idx 0) (\<lambda>(idx, sec).
    check_ok (rd raw_cert idx) (\<lambda>z.
      if z \<noteq> 90 then Inl (Code INVALID_VALIDITY_TIME)
      else
        let pre_utc = \<lparr>tm_sec = sec, tm_min = minute, tm_hour = hour, tm_mday = mday,
                       tm_mon = mon - 1, tm_year = year\<rparr>;
            (ret, utc) = timegm pre_utc
        in if ret < 0 \<or> pre_utc \<noteq> utc then Inl (Code INVALID_VALIDITY_TIME)
           else Inr ret))))))"

text \<open>The index after the element and the unix timestamp.\<close>

definition parse_time :: "byte list \<Rightarrow> uinta \<Rightarrow> uinta \<Rightarrow> (uinta \<times> int) parsed" where
  "parse_time raw_cert idx parent_end =
    check_ok (parse_time_year raw_cert idx parent_end) (\<lambda>(idx, year, ts_end).
    check_ok (parse_time_rest raw_cert idx year) (\<lambda>ret.
      Inr (ts_end, ret)))"

section \<open>The calendar\<close>

definition valid_tm :: "tm \<Rightarrow> bool" where
  "valid_tm t \<longleftrightarrow>
     0 \<le> tm_sec t \<and> tm_sec t < 60 \<and> 0 \<le> tm_min t \<and> tm_min t < 60 \<and>
     0 \<le> tm_hour t \<and> tm_hour t < 24 \<and> 0 \<le> tm_mon t \<and> tm_mon t < 12 \<and>
     1 \<le> tm_mday t \<and> tm_mday t \<le> month_length (is_leap (tm_year t + 1900)) (tm_mon t)"

lemma days_before_1970: "days_before_year 1970 = 0"
  by (simp add: days_before_year_def)

lemma year_length_bounds: "365 \<le> year_length y" "year_length y \<le> 366"
  by (simp_all add: year_length_def)

lemma days_before_year_ge: "0 \<le> k \<Longrightarrow> days_before_year (1970 + k) \<le> 366 * k"
proof (induction k rule: int_ge_induct)
  case base
  show ?case by (simp add: days_before_1970)
next
  case (step k)
  then show ?case
    using days_before_year_step [of "1970 + k"] year_length_bounds(2) [of "1970 + k"]
    by (simp add: add.assoc)
qed

lemma days_before_year_le: "k \<le> 0 \<Longrightarrow> days_before_year (1970 + k) \<le> 365 * k"
proof (induction k rule: int_le_induct)
  case base
  show ?case by (simp add: days_before_1970)
next
  case (step k)
  have "days_before_year (1970 + k) = days_before_year (1970 + (k - 1)) + year_length (1970 + (k - 1))"
    using days_before_year_step [of "1970 + (k - 1)"] by (simp add: algebra_simps)
  then have "days_before_year (1970 + (k - 1)) \<le> days_before_year (1970 + k) - 365"
    using year_length_bounds(1) [of "1970 + (k - 1)"] by simp
  also have "\<dots> \<le> 365 * (k - 1)" using step by simp
  finally show ?case .
qed

lemma days_before_year_mono: "y \<le> z \<Longrightarrow> days_before_year y \<le> days_before_year z"
proof (induction z rule: int_ge_induct)
  case (step z)
  then show ?case using days_before_year_step [of z] year_length_bounds(1) [of z] by linarith
qed simp

lemma year_from_spec:
  "days_before_year y \<le> d \<Longrightarrow>
   days_before_year (year_from d y) \<le> d \<and> d < days_before_year (year_from d y + 1)"
proof (induction d y rule: year_from.induct)
  case (1 d y)
  then show ?case
    by (cases "days_before_year (y + 1) \<le> d") (auto simp: year_from.simps [of d y])
qed

lemma year_from_start: "days_before_year (1970 + (if d < 0 then d div 365 else d div 366)) \<le> d"
proof (cases "d < 0")
  case True
  have "days_before_year (1970 + d div 365) \<le> 365 * (d div 365)"
    by (rule days_before_year_le) (use True in arith)
  also have "\<dots> \<le> d" by arith
  finally show ?thesis using True by simp
next
  case False
  have "days_before_year (1970 + d div 366) \<le> 366 * (d div 366)"
    by (rule days_before_year_ge) (use False in arith)
  also have "\<dots> \<le> d" by arith
  finally show ?thesis using False by simp
qed

lemma year_unique:
  assumes "days_before_year y \<le> d" "d < days_before_year (y + 1)"
    "days_before_year z \<le> d" "d < days_before_year (z + 1)"
  shows "y = z"
proof (rule ccontr)
  assume "y \<noteq> z"
  then consider "y + 1 \<le> z" | "z + 1 \<le> y" by arith
  then show False
  proof cases
    case 1
    then show False using days_before_year_mono assms(2,3) by fastforce
  next
    case 2
    then show False using days_before_year_mono assms(1,4) by fastforce
  qed
qed

lemma month_cases:
  assumes "0 \<le> m" "m < (12 :: int)"
  obtains "m = 0" | "m = 1" | "m = 2" | "m = 3" | "m = 4" | "m = 5"
    | "m = 6" | "m = 7" | "m = 8" | "m = 9" | "m = 10" | "m = 11"
proof -
  from assms have "m = 0 \<or> m = 1 \<or> m = 2 \<or> m = 3 \<or> m = 4 \<or> m = 5
    \<or> m = 6 \<or> m = 7 \<or> m = 8 \<or> m = 9 \<or> m = 10 \<or> m = 11" by presburger
  with that show ?thesis by blast
qed

lemma month_length_bounds:
  assumes "0 \<le> m" "m < 12"
  shows "28 \<le> month_length leap m" "month_length leap m \<le> 31"
  using assms by (auto elim!: month_cases simp: month_length_def days_before_month_def)

lemma days_before_month_mono:
  assumes "0 \<le> m" "m \<le> n" "n \<le> 12"
  shows "days_before_month leap m \<le> days_before_month leap n"
  using assms(2,3)
proof (induction n rule: int_ge_induct)
  case (step n)
  then show ?case
    using month_length_bounds(1) [of n leap] assms(1) by (simp add: month_length_def)
qed simp

lemma days_before_month_12: "days_before_month (is_leap y) 12 = year_length y"
  by (simp add: days_before_month_def year_length_def)

lemma month_from_spec:
  "0 \<le> yd \<Longrightarrow> yd < days_before_month leap (int n + 1) \<Longrightarrow>
   0 \<le> month_from leap yd n \<and> month_from leap yd n \<le> int n \<and>
   days_before_month leap (month_from leap yd n) \<le> yd \<and>
   yd < days_before_month leap (month_from leap yd n + 1)"
proof (induction n)
  case 0
  then show ?case by (simp add: days_before_month_def)
next
  case (Suc n)
  show ?case
  proof (cases "days_before_month leap (int (Suc n)) \<le> yd")
    case True
    with Suc.prems show ?thesis by simp
  next
    case False
    then have "yd < days_before_month leap (int n + 1)" by (simp add: add.commute)
    from Suc.IH [OF Suc.prems(1) this] False show ?thesis by auto
  qed
qed

lemma month_unique:
  assumes "0 \<le> m" "m < 12" "0 \<le> n" "n < 12"
    "days_before_month leap m \<le> yd" "yd < days_before_month leap (m + 1)"
    "days_before_month leap n \<le> yd" "yd < days_before_month leap (n + 1)"
  shows "m = n"
proof (rule ccontr)
  assume "m \<noteq> n"
  then consider "m + 1 \<le> n" | "n + 1 \<le> m" by arith
  then show False
  proof cases
    case 1
    then show False using days_before_month_mono [of "m + 1" n leap] assms by auto
  next
    case 2
    then show False using days_before_month_mono [of "n + 1" m leap] assms by auto
  qed
qed

text \<open>The year, month and day-of-year that \<open>gmtime\<close> finds.\<close>

definition gm_year :: "int \<Rightarrow> int" where
  "gm_year d = year_from d (1970 + (if d < 0 then d div 365 else d div 366))"

lemma gm_year_spec: "days_before_year (gm_year d) \<le> d \<and> d < days_before_year (gm_year d + 1)"
  unfolding gm_year_def by (rule year_from_spec [OF year_from_start])

lemma gm_yd:
  "0 \<le> d - days_before_year (gm_year d)"
  "d - days_before_year (gm_year d) < days_before_month (is_leap (gm_year d)) (int 11 + 1)"
  using gm_year_spec [of d] days_before_year_step [of "gm_year d"]
  by (auto simp: days_before_month_12)

lemma gmtime_eq:
  "gmtime s =
     (let d = s div 86400; r = s mod 86400; y = gm_year d; yd = d - days_before_year y;
          m = month_from (is_leap y) yd 11
      in \<lparr>tm_sec = r mod 60, tm_min = r div 60 mod 60, tm_hour = r div 3600,
          tm_mday = yd - days_before_month (is_leap y) m + 1, tm_mon = m, tm_year = y - 1900\<rparr>)"
  unfolding gmtime_def gm_year_def Let_def ..

lemma gmtime_valid: "valid_tm (gmtime s)"
proof -
  let ?d = "s div 86400" let ?r = "s mod 86400"
  let ?y = "gm_year ?d"
  let ?m = "month_from (is_leap ?y) (?d - days_before_year ?y) 11"
  have "0 \<le> ?r" "?r < 86400" by simp_all
  then have "0 \<le> ?r div 3600" "?r div 3600 < 24" by linarith+
  moreover have "0 \<le> ?m" "?m \<le> 11"
    and "days_before_month (is_leap ?y) ?m \<le> ?d - days_before_year ?y"
    and "?d - days_before_year ?y < days_before_month (is_leap ?y) (?m + 1)"
    using month_from_spec [OF gm_yd, of ?d] by simp_all
  ultimately show ?thesis
    by (simp add: valid_tm_def gmtime_eq Let_def month_length_def)
qed

lemma gmtime_timegm:
  assumes "valid_tm t"
  shows "gmtime (timegm_secs t) = t"
proof -
  let ?y = "tm_year t + 1900" let ?m = "tm_mon t"
  let ?yd = "days_before_month (is_leap ?y) ?m + (tm_mday t - 1)"
  let ?d = "days_before_year ?y + ?yd"
  let ?r = "(tm_hour t * 60 + tm_min t) * 60 + tm_sec t"
  note v = assms [unfolded valid_tm_def]
  have m: "0 \<le> ?m" "?m < 12" using v by auto
  then have "timegm_secs t = 86400 * ?d + ?r"
    by (simp add: timegm_secs_def Let_def algebra_simps)
  moreover have "0 \<le> ?r" "?r < 86400" using v by auto
  ultimately have dr: "timegm_secs t div 86400 = ?d" "timegm_secs t mod 86400 = ?r"
    by - (erule (2) int_div_pos_eq, erule (2) int_mod_pos_eq)
  have yd: "days_before_month (is_leap ?y) ?m \<le> ?yd" "?yd < days_before_month (is_leap ?y) (?m + 1)"
    using v by (auto simp: month_length_def)
  have "0 \<le> ?yd"
    using days_before_month_mono [of 0 ?m "is_leap ?y"] m yd(1) by (simp add: days_before_month_def)
  moreover have "?yd < year_length ?y"
    using days_before_month_mono [of "?m + 1" 12 "is_leap ?y"] m yd(2)
    by (simp add: days_before_month_12)
  ultimately have "days_before_year ?y \<le> ?d" "?d < days_before_year (?y + 1)"
    unfolding days_before_year_step by linarith+
  then have y: "gm_year ?d = ?y"
    using year_unique [of "gm_year ?d" ?d ?y] gm_year_spec [of ?d] by blast
  have mf: "month_from (is_leap ?y) ?yd 11 = ?m"
    using month_unique [of "month_from (is_leap ?y) ?yd 11" ?m "is_leap ?y" ?yd]
      month_from_spec [OF gm_yd, of ?d] yd m unfolding y by simp
  have t: "?r mod 60 = tm_sec t" "?r div 60 mod 60 = tm_min t" "?r div 3600 = tm_hour t"
  proof -
    have "?r = 60 * (tm_hour t * 60 + tm_min t) + tm_sec t" by simp
    then show "?r mod 60 = tm_sec t"
      by (rule int_mod_pos_eq) (use v in auto)
    have "?r = 60 * (tm_hour t * 60 + tm_min t) + tm_sec t" by simp
    then have "?r div 60 = tm_hour t * 60 + tm_min t"
      by (rule int_div_pos_eq) (use v in auto)
    moreover have "(tm_hour t * 60 + tm_min t) mod 60 = tm_min t"
      using v by simp
    ultimately show "?r div 60 mod 60 = tm_min t" by simp
    have "?r = 3600 * tm_hour t + (tm_min t * 60 + tm_sec t)" by simp
    then show "?r div 3600 = tm_hour t"
      by (rule int_div_pos_eq) (use v in auto)
  qed
  show ?thesis
    unfolding gmtime_eq dr Let_def y t
    by (simp add: mf)
qed

lemma gmtime_fixpoint_iff: "gmtime (timegm_secs t) = t \<longleftrightarrow> valid_tm t"
  by (metis gmtime_timegm gmtime_valid)

section \<open>What the digits of a time mean\<close>

definition is_digit :: "byte \<Rightarrow> bool" where
  "is_digit b \<longleftrightarrow> 48 \<le> uint b \<and> uint b \<le> 57"

definition digit_val :: "byte \<Rightarrow> int" where
  "digit_val b = uint b - 48"

definition digit :: "int \<Rightarrow> byte" where
  "digit n = of_int (48 + n)"

definition two_digits :: "int \<Rightarrow> byte list" where
  "two_digits n = [digit (n div 10), digit (n mod 10)]"

definition four_digits :: "int \<Rightarrow> byte list" where
  "four_digits n = two_digits (n div 100) @ two_digits (n mod 100)"

text \<open>MMDDhhmmssZ\<close>

definition time_bytes :: "tm \<Rightarrow> byte list" where
  "time_bytes t = two_digits (tm_mon t + 1) @ two_digits (tm_mday t) @ two_digits (tm_hour t)
     @ two_digits (tm_min t) @ two_digits (tm_sec t) @ [90]"

lemma is_digit_digit:
  assumes "0 \<le> n" "n < 10"
  shows "is_digit (digit n)" "digit_val (digit n) = n"
proof -
  have "uint (digit n) = 48 + n"
    unfolding digit_def uint_word_of_int using assms by simp
  with assms show "is_digit (digit n)" "digit_val (digit n) = n"
    by (simp_all add: is_digit_def digit_val_def)
qed

lemma digit_digit_val: "digit (digit_val b) = b"
  by (simp add: digit_def digit_val_def)

lemma digit_val_bounds: "is_digit b \<Longrightarrow> 0 \<le> digit_val b" "is_digit b \<Longrightarrow> digit_val b \<le> 9"
  by (simp_all add: is_digit_def digit_val_def)

definition two_val :: "byte \<Rightarrow> byte \<Rightarrow> int" where
  "two_val a b = digit_val a * 10 + digit_val b"

lemma two_digits_two_val:
  assumes "is_digit a" "is_digit b"
  shows "two_digits (two_val a b) = [a, b]"
proof -
  note d = digit_val_bounds [OF assms(1)] digit_val_bounds [OF assms(2)]
  have "two_val a b div 10 = digit_val a" "two_val a b mod 10 = digit_val b"
    using d by (auto simp: two_val_def)
  then show ?thesis by (simp add: two_digits_def digit_digit_val)
qed

lemma two_digits_iff:
  assumes "0 \<le> n" "n < 100"
  shows "two_digits n = [a, b] \<longleftrightarrow> is_digit a \<and> is_digit b \<and> two_val a b = n"
proof
  have n: "0 \<le> n div 10" "n div 10 < 10" "0 \<le> n mod 10" "n mod 10 < 10"
    using assms by auto
  assume "two_digits n = [a, b]"
  with n show "is_digit a \<and> is_digit b \<and> two_val a b = n"
    by (auto simp: two_digits_def two_val_def is_digit_digit)
next
  assume "is_digit a \<and> is_digit b \<and> two_val a b = n"
  then show "two_digits n = [a, b]" using two_digits_two_val by blast
qed

lemma two_val_bounds: "is_digit a \<Longrightarrow> is_digit b \<Longrightarrow> 0 \<le> two_val a b \<and> two_val a b < 100"
  using digit_val_bounds [of a] digit_val_bounds [of b] by (auto simp: two_val_def)

section \<open>The conversion macros on a cursor\<close>

lemma convert_num_cursor:
  assumes "cursor raw idx e (a # bs)"
  shows "convert_num raw idx n m =
    (if is_digit a then Inr (idx + 1, n + digit_val a * m) else Inl (Code INVALID_VALIDITY_TIME))"
  using cursor_rd [OF assms]
  by (auto simp: convert_num_def Let_def is_digit_def digit_val_def)

lemma convert_2digit_cursor:
  assumes "cursor raw idx e (a # b # bs)"
  shows "convert_2digit raw idx 0 =
    (if is_digit a \<and> is_digit b then Inr (idx + 2, two_val a b)
     else Inl (Code INVALID_VALIDITY_TIME))"
proof -
  note c = cursor_Cons(3) [OF assms]
  show ?thesis
    unfolding convert_2digit_def convert_num_cursor [OF assms]
    by (simp add: convert_num_cursor [OF c] two_val_def add.assoc)
qed

lemma parse_time_rest_cursor:
  assumes "cursor raw idx e [m1, m2, d1, d2, h1, h2, n1, n2, s1, s2, z]"
  shows "parse_time_rest raw idx year =
    (let t = \<lparr>tm_sec = two_val s1 s2, tm_min = two_val n1 n2, tm_hour = two_val h1 h2,
              tm_mday = two_val d1 d2, tm_mon = two_val m1 m2 - 1, tm_year = year\<rparr>
     in if list_all is_digit [m1, m2, d1, d2, h1, h2, n1, n2, s1, s2] \<and> z = 90 \<and> valid_tm t
           \<and> 0 \<le> timegm_secs t
        then Inr (timegm_secs t) else Inl (Code INVALID_VALIDITY_TIME))"
proof -
  note c1 = assms note c2 = cursor_Cons2 [OF c1] note c3 = cursor_Cons2 [OF c2, simplified]
  note c4 = cursor_Cons2 [OF c3, simplified] note c5 = cursor_Cons2 [OF c4, simplified] note c6 = cursor_Cons2 [OF c5, simplified]
  have eq: "(a \<noteq> gmtime (timegm_secs a)) \<longleftrightarrow> \<not> valid_tm a" for a
    by (metis gmtime_fixpoint_iff)
  show ?thesis
    unfolding parse_time_rest_def convert_2digit_cursor [OF c1]
    by (simp add: convert_2digit_cursor [OF c2] convert_2digit_cursor [OF c3]
        convert_2digit_cursor [OF c4] convert_2digit_cursor [OF c5] cursor_rd [OF c6]
        timegm_def Let_def eq not_le)
qed

section \<open>\<open>parse_time\<close> accepts exactly the encodings of real dates\<close>

lemma list11:
  assumes "length bs = 11"
  obtains m1 m2 d1 d2 h1 h2 n1 n2 s1 s2 z where "bs = [m1, m2, d1, d2, h1, h2, n1, n2, s1, s2, z]"
proof -
  have "\<exists>m1 m2 d1 d2 h1 h2 n1 n2 s1 s2 z. bs = [m1, m2, d1, d2, h1, h2, n1, n2, s1, s2, z]"
    using assms by (simp add: eval_nat_numeral length_Suc_conv) blast
  with that show ?thesis by blast
qed

lemma length_time_bytes [simp]: "length (time_bytes t) = 11"
  by (simp add: time_bytes_def two_digits_def)

lemma valid_tm_two_digits:
  assumes "valid_tm t"
  shows "0 \<le> tm_mon t + 1 \<and> tm_mon t + 1 < 100" "0 \<le> tm_mday t \<and> tm_mday t < 100"
    "0 \<le> tm_hour t \<and> tm_hour t < 100" "0 \<le> tm_min t \<and> tm_min t < 100"
    "0 \<le> tm_sec t \<and> tm_sec t < 100"
  using assms month_length_bounds(2) [of "tm_mon t" "is_leap (tm_year t + 1900)"]
  by (auto simp: valid_tm_def)

lemma time_bytes_iff:
  assumes "valid_tm t"
  shows "time_bytes t = [m1, m2, d1, d2, h1, h2, n1, n2, s1, s2, z] \<longleftrightarrow>
     list_all is_digit [m1, m2, d1, d2, h1, h2, n1, n2, s1, s2] \<and> z = 90 \<and>
     t = \<lparr>tm_sec = two_val s1 s2, tm_min = two_val n1 n2, tm_hour = two_val h1 h2,
          tm_mday = two_val d1 d2, tm_mon = two_val m1 m2 - 1, tm_year = tm_year t\<rparr>"
proof -
  note v = valid_tm_two_digits [OF assms]
  have "time_bytes t = [m1, m2, d1, d2, h1, h2, n1, n2, s1, s2, z] \<longleftrightarrow>
      two_digits (tm_mon t + 1) = [m1, m2] \<and> two_digits (tm_mday t) = [d1, d2] \<and>
      two_digits (tm_hour t) = [h1, h2] \<and> two_digits (tm_min t) = [n1, n2] \<and>
      two_digits (tm_sec t) = [s1, s2] \<and> z = 90"
    by (auto simp: time_bytes_def two_digits_def)
  also have "\<dots> \<longleftrightarrow>
     list_all is_digit [m1, m2, d1, d2, h1, h2, n1, n2, s1, s2] \<and> z = 90 \<and>
     two_val m1 m2 = tm_mon t + 1 \<and> two_val d1 d2 = tm_mday t \<and> two_val h1 h2 = tm_hour t \<and>
     two_val n1 n2 = tm_min t \<and> two_val s1 s2 = tm_sec t"
    using v by (auto simp: two_digits_iff)
  finally show ?thesis by (cases t) auto
qed

lemma parse_time_rest_iff:
  assumes c: "cursor raw idx e bs" and "length bs = 11"
  shows "parse_time_rest raw idx year = Inr ts \<longleftrightarrow>
     (\<exists>t. valid_tm t \<and> tm_year t = year \<and> time_bytes t = bs \<and> ts = timegm_secs t \<and> 0 \<le> ts)"
proof -
  obtain m1 m2 d1 d2 h1 h2 n1 n2 s1 s2 z where
    bs: "bs = [m1, m2, d1, d2, h1, h2, n1, n2, s1, s2, z]" by (rule list11 [OF assms(2)])
  let ?t = "\<lparr>tm_sec = two_val s1 s2, tm_min = two_val n1 n2, tm_hour = two_val h1 h2,
          tm_mday = two_val d1 d2, tm_mon = two_val m1 m2 - 1, tm_year = year\<rparr>"
  have "(\<exists>t. valid_tm t \<and> tm_year t = year \<and> time_bytes t = bs \<and> ts = timegm_secs t \<and> 0 \<le> ts) \<longleftrightarrow>
      list_all is_digit [m1, m2, d1, d2, h1, h2, n1, n2, s1, s2] \<and> z = 90 \<and> valid_tm ?t \<and>
      ts = timegm_secs ?t \<and> 0 \<le> ts" (is "?L \<longleftrightarrow> ?R")
  proof
    assume ?L
    then obtain t where "valid_tm t" "tm_year t = year" "time_bytes t = bs" "ts = timegm_secs t" "0 \<le> ts"
      by blast
    with time_bytes_iff [of t] bs show ?R by metis
  next
    assume r: ?R
    then have "time_bytes ?t = bs" unfolding bs by (subst time_bytes_iff) auto
    with r show ?L by (intro exI [of _ ?t]) auto
  qed
  then show ?thesis
    unfolding parse_time_rest_cursor [OF c [unfolded bs]] Let_def by auto
qed

text \<open>The fields that two digits can hold.\<close>

definition two_digit_fields :: "tm \<Rightarrow> bool" where
  "two_digit_fields t \<longleftrightarrow> (\<forall>n\<in>{tm_mon t + 1, tm_mday t, tm_hour t, tm_min t, tm_sec t}. 0 \<le> n \<and> n < 100)"

lemma two_digit_valid: "valid_tm t \<Longrightarrow> two_digit_fields t"
  using valid_tm_two_digits [of t] by (simp add: two_digit_fields_def)

lemma parse_time_rest_bytes:
  assumes c: "cursor raw idx e (time_bytes t)" and w: "two_digit_fields t"
  shows "parse_time_rest raw idx (tm_year t) =
    (if valid_tm t \<and> 0 \<le> timegm_secs t then Inr (timegm_secs t) else Inl (Code INVALID_VALIDITY_TIME))"
proof -
  obtain m1 m2 d1 d2 h1 h2 n1 n2 s1 s2 where b: "two_digits (tm_mon t + 1) = [m1, m2]" "two_digits (tm_mday t) = [d1, d2]"
    "two_digits (tm_hour t) = [h1, h2]" "two_digits (tm_min t) = [n1, n2]" "two_digits (tm_sec t) = [s1, s2]"
    by (simp add: two_digits_def)
  then have bs: "time_bytes t = [m1, m2, d1, d2, h1, h2, n1, n2, s1, s2, 90]" by (simp add: time_bytes_def)
  have v: "is_digit m1 \<and> is_digit m2 \<and> two_val m1 m2 = tm_mon t + 1" "is_digit d1 \<and> is_digit d2 \<and> two_val d1 d2 = tm_mday t"
    "is_digit h1 \<and> is_digit h2 \<and> two_val h1 h2 = tm_hour t" "is_digit n1 \<and> is_digit n2 \<and> two_val n1 n2 = tm_min t"
    "is_digit s1 \<and> is_digit s2 \<and> two_val s1 s2 = tm_sec t"
    using b w two_digits_iff unfolding two_digit_fields_def by auto
  have t: "\<lparr>tm_sec = tm_sec t, tm_min = tm_min t, tm_hour = tm_hour t, tm_mday = tm_mday t, tm_mon = tm_mon t,
     tm_year = tm_year t\<rparr> = t" by (cases t) simp
  show ?thesis
    unfolding parse_time_rest_cursor [OF c [unfolded bs]] using v by (simp add: Let_def t)
qed

definition utctime_bytes :: "tm \<Rightarrow> byte list" where
  "utctime_bytes t = two_digits (tm_year t mod 100) @ time_bytes t"

definition gentime_bytes :: "tm \<Rightarrow> byte list" where
  "gentime_bytes t = four_digits (tm_year t + 1900) @ time_bytes t"

text \<open>
  The times of a certificate (RFC 5280): the date that is written, and whether as a
  \<open>GeneralizedTime\<close>, whose four digits are the year. The two digits of a \<open>UTCTime\<close> stand for 1950 to 2049.
  \<open>tm_year\<close> counts the years since 1900.
\<close>

type_synonym date = "tm \<times> bool"

definition date_bytes :: "date \<Rightarrow> byte list" where
  "date_bytes = (\<lambda>(t, general).
     if general then der_tlv DER_GENERALIZEDTIME (gentime_bytes t) else der_tlv DER_UTCTIME (utctime_bytes t))"

definition date_written :: "date \<Rightarrow> bool" where
  "date_written = (\<lambda>(t, general).
     if general then 0 \<le> tm_year t + 1900 \<and> tm_year t + 1900 < 10000 else 50 \<le> tm_year t \<and> tm_year t < 150)"

text \<open>
  How the code reads it: it takes the four digits of a \<open>GeneralizedTime\<close> for the years since 1900, so it reads
  the date 1900 years late. That date has to be one of the calendar, from the epoch on.
\<close>

definition as_read :: "date \<Rightarrow> tm" where
  "as_read = (\<lambda>(t, general). if general then t\<lparr>tm_year := tm_year t + 1900\<rparr> else t)"

definition secs_read :: "date \<Rightarrow> int" where
  "secs_read d = timegm_secs (as_read d)"

definition date_ok :: "date \<Rightarrow> bool" where
  "date_ok d \<longleftrightarrow> date_written d \<and> valid_tm (as_read d) \<and> 0 \<le> secs_read d"

lemma as_read_simps [simp]: "as_read (t, False) = t" "as_read (t, True) = t\<lparr>tm_year := tm_year t + 1900\<rparr>"
  by (simp_all add: as_read_def)

lemma time_bytes_year [simp]: "time_bytes (t\<lparr>tm_year := y\<rparr>) = time_bytes t"
  by (simp add: time_bytes_def)

lemma utc_year:
  assumes "0 \<le> y" "y < 100"
  shows "50 \<le> Y \<and> Y < 150 \<and> Y mod 100 = y \<longleftrightarrow> Y = y + (if y < 50 then 1 else 0) * (100::int)"
proof
  assume r: "50 \<le> Y \<and> Y < 150 \<and> Y mod 100 = y"
  show "Y = y + (if y < 50 then 1 else 0) * 100"
  proof (cases "Y < 100")
    case True
    with r have "Y mod 100 = Y" by (intro mod_pos_pos_trivial) auto
    with r have "y = Y" by metis
    with r True show ?thesis by auto
  next
    case False
    with r have "Y mod 100 = Y - 100" by (auto intro: int_mod_pos_eq)
    with r False show ?thesis by auto
  qed
next
  assume r: "Y = y + (if y < 50 then 1 else 0) * 100"
  with assms show "50 \<le> Y \<and> Y < 150 \<and> Y mod 100 = y" by (auto split: if_splits)
qed

text \<open>The first part of \<open>parse_time\<close> on the contents of a UTCTime and of a GeneralizedTime.\<close>

lemma parse_time_year_utc:
  assumes p: "parse_data_element raw DER_UTCTIME idx pe = Inr (j, e)"
    and c: "cursor raw j e (y1 # y2 # bs)"
  shows "parse_time_year raw idx pe =
    (if length bs \<noteq> 11 then Inl (Code INVALID_VALIDITY_TIME)
     else if is_digit y1 \<and> is_digit y2
     then Inr (j + 2, two_val y1 y2 + (if two_val y1 y2 < 50 then 1 else 0) * 100, e)
     else Inl (Code INVALID_VALIDITY_TIME))"
proof -
  have "e \<noteq> IDX_NONE"
    using parse_data_element_progress [OF p] by (auto simp: IDX_NONE_def)
  then have o: "parse_optional_data raw DER_UTCTIME idx pe IDX_NONE = Inr (j, e)"
    using p by (simp add: parse_optional_data_Inr_iff)
  have "j + UTCTIME_SIZE = e \<longleftrightarrow> length bs = 11"
    using cursor_size_iff [OF c, of 13] by (simp add: UTCTIME_SIZE_def)
  then show ?thesis
    using \<open>e \<noteq> IDX_NONE\<close> unfolding parse_time_year_def o
    by (simp add: convert_2digit_cursor [OF c])
qed

lemma parse_time_year_gen:
  assumes n: "parse_data_element raw DER_UTCTIME idx pe = Inl (Code UNEXPECTED_END_OF_DATA) \<or>
      parse_data_element raw DER_UTCTIME idx pe = Inl (Code UNEXPECTED_IDENTIFIER)"
    and p: "parse_data_element raw DER_GENERALIZEDTIME idx pe = Inr (j, e)"
    and c: "cursor raw j e (y1 # y2 # y3 # y4 # bs)"
  shows "parse_time_year raw idx pe =
    (if length bs \<noteq> 11 then Inl (Code INVALID_VALIDITY_TIME)
     else if is_digit y1 \<and> is_digit y2 \<and> is_digit y3 \<and> is_digit y4
     then Inr (j + 4, two_val y1 y2 * 100 + two_val y3 y4, e)
     else Inl (Code INVALID_VALIDITY_TIME))"
proof -
  have o: "parse_optional_data raw DER_UTCTIME idx pe IDX_NONE = Inr (idx, IDX_NONE)"
    using n by (simp add: parse_optional_data_Inr_iff)
  have s: "j + GENERALIZEDTIME_SIZE = e \<longleftrightarrow> length bs = 11"
    using cursor_size_iff [OF c, of 15] by (simp add: GENERALIZEDTIME_SIZE_def)
  note c2 = cursor_Cons(3) [OF c] note c3 = cursor_Cons(3) [OF c2, simplified]
  note c4 = cursor_Cons(3) [OF c3, simplified]
  show ?thesis
    unfolding parse_time_year_def o
    by (simp add: p s convert_num_cursor [OF c] convert_num_cursor [OF c2]
        convert_num_cursor [OF c3] convert_num_cursor [OF c4] two_val_def)
qed

lemma four_digits_iff:
  assumes "0 \<le> n" "n < 10000"
  shows "four_digits n = [a, b, c, d] \<longleftrightarrow>
    is_digit a \<and> is_digit b \<and> is_digit c \<and> is_digit d \<and> two_val a b * 100 + two_val c d = n"
proof -
  have h: "0 \<le> n div 100" "n div 100 < 100" "0 \<le> n mod 100" "n mod 100 < 100"
    using assms by auto
  have "four_digits n = [a, b, c, d] \<longleftrightarrow>
      two_digits (n div 100) = [a, b] \<and> two_digits (n mod 100) = [c, d]"
    by (auto simp: four_digits_def two_digits_def)
  also have "\<dots> \<longleftrightarrow> is_digit a \<and> is_digit b \<and> is_digit c \<and> is_digit d \<and>
      two_val a b = n div 100 \<and> two_val c d = n mod 100"
    using h by (auto simp: two_digits_iff)
  also have "\<dots> \<longleftrightarrow> is_digit a \<and> is_digit b \<and> is_digit c \<and> is_digit d \<and>
      two_val a b * 100 + two_val c d = n"
    using two_val_bounds [of c d] two_val_bounds [of a b] by auto
  finally show ?thesis .
qed

lemma parse_time_sound:
  assumes v: "valid_end raw pe" and p: "parse_time raw idx pe = Inr (i', ts)"
  shows "idx < i' \<and> i' \<le> pe \<and>
     (\<exists>d. date_ok d \<and> slice raw idx i' = date_bytes d \<and> ts = secs_read d)"
proof -
  obtain k year where y: "parse_time_year raw idx pe = Inr (k, year, i')"
    and r: "parse_time_rest raw k year = Inr ts"
    using p by (auto simp: parse_time_def)
  show ?thesis
  proof (cases "\<exists>j e. parse_data_element raw DER_UTCTIME idx pe = Inr (j, e)")
    case True
    then obtain j e where d: "parse_data_element raw DER_UTCTIME idx pe = Inr (j, e)" by blast
    note g = parse_data_element_progress [OF d]
    have "e \<noteq> IDX_NONE" using g by (auto simp: IDX_NONE_def)
    then have o: "parse_optional_data raw DER_UTCTIME idx pe IDX_NONE = Inr (j, e)" "e \<noteq> IDX_NONE"
      using d by (simp_all add: parse_optional_data_Inr_iff)
    have c: "cursor raw j e (slice raw j e)"
      using g v by (intro slice_cursor) (auto intro: valid_end_mono)
    have "j + UTCTIME_SIZE = e"
      using y o by (auto simp: parse_time_year_def split: if_splits)
    then have "length (slice raw j e) = 13"
      using cursor_size_iff [OF c, of 13] by (simp add: UTCTIME_SIZE_def)
    then obtain y1 y2 bs where s: "slice raw j e = y1 # y2 # bs" by (auto elim: take2 [rotated])
    note Y = parse_time_year_utc [OF d c [unfolded s]]
    from Y y have yr: "length bs = 11" "is_digit y1" "is_digit y2" "k = j + 2" "i' = e"
      "year = two_val y1 y2 + (if two_val y1 y2 < 50 then 1 else 0) * 100"
      by (simp_all split: if_splits)
    obtain t where t: "valid_tm t" "tm_year t = year" "time_bytes t = bs" "ts = timegm_secs t" "0 \<le> ts"
      using r parse_time_rest_iff [OF cursor_Cons2 [OF c [unfolded s]] yr(1)] yr(4) by auto
    have "50 \<le> tm_year t \<and> tm_year t < 150 \<and> tm_year t mod 100 = two_val y1 y2"
      using utc_year [of "two_val y1 y2" "tm_year t"] two_val_bounds [OF yr(2,3)] t(2) yr(6) by simp
    moreover from this have "utctime_bytes t = slice raw j e"
      using s t(3) two_digits_two_val [OF yr(2,3)] by (simp add: utctime_bytes_def)
    ultimately have "date_ok (t, False)" "slice raw idx i' = date_bytes (t, False)" "ts = secs_read (t, False)"
      using t(1,4,5) yr(5) parse_data_element_slice [OF d v]
      by (simp_all add: date_ok_def date_written_def date_bytes_def secs_read_def)
    with g yr(5) show ?thesis by (intro conjI exI [of _ "(t, False)"]) auto
  next
    case False
    from y False obtain j e where
      n: "parse_data_element raw DER_UTCTIME idx pe = Inl (Code UNEXPECTED_END_OF_DATA) \<or>
      parse_data_element raw DER_UTCTIME idx pe = Inl (Code UNEXPECTED_IDENTIFIER)"
      and d: "parse_data_element raw DER_GENERALIZEDTIME idx pe = Inr (j, e)"
      and j: "j + GENERALIZEDTIME_SIZE = e"
      by (auto simp: parse_time_year_def parse_optional_data_Inr_iff split: if_splits)
    note g = parse_data_element_progress [OF d]
    have c: "cursor raw j e (slice raw j e)"
      using g v by (intro slice_cursor) (auto intro: valid_end_mono)
    from j have "length (slice raw j e) = 15"
      using cursor_size_iff [OF c, of 15] by (simp add: GENERALIZEDTIME_SIZE_def)
    then obtain y1 y2 y3 y4 bs where s: "slice raw j e = y1 # y2 # y3 # y4 # bs"
      by (auto elim: take4 [rotated])
    note Y = parse_time_year_gen [OF n d c [unfolded s]]
    from Y y have yr: "length bs = 11" "is_digit y1" "is_digit y2" "is_digit y3" "is_digit y4"
      "k = j + 4" "i' = e" "year = two_val y1 y2 * 100 + two_val y3 y4"
      by (simp_all split: if_splits)
    have c4: "cursor raw (j + 4) e bs"
      using cursor_Cons2 [OF cursor_Cons2 [OF c [unfolded s]]] by (simp add: add.assoc)
    obtain t where t: "valid_tm t" "tm_year t = year" "time_bytes t = bs" "ts = timegm_secs t" "0 \<le> ts"
      using r parse_time_rest_iff [OF c4 yr(1)] yr(6) by auto
    have "0 \<le> tm_year t \<and> tm_year t < 10000"
      using two_val_bounds [OF yr(2,3)] two_val_bounds [OF yr(4,5)] t(2) yr(8) by auto
    moreover from this have "gentime_bytes (t\<lparr>tm_year := tm_year t - 1900\<rparr>) = slice raw j e"
      using s t(2,3) yr four_digits_iff [of "tm_year t" y1 y2 y3 y4] by (simp add: gentime_bytes_def)
    ultimately have "date_ok (t\<lparr>tm_year := tm_year t - 1900\<rparr>, True)" "ts = secs_read (t\<lparr>tm_year := tm_year t - 1900\<rparr>, True)"
      "slice raw idx i' = date_bytes (t\<lparr>tm_year := tm_year t - 1900\<rparr>, True)"
      using t(1,4,5) yr(7) parse_data_element_slice [OF d v]
      by (simp_all add: date_ok_def date_written_def date_bytes_def secs_read_def)
    with g yr(7) show ?thesis by (intro conjI exI [of _ "(t\<lparr>tm_year := tm_year t - 1900\<rparr>, True)"]) auto
  qed
qed

text \<open>The outcome on any digits that are written for a date.\<close>

lemma parse_time_written:
  assumes c: "cursor raw idx pe (date_bytes d @ rest)" and d: "date_written d" "two_digit_fields (fst d)"
  obtains i' where "parse_time raw idx pe = (if date_ok d then Inr (i', secs_read d) else Inl (Code INVALID_VALIDITY_TIME))"
    "cursor raw i' pe rest" "slice raw idx i' = date_bytes d"
proof -
  define t where "t = as_read d"
  have t: "two_digit_fields t" and secs: "secs_read d = timegm_secs t"
    and ok: "date_ok d \<longleftrightarrow> valid_tm t \<and> 0 \<le> timegm_secs t"
    using d by (cases d; cases "snd d"; simp add: t_def date_ok_def secs_read_def two_digit_fields_def)+
  define bs where "bs = date_bytes d"
  note c = c [folded bs_def] and that = that [folded bs_def, unfolded secs ok]
  define gen where "gen = four_digits (tm_year t) @ time_bytes t"
  from d consider (utc) "50 \<le> tm_year t" "tm_year t < 150" "bs = der_tlv DER_UTCTIME (utctime_bytes t)"
    | (gen) "0 \<le> tm_year t" "tm_year t < 10000" "bs = der_tlv DER_GENERALIZEDTIME gen"
    by (cases d; cases "snd d")
      (auto simp: date_written_def date_bytes_def gentime_bytes_def t_def bs_def gen_def)
  then show thesis
  proof cases
    case utc
    obtain j e where d: "parse_data_element raw DER_UTCTIME idx pe = Inr (j, e)"
      "cursor raw j e (utctime_bytes t)" "cursor raw e pe rest" "slice raw idx e = bs"
      using parse_data_element_tlv [OF c [unfolded utc(3)]] utc(3) by metis
    obtain y1 y2 where y: "two_digits (tm_year t mod 100) = [y1, y2]" by (simp add: two_digits_def)
    have dy: "is_digit y1" "is_digit y2" "two_val y1 y2 = tm_year t mod 100"
      using y two_digits_iff [of "tm_year t mod 100" y1 y2] by auto
    have c1: "cursor raw j e (y1 # y2 # time_bytes t)" using d(2) y by (simp add: utctime_bytes_def)
    have "tm_year t = two_val y1 y2 + (if two_val y1 y2 < 50 then 1 else 0) * 100"
      using utc_year [of "two_val y1 y2" "tm_year t"] two_val_bounds [OF dy(1,2)] dy(3) utc(1,2) by simp
    then have "parse_time_year raw idx pe = Inr (j + 2, tm_year t, e)"
      using parse_time_year_utc [OF d(1) c1] dy(1,2) by simp
    moreover note parse_time_rest_bytes [OF cursor_Cons2 [OF c1] t]
    ultimately show thesis by (intro that [of e] d(3,4)) (simp add: parse_time_def)
  next
    case gen
    obtain j e where d: "parse_data_element raw DER_GENERALIZEDTIME idx pe = Inr (j, e)"
      "cursor raw j e gen" "cursor raw e pe rest" "slice raw idx e = bs"
      using parse_data_element_tlv [OF c [unfolded gen(3)]] gen(3) by metis
    have n: "parse_data_element raw DER_UTCTIME idx pe = Inl (Code UNEXPECTED_IDENTIFIER)"
      by (rule parse_data_element_other [OF c [unfolded gen(3)]])
        (simp add: DER_GENERALIZEDTIME_def DER_UTCTIME_def)
    obtain y1 y2 y3 y4 where y: "four_digits (tm_year t) = [y1, y2, y3, y4]"
      by (simp add: four_digits_def two_digits_def)
    have dy: "is_digit y1" "is_digit y2" "is_digit y3" "is_digit y4"
      "two_val y1 y2 * 100 + two_val y3 y4 = tm_year t"
      using y four_digits_iff [OF gen(1,2), of y1 y2 y3 y4] by auto
    have c1: "cursor raw j e (y1 # y2 # y3 # y4 # time_bytes t)"
      using d(2) y by (simp add: gen_def)
    have "parse_time_year raw idx pe = Inr (j + 4, tm_year t, e)"
      using parse_time_year_gen [OF disjI2 [OF n] d(1) c1] dy by simp
    moreover have "cursor raw (j + 4) e (time_bytes t)"
      using cursor_Cons2 [OF cursor_Cons2 [OF c1]] by (simp add: add.assoc)
    note parse_time_rest_bytes [OF this t]
    ultimately show thesis by (intro that [of e] d(3,4)) (simp add: parse_time_def)
  qed
qed

lemma parse_time_complete:
  assumes c: "cursor raw idx pe (date_bytes d @ rest)" and d: "date_ok d"
  obtains i' where "parse_time raw idx pe = Inr (i', secs_read d)" "cursor raw i' pe rest"
    "slice raw idx i' = date_bytes d"
proof -
  have "date_written d" "two_digit_fields (fst d)"
    using d two_digit_valid [of "as_read d"] by (cases d; cases "snd d"; simp add: date_ok_def two_digit_fields_def)+
  from parse_time_written [OF c this] d that show thesis by auto
qed

section \<open>Dates of the calendar\<close>

text \<open>
  The year is read 1900 years late, so a day is lost: the 29 February of a leap year is no day of the year that is
  read, when that is divisible by 100 and not by 400.
\<close>

lemma leap_day_kept:
  assumes "valid_tm t"
  shows "valid_tm (t\<lparr>tm_year := y\<rparr>) \<longleftrightarrow> \<not> (tm_mon t = 1 \<and> tm_mday t = 29 \<and> \<not> is_leap (y + 1900))"
proof -
  have m: "0 \<le> tm_mon t" "tm_mon t < 12" using assms by (auto simp: valid_tm_def)
  have "tm_mday t \<le> month_length (is_leap (y + 1900)) (tm_mon t) \<longleftrightarrow>
      \<not> (tm_mon t = 1 \<and> tm_mday t = 29 \<and> \<not> is_leap (y + 1900))"
    by (rule month_cases [OF m])
      (use assms in \<open>auto simp: valid_tm_def month_length_def days_before_month_def split: if_splits\<close>)
  then show ?thesis using assms by (simp add: valid_tm_def)
qed

lemma timegm_later_year:
  assumes "valid_tm t" "0 \<le> timegm_secs t" "valid_tm (t\<lparr>tm_year := tm_year t + 1900\<rparr>)"
  shows "0 \<le> timegm_secs (t\<lparr>tm_year := tm_year t + 1900\<rparr>)"
proof -
  have m: "tm_mon t div 12 = 0" using assms(1) by (auto simp: valid_tm_def)
  have "days_before_year (tm_year t + 1900) + 365 \<le> days_before_year (tm_year t + 1900 + 1900)"
    using days_before_year_step [of "tm_year t + 1900"] year_length_bounds(1) [of "tm_year t + 1900"]
      days_before_year_mono [of "tm_year t + 1900 + 1" "tm_year t + 1900 + 1900"] by simp
  moreover have "days_before_month (is_leap (tm_year t + 1900)) (tm_mon t mod 12) \<le>
      days_before_month (is_leap (tm_year t + 1900 + 1900)) (tm_mon t mod 12) + 1"
    by (simp add: days_before_month_def)
  ultimately show ?thesis using assms(2) m by (simp add: timegm_secs_def Let_def)
qed

text \<open>
  What becomes of a date of the calendar, from the epoch on, in either form.
\<close>

definition leap_day_lost :: "date \<Rightarrow> bool" where
  "leap_day_lost = (\<lambda>(t, general). general \<and> tm_mon t = 1 \<and> tm_mday t = 29 \<and> \<not> is_leap (tm_year t + 1900 + 1900))"

lemma calendar_date_ok:
  assumes "date_written d" "valid_tm (fst d)" "0 \<le> timegm_secs (fst d)"
  shows "date_ok d \<longleftrightarrow> \<not> leap_day_lost d"
  using assms leap_day_kept [OF assms(2), of "tm_year (fst d) + 1900"] timegm_later_year [OF assms(2,3)]
  by (cases d; cases "snd d") (auto simp: date_ok_def leap_day_lost_def secs_read_def)

section \<open>Contract\<close>

lemma parse_time_year_safe:
  assumes v: "valid_end raw pe"
  shows "psafe (parse_time_year raw idx pe) (\<lambda>(k, y, e). \<exists>bs. cursor raw k e bs \<and> length bs = 11)"
  unfolding parse_time_year_def
proof (rule safe_check_ok2 [OF parse_optional_data_none [OF v]], goal_cases)
  case (1 j e)
  show ?case
  proof (cases "e = IDX_NONE")
    case False
    with 1 have g: "j \<le> e" "e \<le> pe" by auto
    have c: "cursor raw j e (slice raw j e)"
      by (rule slice_cursor [OF valid_end_mono [OF v g(2)] g(1)])
    show ?thesis
    proof (cases "length (slice raw j e) = 13")
      case True
      then obtain y1 y2 bs where s: "slice raw j e = y1 # y2 # bs" by (auto elim: take2 [rotated])
      from c True have c': "cursor raw j e (y1 # y2 # bs)" "length bs = 11" by (simp_all add: s)
      then show ?thesis
        using cursor_Cons2 [OF c'(1)] \<open>e \<noteq> IDX_NONE\<close> by (auto simp: convert_2digit_cursor [OF c'(1)])
    next
      case F: False
      then show ?thesis
        using False cursor_size_iff [OF c, of 13] by (simp add: UTCTIME_SIZE_def)
    qed
  next
    case True
    have "psafe (check_ok (parse_data_element raw DER_GENERALIZEDTIME j pe) (\<lambda>(idx, ts_end).
        if idx + GENERALIZEDTIME_SIZE \<noteq> ts_end then Inl (Code INVALID_VALIDITY_TIME)
        else
          check_ok (convert_num raw idx 0 1000) (\<lambda>(idx, year).
          check_ok (convert_num raw idx year 100) (\<lambda>(idx, year).
          check_ok (convert_num raw idx year 10) (\<lambda>(idx, year).
          check_ok (convert_num raw idx year 1) (\<lambda>(idx, year).
            Inr (idx, year, ts_end)))))))
        (\<lambda>(k, y, e). \<exists>bs. cursor raw k e bs \<and> length bs = 11)"
    proof (rule safe_check_ok2 [OF parse_data_element_safe [OF v]], goal_cases)
      case (1 i e)
      have c: "cursor raw i e (slice raw i e)"
        using 1 by (intro slice_cursor valid_end_mono [OF v]) auto
      show ?case
      proof (cases "length (slice raw i e) = 15")
        case True
        then obtain y1 y2 y3 y4 bs where s: "slice raw i e = y1 # y2 # y3 # y4 # bs"
          by (auto elim: take4 [rotated])
        from c True have c': "cursor raw i e (y1 # y2 # y3 # y4 # bs)" "length bs = 11"
          by (simp_all add: s)
        note c2 = cursor_Cons(3) [OF c'(1)] note c3 = cursor_Cons(3) [OF c2, simplified]
        note c4 = cursor_Cons(3) [OF c3, simplified] note c5 = cursor_Cons(3) [OF c4, simplified]
        show ?thesis
          using c5 c'(2)
          by (auto simp: convert_num_cursor [OF c'(1)] convert_num_cursor [OF c2]
              convert_num_cursor [OF c3] convert_num_cursor [OF c4])
      next
        case False
        then show ?thesis
          using cursor_size_iff [OF c, of 15] by (simp add: GENERALIZEDTIME_SIZE_def)
      qed
    qed
    with True show ?thesis by simp
  qed
qed

lemma parse_time_safe [safe_rules]:
  assumes v: "valid_end raw pe"
  shows "psafe (parse_time raw idx pe) (\<lambda>(i', ts). idx < i' \<and> i' \<le> pe \<and> 0 \<le> ts)"
proof -
  have "psafe (parse_time raw idx pe) (\<lambda>_. True)"
    unfolding parse_time_def
  proof (rule safe_check_ok3 [OF parse_time_year_safe [OF v]], goal_cases)
    case (1 k y e)
    then obtain bs where c: "cursor raw k e bs" "length bs = 11" by blast
    obtain m1 m2 d1 d2 h1 h2 n1 n2 s1 s2 z where
      bs: "bs = [m1, m2, d1, d2, h1, h2, n1, n2, s1, s2, z]" by (rule list11 [OF c(2)])
    show ?case
      by (simp add: parse_time_rest_cursor [OF c(1) [unfolded bs]] Let_def)
  qed
  then show ?thesis
    by (rule safe_mono) (use parse_time_sound [OF v] in \<open>auto simp: date_ok_def\<close>)
qed

end
