(* ===== verification/Extensions.thy ===== *)
theory Extensions
  imports Der_Spec
begin

text \<open>
  The certificate extensions \<open>src/x509.c\<close> supports: a parser for each, the table that
  dispatches on the extension's object identifier, and the defaults. The lemmas are the
  contract every parser keeps, stated as the locale \<open>extn_parser\<close> and interpreted for each of
  the five.
\<close>

section \<open>Basic constraints\<close>

text \<open>The loop over the octets of \<open>pathLenConstraint\<close>.\<close>

function path_len_loop :: "byte list \<Rightarrow> uinta \<Rightarrow> uinta \<Rightarrow> uint32 \<Rightarrow> uint32 parsed" where
  "path_len_loop raw_cert idx path_end len =
    (if idx < path_end then
       check_ok (rd raw_cert idx) (\<lambda>b.
         path_len_loop raw_cert (idx + 1) path_end (push_bit 8 len OR ucast b))
     else Inr len)"
  by pat_completeness auto
termination
  by (relation "measure (\<lambda>(_, idx, path_end, _). unat path_end - unat idx)")
    (auto simp: unat_add1 word_less_nat_alt)

declare path_len_loop.simps [simp del]

definition parse_path_len ::
    "byte list \<Rightarrow> uinta \<Rightarrow> uinta \<Rightarrow> x509Fields \<Rightarrow> (uinta \<times> x509Fields) parsed" where
  "parse_path_len raw_cert idx constraint_end flds =
    check_ok (parse_optional_data raw_cert DER_INTEGER idx constraint_end IDX_NONE) (\<lambda>(idx, path_end).
      if path_end \<noteq> IDX_NONE then
        if idx = path_end then Inl (Code UNEXPECTED_END_OF_DATA)
        else check_ok (rd raw_cert idx) (\<lambda>b.
          if b AND 0x80 > 0 \<or> path_end - idx > 4 then Inl (Code INVALID_INTEGER)
          else check_ok (path_len_loop raw_cert idx path_end (path_len_constraint flds)) (\<lambda>len.
            Inr (path_end, flds\<lparr>path_len_constraint := len\<rparr>)))
      else Inr (idx, flds\<lparr>path_len_constraint := 0xffffffff\<rparr>))"

definition parse_basic_constraint ::
    "byte list \<Rightarrow> uinta \<Rightarrow> uinta \<Rightarrow> x509Fields \<Rightarrow> x509Fields parsed" where
  "parse_basic_constraint raw_cert idx extn_end flds =
    check_ok (parse_data_element raw_cert DER_SEQUENCE idx extn_end) (\<lambda>(idx, constraint_end).
    check_ok (parse_default_bool raw_cert idx constraint_end) (\<lambda>(idx, ca).
    check_ok
      (if ca then parse_path_len raw_cert idx constraint_end (flds\<lparr>key_cert_sign := ca\<rparr>)
       else Inr (idx, flds\<lparr>key_cert_sign := ca\<rparr>)) (\<lambda>(idx, flds).
    if idx \<noteq> extn_end then Inl (Code TRAILING_DATA) else Inr flds)))"

section \<open>Key identifiers\<close>

text \<open>\<open>if (end != IDX_NONE) idx = end;\<close> after an optional element that is skipped.\<close>

definition skip_to :: "uinta \<Rightarrow> uinta \<Rightarrow> uinta" where
  "skip_to idx end = (if end \<noteq> IDX_NONE then end else idx)"

definition parse_akid :: "byte list \<Rightarrow> uinta \<Rightarrow> uinta \<Rightarrow> x509Fields \<Rightarrow> x509Fields parsed" where
  "parse_akid raw_cert idx extn_end flds =
    check_ok (parse_data_element raw_cert DER_SEQUENCE idx extn_end) (\<lambda>(idx, akid_seq_end).
    if akid_seq_end \<noteq> extn_end then Inl (Code TRAILING_DATA)
    else
      check_ok (parse_optional_data raw_cert DER_IMPLICIT_0 idx akid_seq_end IDX_NONE) (\<lambda>(idx, key_end).
      let flds = flds\<lparr>akid_end := key_end\<rparr>;
          flds = (if key_end \<noteq> IDX_NONE then flds\<lparr>akid_start := idx\<rparr> else flds);
          idx = skip_to idx key_end
      in
      check_ok (parse_optional_data raw_cert (DER_IMPLICIT_1 OR DER_CONSTRUCTED) idx akid_seq_end IDX_NONE)
        (\<lambda>(idx, aci_end).
      check_ok (parse_optional_data raw_cert DER_IMPLICIT_2 (skip_to idx aci_end) akid_seq_end IDX_NONE)
        (\<lambda>(idx, acsn_end).
      if skip_to idx acsn_end \<noteq> extn_end then Inl (Code TRAILING_DATA) else Inr flds))))"

definition parse_skid :: "byte list \<Rightarrow> uinta \<Rightarrow> uinta \<Rightarrow> x509Fields \<Rightarrow> x509Fields parsed" where
  "parse_skid raw_cert idx extn_end flds =
    check_ok (parse_data_element raw_cert DER_OCTET_STRING idx extn_end) (\<lambda>(idx, key_end).
      if key_end \<noteq> extn_end then Inl (Code TRAILING_DATA)
      else Inr (flds\<lparr>skid_end := key_end, skid_start := idx\<rparr>))"

section \<open>Key usage\<close>

text \<open>\<open>raw_cert[idx]\<close> is the number of unused bits in the last octet of the bit string.\<close>

definition parse_key_usage :: "byte list \<Rightarrow> uinta \<Rightarrow> uinta \<Rightarrow> x509Fields \<Rightarrow> x509Fields parsed" where
  "parse_key_usage raw_cert idx extn_end flds =
    check_ok (parse_data_element raw_cert DER_BITSTRING idx extn_end) (\<lambda>(idx, usage_end).
    if usage_end - idx \<le> 1 then Inl (Code UNEXPECTED_END_OF_DATA)
    else if usage_end \<noteq> extn_end \<or> usage_end - idx > 3 then Inl (Code TRAILING_DATA)
    else
      check_ok (rd raw_cert idx) (\<lambda>unused.
      if unused \<ge> 8 then Inl (Code INVALID_BITSTRING)
      else
        let last_set_bit = drop_bit (7 - unat unused) (0x80 :: byte);
            unused_bits = last_set_bit - 1
        in
        check_ok (rd raw_cert (usage_end - 1)) (\<lambda>last.
        if last AND last_set_bit = 0 \<or> last AND unused_bits > 0 then Inl (Code INVALID_BITSTRING)
        else
          check_ok (rd raw_cert (idx + 1)) (\<lambda>b1.
          let flds = flds\<lparr>has_key_usage := True,
                              key_usage_flags := key_usage_flags flds OR ucast b1\<rparr>
          in
          if idx + 2 < usage_end then
            check_ok (rd raw_cert (idx + 2)) (\<lambda>b2.
              Inr (flds\<lparr>key_usage_flags := key_usage_flags flds OR push_bit 1 (ucast b2)\<rparr>))
          else Inr flds))))"

section \<open>Extended key usage\<close>

definition KP_OID :: "byte list" where
  "KP_OID = [0x2b, 0x06, 0x01, 0x05, 0x05, 0x07, 0x03, 0x00]"

text \<open>The \<open>switch\<close> on the last octet of a key purpose; an unknown purpose adds no flag.\<close>

definition purpose_flag :: "byte \<Rightarrow> uint32" where
  "purpose_flag b =
    (if b = 0x00 then KEY_USAGE_FLAG_ANY_EXTENDED
     else if b = 0x01 then KEY_USAGE_FLAG_SERVER_AUTH
     else if b = 0x02 then KEY_USAGE_FLAG_CLIENT_AUTH
     else if b = 0x03 then KEY_USAGE_FLAG_CODE_SIGNING
     else if b = 0x04 then KEY_USAGE_FLAG_EMAIL_PROTECT
     else if b = 0x08 then KEY_USAGE_FLAG_TIMESTAMP
     else if b = 0x09 then KEY_USAGE_FLAG_OCSP_SIGN
     else 0)"

text \<open>One iteration: a key purpose, from the index and the flags to the next.\<close>

definition key_purpose_step ::
    "byte list \<Rightarrow> uinta \<Rightarrow> uinta \<times> uint32 \<Rightarrow> (uinta \<times> uint32) parsed" where
  "key_purpose_step raw_cert usage_end = (\<lambda>(idx, flags).
    check_ok (parse_data_element raw_cert DER_OID idx usage_end) (\<lambda>(idx, purpose_end).
    if purpose_end - idx = of_nat (length KP_OID) then
      check_ok (rd_bytes raw_cert idx (of_nat (length KP_OID - 1))) (\<lambda>prefix.
      if prefix = take (length KP_OID - 1) KP_OID then
        check_ok (rd raw_cert (purpose_end - 1)) (\<lambda>b. Inr (purpose_end, flags OR purpose_flag b))
      else Inr (purpose_end, flags))
    else Inr (purpose_end, flags)))"

lemma key_purpose_step_progress:
  "key_purpose_step raw usage_end (idx, flags) = Inr (i', flags') \<Longrightarrow> idx < i' \<and> i' \<le> usage_end"
  by (auto simp: key_purpose_step_def dest!: parse_data_element_progress split: if_splits)

function key_purpose_loop ::
    "byte list \<Rightarrow> uinta \<Rightarrow> uinta \<times> uint32 \<Rightarrow> (uinta \<times> uint32) parsed" where
  "key_purpose_loop raw_cert usage_end s =
    (if fst s < usage_end then
       check_ok (key_purpose_step raw_cert usage_end s) (\<lambda>s. key_purpose_loop raw_cert usage_end s)
     else Inr s)"
  by pat_completeness auto
termination
  by (relation "measure (\<lambda>(_, e, s). unat e - unat (fst s))")
    (auto dest!: key_purpose_step_progress intro: loop_measure)

declare key_purpose_loop.simps [simp del]

definition parse_ext_key_usage ::
    "byte list \<Rightarrow> uinta \<Rightarrow> uinta \<Rightarrow> x509Fields \<Rightarrow> x509Fields parsed" where
  "parse_ext_key_usage raw_cert idx extn_end flds =
    check_ok (parse_data_element raw_cert DER_SEQUENCE idx extn_end) (\<lambda>(idx, usage_end).
    if usage_end \<noteq> extn_end then Inl (Code TRAILING_DATA)
    else
      check_ok (key_purpose_loop raw_cert usage_end (idx, key_usage_flags flds)) (\<lambda>(idx, flags).
      check_ok (c_assert (idx = usage_end)) (\<lambda>_.
        Inr (flds\<lparr>key_usage_flags := flags, has_ext_key_usage := True\<rparr>))))"

section \<open>The table of supported extensions\<close>

record SupportedExtn =
  extn_oid :: "byte list"
  criticality :: uint32
  parse_extn :: "byte list \<Rightarrow> uinta \<Rightarrow> uinta \<Rightarrow> x509Fields \<Rightarrow> x509Fields parsed"

definition basic_constraint_oid :: "byte list" where "basic_constraint_oid = [0x55, 0x1d, 0x13]"
definition akid_oid :: "byte list" where "akid_oid = [0x55, 0x1d, 0x23]"
definition skid_oid :: "byte list" where "skid_oid = [0x55, 0x1d, 0x0e]"
definition key_usage_oid :: "byte list" where "key_usage_oid = [0x55, 0x1d, 0x0f]"
definition ext_key_usage_oid :: "byte list" where "ext_key_usage_oid = [0x55, 0x1d, 0x25]"

definition supported_etxns :: "SupportedExtn list" where
  "supported_etxns =
    [\<lparr>extn_oid = basic_constraint_oid, criticality = 0b11, parse_extn = parse_basic_constraint\<rparr>,
     \<lparr>extn_oid = akid_oid, criticality = 0b10, parse_extn = parse_akid\<rparr>,
     \<lparr>extn_oid = skid_oid, criticality = 0b10, parse_extn = parse_skid\<rparr>,
     \<lparr>extn_oid = key_usage_oid, criticality = 0b00, parse_extn = parse_key_usage\<rparr>,
     \<lparr>extn_oid = ext_key_usage_oid, criticality = 0b00, parse_extn = parse_ext_key_usage\<rparr>]"

definition assign_default_extensions :: "x509Fields \<Rightarrow> x509Fields" where
  "assign_default_extensions flds = flds\<lparr>
     skid_start := IDX_NONE, skid_end := IDX_NONE, akid_start := IDX_NONE, akid_end := IDX_NONE,
     key_cert_sign := False, path_len_constraint := 0, has_key_usage := False,
     has_ext_key_usage := False, key_usage_flags := 0\<rparr>"

text \<open>
  The loop over the table: whether the extension is still one that must be rejected
  (\<open>critical_fail\<close>), and the fields after its parser.
\<close>

fun dispatch_extn ::
    "SupportedExtn list \<Rightarrow> byte list \<Rightarrow> uinta \<Rightarrow> uinta \<Rightarrow> bool \<Rightarrow> uinta \<Rightarrow> uinta \<Rightarrow> x509Fields \<Rightarrow>
     (bool \<times> x509Fields) parsed" where
  "dispatch_extn [] raw_cert oid_start oid_size critical idx extn_end flds = Inr (critical, flds)"
| "dispatch_extn (s_extn # s_extns) raw_cert oid_start oid_size critical idx extn_end flds =
    check_ok (memeq raw_cert oid_start oid_size (extn_oid s_extn)) (\<lambda>found.
      if found then
        if criticality s_extn AND 0b10 > 0 \<and>
           criticality s_extn AND 0b01 \<noteq> (if critical then 1 else 0)
        then Inl (Code INVALID_CRITICALITY)
        else check_ok (parse_extn s_extn raw_cert idx extn_end flds) (\<lambda>flds. Inr (False, flds))
      else dispatch_extn s_extns raw_cert oid_start oid_size critical idx extn_end flds)"

section \<open>The contract of an extension parser\<close>

text \<open>A pair of indices that is absent (both \<open>IDX_NONE\<close>), or a range within the buffer.\<close>

definition opt_range :: "byte list \<Rightarrow> uinta \<Rightarrow> uinta \<Rightarrow> bool" where
  "opt_range raw s e \<longleftrightarrow> s = IDX_NONE \<and> e = IDX_NONE \<or> IDX_NONE < s \<and> s \<le> e \<and> valid_end raw e"

text \<open>The two halves of \<open>key_usage_flags\<close>.\<close>

definition KU_BITS :: uint32 where "KU_BITS = 0x0000FFFF"
definition EKU_BITS :: uint32 where "EKU_BITS = 0xFFFF0000"

text \<open>
  What holds of the extension fields when the extensions with the identifiers \<open>seen\<close> have
  been parsed: the field comments of \<open>x509.h\<close>.
\<close>

definition extn_inv :: "byte list \<Rightarrow> byte list list \<Rightarrow> x509Fields \<Rightarrow> bool" where
  "extn_inv raw seen f \<longleftrightarrow>
     opt_range raw (skid_start f) (skid_end f) \<and> opt_range raw (akid_start f) (akid_end f) \<and>
     (skid_start f \<noteq> IDX_NONE \<longleftrightarrow> skid_oid \<in> set seen) \<and>
     (akid_start f \<noteq> IDX_NONE \<longrightarrow> akid_oid \<in> set seen) \<and>
     (has_key_usage f \<longleftrightarrow> key_usage_oid \<in> set seen) \<and>
     (has_ext_key_usage f \<longleftrightarrow> ext_key_usage_oid \<in> set seen) \<and>
     (key_cert_sign f \<longrightarrow> basic_constraint_oid \<in> set seen) \<and>
     (\<not> key_cert_sign f \<longrightarrow> path_len_constraint f = 0) \<and>
     (\<not> has_key_usage f \<longrightarrow> key_usage_flags f AND KU_BITS = 0) \<and>
     (\<not> has_ext_key_usage f \<longrightarrow> key_usage_flags f AND EKU_BITS = 0)"

text \<open>The fields an extension parser does not touch.\<close>

definition same_core :: "x509Fields \<Rightarrow> x509Fields \<Rightarrow> bool" where
  "same_core f g \<longleftrightarrow> assign_default_extensions f = assign_default_extensions g"

lemma same_core_refl [simp, intro]: "same_core f f"
  by (simp add: same_core_def)

lemma same_core_trans [trans]: "same_core f g \<Longrightarrow> same_core g h \<Longrightarrow> same_core f h"
  by (simp add: same_core_def)

lemma same_core_assign [simp, intro]: "same_core f (assign_default_extensions f)"
  by (simp add: same_core_def assign_default_extensions_def)

lemma extn_inv_assign: "extn_inv raw [] (assign_default_extensions f)"
  by (simp add: extn_inv_def assign_default_extensions_def opt_range_def IDX_NONE_def)

lemmas extn_oids = basic_constraint_oid_def akid_oid_def skid_oid_def key_usage_oid_def
  ext_key_usage_oid_def

locale extn_parser =
  fixes oid :: "byte list"
    and parse :: "byte list \<Rightarrow> uinta \<Rightarrow> uinta \<Rightarrow> x509Fields \<Rightarrow> x509Fields parsed"
  assumes parse_safe:
    "valid_end raw e \<Longrightarrow> extn_inv raw seen f \<Longrightarrow> oid \<notin> set seen \<Longrightarrow>
     psafe (parse raw idx e f) (\<lambda>g. extn_inv raw (oid # seen) g \<and> same_core f g)"

lemma gt_none: "IDX_NONE < i \<longleftrightarrow> i \<noteq> IDX_NONE"
  by (simp add: IDX_NONE_def word_gt_0)

lemma not_none: "(i :: uinta) < j \<Longrightarrow> IDX_NONE < j"
  unfolding IDX_NONE_def by (rule le_less_trans [OF word_zero_le])

text \<open>
  Each parser writes its own group of fields; whether the invariant survives is a question about
  that group only.
\<close>

lemma extn_inv_skid:
  "extn_inv raw seen f \<Longrightarrow> opt_range raw i e \<Longrightarrow> IDX_NONE < i \<Longrightarrow>
   extn_inv raw (skid_oid # seen) (f\<lparr>skid_end := e, skid_start := i\<rparr>)"
  by (auto simp: extn_inv_def extn_oids gt_none)

lemma extn_inv_akid:
  "extn_inv raw seen f \<Longrightarrow> opt_range raw i e \<Longrightarrow>
   extn_inv raw (akid_oid # seen) (f\<lparr>akid_end := e, akid_start := i\<rparr>)"
  by (auto simp: extn_inv_def extn_oids)

lemma extn_inv_basic:
  "extn_inv raw seen f \<Longrightarrow> (\<not> ca \<Longrightarrow> n = 0) \<Longrightarrow>
   extn_inv raw (basic_constraint_oid # seen) (f\<lparr>key_cert_sign := ca, path_len_constraint := n\<rparr>)"
  by (auto simp: extn_inv_def extn_oids)

lemma same_core_updates [simp]:
  "same_core f (g\<lparr>skid_start := i\<rparr>) = same_core f g"
  "same_core f (g\<lparr>skid_end := i\<rparr>) = same_core f g"
  "same_core f (g\<lparr>akid_start := i\<rparr>) = same_core f g"
  "same_core f (g\<lparr>akid_end := i\<rparr>) = same_core f g"
  "same_core f (g\<lparr>key_cert_sign := b\<rparr>) = same_core f g"
  "same_core f (g\<lparr>path_len_constraint := n\<rparr>) = same_core f g"
  "same_core f (g\<lparr>has_key_usage := b\<rparr>) = same_core f g"
  "same_core f (g\<lparr>has_ext_key_usage := b\<rparr>) = same_core f g"
  "same_core f (g\<lparr>key_usage_flags := n\<rparr>) = same_core f g"
  by (simp_all add: same_core_def assign_default_extensions_def)

interpretation skid: extn_parser skid_oid parse_skid
proof (unfold_locales, goal_cases)
  case (1 raw e seen f idx)
  show ?case
    unfolding parse_skid_def
    by (rule safe_seq2 [OF parse_data_element_safe [OF 1(1)]])
      (auto intro!: extn_inv_skid 1 not_none simp: opt_range_def intro: not_none)
qed

lemma skip_to_none:
  "(if e = IDX_NONE then i' = i else i < i' \<and> i' \<le> e \<and> e \<le> pe) \<Longrightarrow> i \<le> pe \<Longrightarrow> skip_to i' e \<le> pe"
  by (auto simp: skip_to_def split: if_splits)

interpretation akid: extn_parser akid_oid parse_akid
proof (unfold_locales, goal_cases)
  case (1 raw e seen f idx)
  note v = 1(1) note opt = parse_optional_data_none [OF v]
  have z: "akid_start f = IDX_NONE" using 1 by (auto simp: extn_inv_def)
  have fin: "extn_inv raw (akid_oid # seen)
      (if k \<noteq> IDX_NONE then f\<lparr>akid_end := k, akid_start := j\<rparr> else f\<lparr>akid_end := k\<rparr>)"
    if "if k = IDX_NONE then j = i else i < j \<and> j \<le> k \<and> k \<le> e" for i j k
  proof (cases "k = IDX_NONE")
    case True
    with 1(2) z show ?thesis by (auto simp: extn_inv_def opt_range_def extn_oids)
  next
    case False
    with that v have "opt_range raw j k"
      by (auto simp: opt_range_def intro: not_none valid_end_mono)
    with False show ?thesis by (simp add: extn_inv_akid [OF 1(2)])
  qed
  show ?case
    unfolding parse_akid_def Let_def
  proof (rule safe_seq2 [OF parse_data_element_safe [OF v]], rule safe_if, simp,
      simp only: not_not, rule safe_seq2 [OF opt], goal_cases)
    case (1 i s j k)
    show ?case
      by (rule safe_seq2 [OF opt], rule safe_seq2 [OF opt]) (use fin [OF 1(5)] in auto)
  qed
qed

lemma path_len_loop_safe:
  "valid_end raw e \<Longrightarrow> psafe (path_len_loop raw idx e len) (\<lambda>_. True)"
proof (induction raw idx e len rule: path_len_loop.induct)
  case (1 raw idx e len)
  then show ?case
    by (cases "idx < e") (simp_all add: path_len_loop.simps [of raw idx e len] rd_valid)
qed

lemma parse_path_len_safe:
  assumes v: "valid_end raw e" and i: "idx \<le> e" and P: "\<And>n. P (f\<lparr>path_len_constraint := n\<rparr>)"
  shows "psafe (parse_path_len raw idx e f) (\<lambda>(i', g). idx \<le> i' \<and> i' \<le> e \<and> P g)"
  unfolding parse_path_len_def
proof (rule safe_seq2 [OF parse_optional_data_none [OF v]], goal_cases)
  case (1 j k)
  show ?case
  proof (cases "k = IDX_NONE \<or> j = k")
    case True
    with 1 i P show ?thesis by (cases "k = IDX_NONE") simp_all
  next
    case False
    with 1 have g: "idx < j" "j < k" "k \<le> e" by auto
    note v' = valid_end_mono [OF v g(3)]
    have "psafe (check_ok (path_len_loop raw j k (path_len_constraint f))
        (\<lambda>len. Inr (k, f\<lparr>path_len_constraint := len\<rparr>)))
        (\<lambda>(i', g). idx \<le> i' \<and> i' \<le> e \<and> P g)"
      by (rule safe_check_ok [OF path_len_loop_safe [OF v']]) (use g P in simp)
    with False show ?thesis
      by (simp add: rd_valid [OF v' g(2)])
  qed
qed

interpretation basic: extn_parser basic_constraint_oid parse_basic_constraint
proof (unfold_locales, goal_cases)
  case (1 raw e seen f idx)
  note v = 1(1)
  have fresh: "path_len_constraint f = 0" using 1 by (auto simp: extn_inv_def)
  have fin: "extn_inv raw (basic_constraint_oid # seen) (f\<lparr>key_cert_sign := ca, path_len_constraint := n\<rparr>)"
    if "\<not> ca \<Longrightarrow> n = 0" for ca n
    by (rule extn_inv_basic [OF 1(2) that])
  have fin0: "extn_inv raw (basic_constraint_oid # seen) (f\<lparr>key_cert_sign := False\<rparr>)"
    using fin [of False 0] fresh 1(2) by (auto simp: extn_inv_def)
  show ?case
    unfolding parse_basic_constraint_def
  proof (rule safe_seq2 [OF parse_data_element_safe [OF v]], goal_cases)
    case (1 i c)
    then have g: "i \<le> c" "c \<le> e" by auto
    note v' = valid_end_mono [OF v g(2)]
    show ?case
    proof (rule safe_seq2 [OF parse_default_bool_safe [OF v' g(1)]], goal_cases)
      case (1 j ca)
      then have j: "j \<le> c" by simp
      show ?case
      proof (cases ca)
        case True
        have "psafe (check_ok (parse_path_len raw j c (f\<lparr>key_cert_sign := True\<rparr>)) (\<lambda>(idx, flds).
            if idx \<noteq> e then Inl (Code TRAILING_DATA) else Inr flds))
            (\<lambda>g. extn_inv raw (basic_constraint_oid # seen) g \<and> same_core f g)"
          by (rule safe_seq2 [OF parse_path_len_safe [OF v' j,
              where P = "\<lambda>g. extn_inv raw (basic_constraint_oid # seen) g \<and> same_core f g"]])
            (use fin [of True] in simp_all)
        with True show ?thesis by simp
      next
        case False
        with fin0 show ?thesis by simp
      qed
    qed
  qed
qed

lemma and_zero_or: "(x :: uint32) AND m = 0 \<Longrightarrow> y AND m = 0 \<Longrightarrow> (x OR y) AND m = 0"
  by (simp add: bit.conj_disj_distrib2)

lemma extn_inv_key_usage:
  "extn_inv raw seen f \<Longrightarrow> n AND EKU_BITS = 0 \<Longrightarrow>
   extn_inv raw (key_usage_oid # seen)
     (f\<lparr>has_key_usage := True, key_usage_flags := key_usage_flags f OR n\<rparr>)"
  by (auto simp: extn_inv_def extn_oids intro: and_zero_or)

lemma extn_inv_ext_key_usage:
  "extn_inv raw seen f \<Longrightarrow> n AND KU_BITS = 0 \<Longrightarrow>
   extn_inv raw (ext_key_usage_oid # seen)
     (f\<lparr>key_usage_flags := key_usage_flags f OR n, has_ext_key_usage := True\<rparr>)"
  by (auto simp: extn_inv_def extn_oids intro: and_zero_or)

lemma usage_masks: "EKU_BITS = push_bit 16 (mask 16)" "KU_BITS = mask 16"
  by (simp_all add: EKU_BITS_def KU_BITS_def mask_eq_exp_minus_1)

lemma byte_high_bits: "8 \<le> n \<Longrightarrow> \<not> bit (b :: byte) n"
  using bit_imp_le_length [of b n] by auto

lemma shifted_octet_bits: "k \<le> 8 \<Longrightarrow> push_bit k (ucast (b :: byte) :: uint32) AND EKU_BITS = 0"
  by (auto intro!: bit_word_eqI simp: usage_masks bit_simps byte_high_bits)

lemma usage_octet_bits:
  "(ucast (b :: byte) :: uint32) AND EKU_BITS = 0"
  "push_bit 1 (ucast (b :: byte) :: uint32) AND EKU_BITS = 0"
  using shifted_octet_bits [of 0 b] shifted_octet_bits [of 1 b] by (simp_all del: push_bit_Suc push_bit_of_1)

lemma diff_bounds:
  fixes i u :: uinta
  assumes "i \<le> u" "\<not> u - i \<le> 1"
  shows "i < u" "i + 1 < u" "u - 1 < u" "i + 2 \<le> u"
  using assms by unat_arith+

interpretation key_usage: extn_parser key_usage_oid parse_key_usage
proof (unfold_locales, goal_cases)
  case (1 raw e seen f idx)
  show ?case
    unfolding parse_key_usage_def Let_def
  proof (rule safe_seq2 [OF parse_data_element_safe [OF 1(1)]], goal_cases)
    case (1 i u)
    then have le: "i \<le> u" "u \<le> e" by auto
    note v = valid_end_mono [OF \<open>valid_end raw e\<close> le(2)]
    show ?case
    proof (cases "u - i \<le> 1")
      case False
      note d = diff_bounds [OF le(1) False]
      have fin: "extn_inv raw (key_usage_oid # seen)
          (f\<lparr>has_key_usage := True, key_usage_flags := key_usage_flags f OR n\<rparr>)"
        if "n AND EKU_BITS = 0" for n
        by (rule extn_inv_key_usage [OF \<open>extn_inv raw seen f\<close> that])
      show ?thesis
        using d fin [OF usage_octet_bits(1)] fin [OF and_zero_or [OF usage_octet_bits]]
        by (auto simp: rd_valid [OF v] or.assoc)
    qed simp
  qed
qed

lemma purpose_flag_bits: "purpose_flag b AND KU_BITS = 0"
  by (auto simp: purpose_flag_def usage_flags KU_BITS_def)

text \<open>The flags a run of key purposes adds to the ones before are above the key-usage half.\<close>

definition purposes_inv :: "uint32 \<Rightarrow> byte list \<Rightarrow> uinta \<Rightarrow> uinta \<times> uint32 \<Rightarrow> bool" where
  "purposes_inv flags0 raw e s \<longleftrightarrow>
     fst s \<le> e \<and> (\<exists>n. snd s = flags0 OR n \<and> n AND KU_BITS = 0)"

lemma purposes_inv_add:
  "purposes_inv flags0 raw e (i, flags) \<Longrightarrow> j \<le> e \<Longrightarrow> purposes_inv flags0 raw e (j, flags OR purpose_flag b)"
  using purpose_flag_bits and_zero_or by (fastforce simp: purposes_inv_def or.assoc)

interpretation purposes: element_loop key_purpose_step key_purpose_loop "\<lambda>e s. fst s < e" fst
  "purposes_inv flags0" for flags0
proof (unfold_locales, goal_cases)
  case (1 raw e s)
  show ?case by (rule key_purpose_loop.simps)
next
  case (2 raw e s s')
  then show ?case using key_purpose_step_progress [of raw e "fst s" "snd s" "fst s'" "snd s'"] by simp
next
  case (3 raw e s)
  obtain i flags where s: "s = (i, flags)" by (cases s)
  note v = 3(1)
  show ?case
    unfolding s key_purpose_step_def split_conv
  proof (rule safe_seq2 [OF parse_data_element_safe [OF v]], goal_cases)
    case (1 j k)
    then have le: "j \<le> k" "k \<le> e" by auto
    have inv: "purposes_inv flags0 raw e (i, flags)" using 3(2) s by simp
    have keep: "purposes_inv flags0 raw e (k, flags)"
      using inv le(2) by (auto simp: purposes_inv_def)
    note v' = valid_end_mono [OF v le(2)]
    show ?case
    proof (cases "k - j = 8")
      case True
      then have d: "unat j + 7 \<le> unat k" "k - 1 < k" using le by unat_arith+
      then have "rd_bytes raw j 7 = (Inr (take 7 (drop (unat j) raw)) :: byte list parsed)"
        using v' by (simp add: rd_bytes_def valid_end_def)
      then show ?thesis
        using True keep purposes_inv_add [OF inv le(2)]
        by (simp add: KP_OID_def rd_valid [OF v' d(2)])
    next
      case False
      with keep show ?thesis by (simp add: KP_OID_def)
    qed
  qed
next
  case (4 raw e s)
  then show ?case by (auto simp: purposes_inv_def)
qed

interpretation ext_key_usage: extn_parser ext_key_usage_oid parse_ext_key_usage
proof (unfold_locales, goal_cases)
  case (1 raw e seen f idx)
  note v = 1(1)
  show ?case
    unfolding parse_ext_key_usage_def
  proof (rule safe_seq2 [OF parse_data_element_safe [OF v]], goal_cases)
    case (1 i u)
    show ?case
    proof (cases "u = e")
      case True
      have "purposes_inv (key_usage_flags f) raw e (i, key_usage_flags f)"
        using 1 by (auto simp: purposes_inv_def intro!: exI [of _ 0])
      note loop = purposes.loop_safe [OF v this]
      have "psafe (check_ok (key_purpose_loop raw e (i, key_usage_flags f)) (\<lambda>(idx, flags).
          check_ok (c_assert (idx = e)) (\<lambda>_.
            Inr (f\<lparr>key_usage_flags := flags, has_ext_key_usage := True\<rparr>))))
          (\<lambda>g. extn_inv raw (ext_key_usage_oid # seen) g \<and> same_core f g)"
        by (rule safe_check_ok [OF loop])
          (auto simp: purposes_inv_def intro!: extn_inv_ext_key_usage \<open>extn_inv raw seen f\<close>)
      with True show ?thesis by simp
    qed simp
  qed
qed

end
