(* ===== verification/X509.thy ===== *)
theory X509
  imports Cert_Time Extensions
begin

text \<open>
  The rest of \<open>src/x509.c\<close>: algorithm identifiers, names, the extension loop and
  \<open>parse_x509\<close> itself, cut into the stages the source marks with its ASN.1 comments. The
  lemmas give every stage's contract (no fault, the indices it leaves) and what an accepted
  certificate looks like.
\<close>

section \<open>Algorithm identifiers\<close>

text \<open>Index after the identifier, and the identifier's start and end and its OID's.\<close>

definition parse_alg_id ::
    "byte list \<Rightarrow> uinta \<Rightarrow> uinta \<Rightarrow> (uinta \<times> uinta \<times> uinta \<times> uinta \<times> uinta) parsed" where
  "parse_alg_id raw_cert idx parent_end =
    (let id_start = idx in
     check_ok (parse_data_element raw_cert DER_SEQUENCE idx parent_end) (\<lambda>(idx, id_end).
     check_ok (parse_data_element raw_cert DER_OID idx id_end) (\<lambda>(idx, oid_end).
     let oid_start = idx in
     Inr (id_end, id_start, id_end, oid_start, oid_end))))"

section \<open>Names\<close>

text \<open>One attribute; the state is the index and \<open>attribute_end\<close>.\<close>

definition attribute_step :: "byte list \<Rightarrow> uinta \<Rightarrow> uinta \<times> uinta \<Rightarrow> (uinta \<times> uinta) parsed" where
  "attribute_step raw_cert relative_name_end = (\<lambda>(idx, _).
    check_ok (parse_data_element raw_cert DER_SEQUENCE idx relative_name_end) (\<lambda>(idx, attribute_end).
    check_ok (parse_data_element raw_cert DER_OID idx attribute_end) (\<lambda>(_, attribute_type_end).
    check_ok (parse_any raw_cert attribute_type_end attribute_end) (\<lambda>(_, attribute_value_end, _).
      if attribute_end \<noteq> attribute_value_end then Inl (Code TRAILING_DATA)
      else Inr (attribute_value_end, attribute_end)))))"

lemma attribute_step_progress:
  "attribute_step raw e s = Inr s' \<Longrightarrow> fst s < fst s' \<and> fst s' \<le> e"
  by (cases s)
    (auto simp: attribute_step_def dest!: parse_data_element_progress parse_any_progress split: if_splits)

function attribute_loop :: "byte list \<Rightarrow> uinta \<Rightarrow> uinta \<times> uinta \<Rightarrow> (uinta \<times> uinta) parsed" where
  "attribute_loop raw_cert relative_name_end s =
    (if snd s < relative_name_end then
       check_ok (attribute_step raw_cert relative_name_end s) (\<lambda>s.
         attribute_loop raw_cert relative_name_end s)
     else Inr s)"
  by pat_completeness auto
termination
  by (relation "measure (\<lambda>(_, e, s). unat e - unat (fst s))")
    (auto dest!: attribute_step_progress intro: loop_measure)

declare attribute_loop.simps [simp del]

lemma parse_alg_id_progress:
  "parse_alg_id raw idx pe = Inr (i', id_s, id_e, oid_s, oid_e) \<Longrightarrow>
   i' = id_e \<and> id_s = idx \<and> idx < oid_s \<and> oid_s \<le> oid_e \<and> oid_e \<le> id_e \<and> id_e \<le> pe"
  by (auto simp: parse_alg_id_def dest!: parse_data_element_progress)

lemma parse_alg_id_safe:
  assumes v: "valid_end raw pe"
  shows "psafe (parse_alg_id raw idx pe) (\<lambda>(i', id_s, id_e, oid_s, oid_e).
    i' = id_e \<and> id_s = idx \<and> idx < oid_s \<and> oid_s \<le> oid_e \<and> oid_e \<le> id_e \<and> id_e \<le> pe)"
  unfolding parse_alg_id_def Let_def
  by (rule safe_seq2 [OF parse_data_element_safe [OF v]],
      rule safe_seq2 [OF parse_data_element_safe [OF valid_end_mono [OF v]]]) auto

text \<open>
  \<open>attribute_end\<close> starts at 0 and is the index from the first attribute on.
\<close>

definition attributes_inv :: "byte list \<Rightarrow> uinta \<Rightarrow> uinta \<times> uinta \<Rightarrow> bool" where
  "attributes_inv raw e = (\<lambda>(idx, attribute_end).
     idx \<le> e \<and> (attribute_end = 0 \<or> attribute_end = idx))"

interpretation attributes: element_loop attribute_step attribute_loop "\<lambda>e s. snd s < e" fst
  attributes_inv
proof (unfold_locales, goal_cases)
  case (1 raw e s)
  show ?case by (rule attribute_loop.simps)
next
  case (2 raw e s s')
  then show ?case by (rule attribute_step_progress)
next
  case (3 raw e s)
  obtain i a where s: "s = (i, a)" by (cases s)
  show ?case
    unfolding attribute_step_def s split_conv
  proof (rule safe_seq2 [OF parse_data_element_safe [OF 3(1)]], goal_cases)
    case (1 j k)
    then have v: "valid_end raw k" using 3(1) by (auto intro: valid_end_mono)
    show ?case
      by (rule safe_seq2 [OF parse_data_element_safe [OF v]],
          rule safe_seq3 [OF parse_any_safe [OF v]]) (use 1 in \<open>auto simp: attributes_inv_def\<close>)
  qed
next
  case (4 raw e s)
  then show ?case by (cases s) (auto simp: attributes_inv_def not_less)
qed

text \<open>One relative distinguished name; the state is the index.\<close>

definition relative_name_step :: "byte list \<Rightarrow> uinta \<Rightarrow> uinta \<Rightarrow> uinta parsed" where
  "relative_name_step raw_cert name_end idx =
    check_ok (parse_data_element raw_cert DER_SET idx name_end) (\<lambda>(idx, relative_name_end).
    check_ok (attribute_loop raw_cert relative_name_end (idx, 0)) (\<lambda>(idx, _).
    check_ok (c_assert (idx = relative_name_end)) (\<lambda>_. Inr idx)))"

lemma relative_name_step_progress:
  assumes "relative_name_step raw e idx = Inr i'"
  shows "idx < i' \<and> i' \<le> e"
proof -
  from assms obtain j k where p: "parse_data_element raw DER_SET idx e = Inr (j, k)"
    and i': "i' = k" by (auto simp: relative_name_step_def split: prod.splits)
  from parse_data_element_progress [OF p] show ?thesis by (auto simp: i')
qed

function relative_name_loop :: "byte list \<Rightarrow> uinta \<Rightarrow> uinta \<Rightarrow> uinta parsed" where
  "relative_name_loop raw_cert name_end idx =
    (if idx < name_end then
       check_ok (relative_name_step raw_cert name_end idx) (\<lambda>idx.
         relative_name_loop raw_cert name_end idx)
     else Inr idx)"
  by pat_completeness auto
termination
  by (relation "measure (\<lambda>(_, e, idx). unat e - unat idx)")
    (auto dest!: relative_name_step_progress intro: loop_measure)

declare relative_name_loop.simps [simp del]

definition parse_name :: "byte list \<Rightarrow> uinta \<Rightarrow> uinta \<Rightarrow> uinta parsed" where
  "parse_name raw_cert idx parent_end =
    check_ok (parse_data_element raw_cert DER_SEQUENCE idx parent_end) (\<lambda>(idx, name_end).
    check_ok (relative_name_loop raw_cert name_end idx) (\<lambda>idx.
    check_ok (c_assert (idx = name_end)) (\<lambda>_. Inr idx)))"

interpretation relative_names: element_loop relative_name_step relative_name_loop
  "\<lambda>e idx. idx < e" "\<lambda>idx. idx" "\<lambda>_ e idx. idx \<le> e"
proof (unfold_locales, goal_cases)
  case (1 raw e s)
  show ?case by (rule relative_name_loop.simps)
next
  case (2 raw e s s')
  then show ?case by (rule relative_name_step_progress)
next
  case (3 raw e s)
  show ?case
    unfolding relative_name_step_def
  proof (rule safe_seq2 [OF parse_data_element_safe [OF 3(1)]], goal_cases)
    case (1 j k)
    then have v: "valid_end raw k" and i: "attributes_inv raw k (j, 0)"
      using 3(1) by (auto intro: valid_end_mono simp: attributes_inv_def)
    show ?case
      by (rule safe_check_ok [OF attributes.loop_safe [OF v i]]) (use 1 in auto)
  qed
qed auto

lemma parse_name_safe:
  assumes v: "valid_end raw pe"
  shows "psafe (parse_name raw idx pe) (\<lambda>i'. idx < i' \<and> i' \<le> pe)"
  unfolding parse_name_def
proof (rule safe_seq2 [OF parse_data_element_safe [OF v]], goal_cases)
  case (1 j k)
  then have v': "valid_end raw k" and i: "j \<le> k" using v by (auto intro: valid_end_mono)
  show ?case
    by (rule safe_check_ok [OF relative_names.loop_safe [OF v' i]]) (use 1 in auto)
qed

section \<open>Extensions\<close>

text \<open>
  The two arrays of object identifiers seen so far are a list of starts and sizes; a write
  beyond their \<open>MAX_EXTN\<close> elements would be a fault.
\<close>

type_synonym seen_oids = "(uinta \<times> uinta) list"

definition add_oid :: "seen_oids \<Rightarrow> uinta \<times> uinta \<Rightarrow> seen_oids parsed" where
  "add_oid seen oid = (if length seen < MAX_EXTN then Inr (seen @ [oid]) else Inl (Fault OutOfBounds))"

text \<open>\<open>memeq\<close> of two ranges of the certificate.\<close>

definition memeq_ranges :: "byte list \<Rightarrow> uinta \<times> uinta \<Rightarrow> uinta \<times> uinta \<Rightarrow> 'c fail + bool" where
  "memeq_ranges raw_cert = (\<lambda>(start0, size0) (start1, size1).
     if size0 \<noteq> size1 then Inr False
     else check_ok (rd_bytes raw_cert start0 size0) (\<lambda>bs0.
          check_ok (rd_bytes raw_cert start1 size0) (\<lambda>bs1. Inr (bs0 = bs1))))"

fun find_oid :: "byte list \<Rightarrow> seen_oids \<Rightarrow> uinta \<times> uinta \<Rightarrow> bool parsed" where
  "find_oid raw_cert [] oid = Inr False"
| "find_oid raw_cert (s # seen) oid =
    check_ok (memeq_ranges raw_cert s oid) (\<lambda>found.
      if found then Inr True else find_oid raw_cert seen oid)"

type_synonym extn_state = "uinta \<times> seen_oids \<times> x509Fields"

text \<open>The header of one extension: its OID's range, its criticality and the range of its value.\<close>

definition parse_extn_header ::
    "byte list \<Rightarrow> uinta \<Rightarrow> uinta \<Rightarrow> (uinta \<times> uinta \<times> bool \<times> uinta \<times> uinta) parsed" where
  "parse_extn_header raw_cert idx extensions_end =
    check_ok (parse_data_element raw_cert DER_SEQUENCE idx extensions_end) (\<lambda>(idx, extension_end).
    check_ok (parse_data_element raw_cert DER_OID idx extension_end) (\<lambda>(extn_oid_start, extn_oid_end).
    check_ok (parse_default_bool raw_cert extn_oid_end extension_end) (\<lambda>(idx, critical).
    check_ok (parse_data_element raw_cert DER_OCTET_STRING idx extension_end) (\<lambda>(idx, extn_end).
    if extn_end \<noteq> extension_end then Inl (Code TRAILING_DATA)
    else Inr (extn_oid_start, extn_oid_end, critical, idx, extn_end)))))"

definition extension_step :: "byte list \<Rightarrow> uinta \<Rightarrow> extn_state \<Rightarrow> extn_state parsed" where
  "extension_step raw_cert extensions_end = (\<lambda>(idx, seen, flds).
    if length seen \<ge> MAX_EXTN then Inl (Code EXCEEDS_MAX_EXTNS)
    else
      check_ok (parse_extn_header raw_cert idx extensions_end)
        (\<lambda>(extn_oid_start, extn_oid_end, critical, idx, extn_end).
      let extn_oid_size = extn_oid_end - extn_oid_start in
      check_ok (find_oid raw_cert seen (extn_oid_start, extn_oid_size)) (\<lambda>duplicate.
      if duplicate then Inl (Code DUPLICATE_EXTNS)
      else
        check_ok (add_oid seen (extn_oid_start, extn_oid_size)) (\<lambda>seen.
        check_ok (dispatch_extn supported_etxns raw_cert extn_oid_start extn_oid_size critical
                    idx extn_end flds) (\<lambda>(critical_fail, flds).
        if critical_fail then Inl (Code UNRECOGNIZED_CRITICAL_EXTN)
        else Inr (extn_end, seen, flds))))))"

lemma parse_extn_header_progress:
  "parse_extn_header raw idx e = Inr (os, oe, c, i', xe) \<Longrightarrow>
   idx < os \<and> os \<le> oe \<and> oe < i' \<and> i' \<le> xe \<and> xe \<le> e"
  by (fastforce simp: parse_extn_header_def split: if_splits
      dest!: parse_data_element_progress parse_default_bool_progress)

lemma parse_extn_header_safe:
  assumes v: "valid_end raw e"
  shows "psafe (parse_extn_header raw idx e) (\<lambda>(os, oe, c, i', xe).
    idx < os \<and> os \<le> oe \<and> oe < i' \<and> i' \<le> xe \<and> xe \<le> e)"
proof -
  have "psafe (parse_extn_header raw idx e) (\<lambda>_. True)"
    unfolding parse_extn_header_def
  proof (rule safe_seq2 [OF parse_data_element_safe [OF v]], goal_cases)
    case (1 i k)
    then have v': "valid_end raw k" using v by (auto intro: valid_end_mono)
    show ?case
    proof (rule safe_seq2 [OF parse_data_element_safe [OF v']], goal_cases)
      case (1 os oe)
      then show ?case
        by (intro safe_seq2 [OF parse_default_bool_safe [OF v']] safe_seq2 [OF parse_data_element_safe [OF v']])
          auto
    qed
  qed
  then show ?thesis
    by (rule safe_mono) (use parse_extn_header_progress in auto)
qed

lemma extension_step_progress:
  "extension_step raw e s = Inr s' \<Longrightarrow> fst s < fst s' \<and> fst s' \<le> e"
  by (cases s) (fastforce simp: extension_step_def Let_def split: if_splits
      dest!: parse_extn_header_progress)

function extension_loop :: "byte list \<Rightarrow> uinta \<Rightarrow> extn_state \<Rightarrow> extn_state parsed" where
  "extension_loop raw_cert extensions_end s =
    (if fst s < extensions_end then
       check_ok (extension_step raw_cert extensions_end s) (\<lambda>s. extension_loop raw_cert extensions_end s)
     else Inr s)"
  by pat_completeness auto
termination
  by (relation "measure (\<lambda>(_, e, s). unat e - unat (fst s))")
    (auto dest!: extension_step_progress intro: loop_measure)

declare extension_loop.simps [simp del]

definition parse_extensions ::
    "byte list \<Rightarrow> uinta \<Rightarrow> uinta \<Rightarrow> x509Fields \<Rightarrow> (uinta \<times> x509Fields) parsed" where
  "parse_extensions raw_cert idx tbs_cert_end flds =
    check_ok (parse_optional_data raw_cert DER_EXPLICIT_3 idx tbs_cert_end IDX_NONE) (\<lambda>(idx, explicit_3_end).
    let flds = assign_default_extensions flds in
    if explicit_3_end \<noteq> IDX_NONE then
      check_ok (parse_data_element raw_cert DER_SEQUENCE idx explicit_3_end) (\<lambda>(idx, extensions_end).
      if extensions_end \<noteq> explicit_3_end then Inl (Code TRAILING_DATA)
      else
        check_ok (extension_loop raw_cert extensions_end (idx, [], flds)) (\<lambda>(idx, _, flds).
        check_ok (c_assert (idx = extensions_end)) (\<lambda>_. Inr (idx, flds))))
    else Inr (idx, flds))"

section \<open>The certificate\<close>

text \<open>\<open>Certificate\<close> and \<open>TBSCertificate\<close> headers and the version.\<close>

definition parse_cert_head ::
    "byte list \<Rightarrow> uinta \<Rightarrow> x509Fields \<Rightarrow> (uinta \<times> uinta \<times> uinta \<times> x509Fields) parsed" where
  "parse_cert_head raw_cert raw_cert_size flds =
    (let idx = 0 in
     check_ok (parse_data_element raw_cert DER_SEQUENCE idx raw_cert_size) (\<lambda>(idx, cert_end).
     if raw_cert_size \<noteq> cert_end then Inl (Code TRAILING_DATA)
     else
       let flds = flds\<lparr>signed_data_start := idx\<rparr> in
       check_ok (parse_data_element raw_cert DER_SEQUENCE idx cert_end) (\<lambda>(idx, tbs_cert_end).
       let flds = flds\<lparr>signed_data_end := tbs_cert_end\<rparr> in
       check_ok (parse_data_element raw_cert DER_EXPLICIT_0 idx tbs_cert_end) (\<lambda>(idx, explicit_end).
       check_ok (parse_data_element raw_cert DER_INTEGER idx explicit_end) (\<lambda>(idx, version_end).
       check_ok
         (if version_end - idx \<noteq> 1 then Inl (Code INVALID_VERSION)
          else check_ok (rd raw_cert idx) (\<lambda>b.
            if b \<noteq> X509_ACCEPTED_VERSION then Inl (Code INVALID_VERSION) else Inr ())) (\<lambda>_.
       if version_end \<noteq> explicit_end then Inl (Code TRAILING_DATA)
       else Inr (version_end, cert_end, tbs_cert_end, flds)))))))"

text \<open>Serial number, signature algorithm, issuer and validity.\<close>

definition parse_issuer_validity ::
    "byte list \<Rightarrow> uinta \<Rightarrow> uinta \<Rightarrow> x509Fields \<Rightarrow> (uinta \<times> x509Fields) parsed" where
  "parse_issuer_validity raw_cert idx tbs_cert_end flds =
    check_ok (parse_data_element raw_cert DER_INTEGER idx tbs_cert_end) (\<lambda>(idx, serial_end).
    let flds = flds\<lparr>cert_serial_end := serial_end, cert_serial_start := idx\<rparr> in
    check_ok (parse_alg_id raw_cert serial_end tbs_cert_end) (\<lambda>(idx, id_start, id_end, oid_start, oid_end).
    let flds = flds\<lparr>sig_id_start := id_start, sig_id_end := id_end,
                     sig_oid_start := oid_start, sig_oid_end := oid_end\<rparr>
    in
    check_ok (parse_name raw_cert idx tbs_cert_end) (\<lambda>idx.
    check_ok (parse_data_element raw_cert DER_SEQUENCE idx tbs_cert_end) (\<lambda>(idx, validity_end).
    check_ok (parse_time raw_cert idx validity_end) (\<lambda>(idx, t0).
    check_ok (parse_time raw_cert idx validity_end) (\<lambda>(idx, t1).
    if idx \<noteq> validity_end then Inl (Code TRAILING_DATA)
    else Inr (idx, flds\<lparr>not_before := t0, not_after := t1\<rparr>)))))))"

text \<open>Subject and public key.\<close>

definition parse_subject_key ::
    "byte list \<Rightarrow> uinta \<Rightarrow> uinta \<Rightarrow> x509Fields \<Rightarrow> (uinta \<times> x509Fields) parsed" where
  "parse_subject_key raw_cert idx tbs_cert_end flds =
    check_ok (parse_name raw_cert idx tbs_cert_end) (\<lambda>idx.
    check_ok (parse_data_element raw_cert DER_SEQUENCE idx tbs_cert_end) (\<lambda>(idx, public_key_info_end).
    check_ok (parse_alg_id raw_cert idx public_key_info_end) (\<lambda>(idx, id_start, id_end, oid_start, oid_end).
    let flds = flds\<lparr>pub_key_id_start := id_start, pub_key_id_end := id_end,
                     pub_key_oid_start := oid_start, pub_key_oid_end := oid_end\<rparr>
    in
    check_ok (parse_bitstring_no_unused raw_cert idx public_key_info_end) (\<lambda>(idx, key_end).
    if key_end \<noteq> public_key_info_end then Inl (Code TRAILING_DATA)
    else Inr (key_end, flds\<lparr>pub_key_end := key_end, pub_key_start := idx\<rparr>)))))"

text \<open>The two unique identifiers, which are skipped.\<close>

definition parse_unique_ids :: "byte list \<Rightarrow> uinta \<Rightarrow> uinta \<Rightarrow> uinta parsed" where
  "parse_unique_ids raw_cert idx tbs_cert_end =
    check_ok (parse_optional_data raw_cert DER_IMPLICIT_1 idx tbs_cert_end IDX_NONE) (\<lambda>(idx, issuer_uid_end).
    check_ok (parse_optional_data raw_cert DER_IMPLICIT_2 (skip_to idx issuer_uid_end) tbs_cert_end IDX_NONE)
      (\<lambda>(idx, subject_uid_end). Inr (skip_to idx subject_uid_end)))"

text \<open>The signature algorithm must repeat the one in the signed data; then the signature.\<close>

definition parse_signature ::
    "byte list \<Rightarrow> uinta \<Rightarrow> uinta \<Rightarrow> x509Fields \<Rightarrow> x509Fields parsed" where
  "parse_signature raw_cert idx cert_end flds =
    (let sig_id_size = sig_id_end flds - sig_id_start flds in
     if idx + sig_id_size \<ge> cert_end then Inl (Code UNEXPECTED_END_OF_DATA)
     else
       check_ok (rd_bytes raw_cert (sig_id_start flds) sig_id_size) (\<lambda>tbs_id.
       check_ok (rd_bytes raw_cert idx sig_id_size) (\<lambda>id.
       if tbs_id \<noteq> id then Inl (Code MISMATCHED_SIG_ID)
       else
         check_ok (parse_bitstring_no_unused raw_cert (idx + sig_id_size) cert_end) (\<lambda>(idx, end).
         if end \<noteq> cert_end then Inl (Code TRAILING_DATA)
         else Inr (flds\<lparr>sig_end := end, sig_start := idx\<rparr>)))))"

definition parse_x509 :: "byte list \<Rightarrow> uinta \<Rightarrow> x509Fields \<Rightarrow> x509Fields parsed" where
  "parse_x509 raw_cert raw_cert_size flds =
    check_ok (parse_cert_head raw_cert raw_cert_size flds) (\<lambda>(idx, cert_end, tbs_cert_end, flds).
    check_ok (parse_issuer_validity raw_cert idx tbs_cert_end flds) (\<lambda>(idx, flds).
    check_ok (parse_subject_key raw_cert idx tbs_cert_end flds) (\<lambda>(idx, flds).
    check_ok (parse_unique_ids raw_cert idx tbs_cert_end) (\<lambda>idx.
    check_ok (parse_extensions raw_cert idx tbs_cert_end flds) (\<lambda>(idx, flds).
    if idx \<noteq> tbs_cert_end then Inl (Code TRAILING_DATA)
    else parse_signature raw_cert idx cert_end flds)))))"

section \<open>Contract of the extension loop\<close>

text \<open>The entry of the table for an object identifier, and whether its criticality is accepted.\<close>

definition lookup_extn :: "SupportedExtn list \<Rightarrow> byte list \<Rightarrow> SupportedExtn option" where
  "lookup_extn table oid = find (\<lambda>s. extn_oid s = oid) table"

definition criticality_ok :: "SupportedExtn \<Rightarrow> bool \<Rightarrow> bool" where
  "criticality_ok s critical \<longleftrightarrow>
     (criticality s AND 0b10 > 0 \<longrightarrow> criticality s AND 0b01 = (if critical then 1 else 0))"

text \<open>The loop over the table is a lookup by object identifier.\<close>

lemma dispatch_lookup:
  assumes v: "valid_end raw oe" and le: "os \<le> oe"
  shows "dispatch_extn table raw os (oe - os) critical idx e flds =
    (case lookup_extn table (slice raw os oe) of
       None \<Rightarrow> Inr (critical, flds)
     | Some s \<Rightarrow>
         if criticality_ok s critical then check_ok (parse_extn s raw idx e flds) (\<lambda>flds. Inr (False, flds))
         else Inl (Code INVALID_CRITICALITY))"
proof (induction table)
  case (Cons s table)
  show ?case
  proof (cases "slice raw os oe = extn_oid s")
    case True
    then show ?thesis
      by (simp add: memeq_safe [OF v le] lookup_extn_def criticality_ok_def del: not_gr_zero)
  next
    case False
    with Cons show ?thesis by (auto simp: memeq_safe [OF v le] lookup_extn_def)
  qed
qed (simp add: lookup_extn_def)

lemma memeq_ranges_slices:
  assumes v: "valid_end raw e0" "valid_end raw e1" and le: "s0 \<le> e0" "s1 \<le> e1"
  shows "memeq_ranges raw (s0, e0 - s0) (s1, e1 - s1) = Inr (slice raw s0 e0 = slice raw s1 e1)"
proof (cases "e0 - s0 = e1 - s1")
  case True
  then show ?thesis
    by (simp add: memeq_ranges_def rd_bytes_slice [OF v(1) le(1), unfolded True] rd_bytes_slice [OF v(2) le(2)])
next
  case False
  then have "length (slice raw s0 e0) \<noteq> length (slice raw s1 e1)"
    using le v by (auto simp: length_slice word_unat_eq_iff unat_sub)
  with False show ?thesis by (auto simp: memeq_ranges_def)
qed

lemma find_oid_valid:
  assumes v: "valid_end raw e"
  shows "\<forall>(s, n)\<in>set seen. s \<le> s + n \<and> s + n \<le> e \<Longrightarrow> os \<le> oe \<Longrightarrow> oe \<le> e \<Longrightarrow>
    find_oid raw seen (os, oe - os) =
      Inr (slice raw os oe \<in> set (map (\<lambda>(s, n). slice raw s (s + n)) seen))"
proof (induction seen)
  case (Cons x seen)
  obtain s n where x: "x = (s, n)" by (cases x)
  have le: "s \<le> s + n" "s + n \<le> e" using Cons.prems by (auto simp: x)
  have "memeq_ranges raw x (os, oe - os) = (Inr (slice raw s (s + n) = slice raw os oe) :: bool parsed)"
    using memeq_ranges_slices [OF valid_end_mono [OF v le(2)] valid_end_mono [OF v Cons.prems(3)] le(1)
        Cons.prems(2)] by (simp add: x)
  with Cons show ?case by (auto simp: x)
qed simp

text \<open>
  The headers of a run of extensions, from index \<open>i\<close> to index \<open>j\<close>.
\<close>

type_synonym extn_header = "uinta \<times> uinta \<times> bool \<times> uinta \<times> uinta"

definition hdr_oid :: "byte list \<Rightarrow> extn_header \<Rightarrow> byte list" where
  "hdr_oid raw = (\<lambda>(os, oe, _). slice raw os oe)"

definition hdr_critical :: "extn_header \<Rightarrow> bool" where
  "hdr_critical = (\<lambda>(_, _, critical, _). critical)"

inductive extn_chain :: "byte list \<Rightarrow> uinta \<Rightarrow> uinta \<Rightarrow> uinta \<Rightarrow> extn_header list \<Rightarrow> bool"
  for raw e i where
  chain_start: "extn_chain raw e i i []"
| chain_next: "extn_chain raw e i j hs \<Longrightarrow> parse_extn_header raw j e = Inr (os, oe, c, v, xe) \<Longrightarrow>
    extn_chain raw e i xe (hs @ [(os, oe, c, v, xe)])"

lemma extn_chain_ranges:
  "extn_chain raw e i j hs \<Longrightarrow> \<forall>(s, n)\<in>set (map (\<lambda>(os, oe, _). (os, oe - os)) hs). s \<le> s + n \<and> s + n \<le> e"
  by (induction rule: extn_chain.induct) (auto dest!: parse_extn_header_progress)

text \<open>
  What the loop demands of the headers, and the parsers it runs, in the order of the certificate.
\<close>

definition accepted_extns :: "byte list \<Rightarrow> extn_header list \<Rightarrow> bool" where
  "accepted_extns raw hs \<longleftrightarrow>
     length hs \<le> MAX_EXTN \<and> distinct (map (hdr_oid raw) hs) \<and>
     (\<forall>h\<in>set hs. case lookup_extn supported_etxns (hdr_oid raw h) of
        None \<Rightarrow> \<not> hdr_critical h | Some s \<Rightarrow> criticality_ok s (hdr_critical h))"

definition apply_extn :: "byte list \<Rightarrow> extn_header \<Rightarrow> x509Fields \<Rightarrow> x509Fields parsed" where
  "apply_extn raw = (\<lambda>(os, oe, critical, idx, extn_end) flds.
     case lookup_extn supported_etxns (slice raw os oe) of
       None \<Rightarrow> Inr flds | Some s \<Rightarrow> parse_extn s raw idx extn_end flds)"

fun apply_extns :: "byte list \<Rightarrow> extn_header list \<Rightarrow> x509Fields \<Rightarrow> x509Fields parsed" where
  "apply_extns raw [] flds = Inr flds"
| "apply_extns raw (h # hs) flds = check_ok (apply_extn raw h flds) (apply_extns raw hs)"

lemma apply_extns_snoc:
  "apply_extns raw (hs @ [h]) f = check_ok (apply_extns raw hs f) (apply_extn raw h)"
proof (induction hs arbitrary: f)
  case Nil
  show ?case by (cases "apply_extn raw h f") simp_all
next
  case (Cons a hs)
  then show ?case by (cases "apply_extn raw a f") simp_all
qed

lemma extn_inv_cong: "set seen = set seen' \<Longrightarrow> extn_inv raw seen f = extn_inv raw seen' f"
  by (simp add: extn_inv_def)

lemma lookup_supported:
  "lookup_extn supported_etxns oid = Some s \<Longrightarrow> extn_parser oid (parse_extn s) \<and> s \<in> set supported_etxns"
  using basic.extn_parser_axioms akid.extn_parser_axioms skid.extn_parser_axioms
    key_usage.extn_parser_axioms ext_key_usage.extn_parser_axioms
  by (auto simp: lookup_extn_def supported_etxns_def split: if_splits)

lemma lookup_unsupported:
  "lookup_extn supported_etxns oid = None \<Longrightarrow>
   oid \<notin> {basic_constraint_oid, akid_oid, skid_oid, key_usage_oid, ext_key_usage_oid}"
  by (auto simp: lookup_extn_def supported_etxns_def split: if_splits)

lemma extn_inv_unsupported:
  "extn_inv raw seen f \<Longrightarrow> lookup_extn supported_etxns oid = None \<Longrightarrow> extn_inv raw (oid # seen) f"
  by (auto simp: extn_inv_def dest!: lookup_unsupported)

lemma apply_extn_safe:
  assumes v: "valid_end raw xe" and i: "extn_inv raw seen f" and n: "slice raw os oe \<notin> set seen"
  shows "psafe (apply_extn raw (os, oe, c, idx, xe) f)
    (\<lambda>g. extn_inv raw (slice raw os oe # seen) g \<and> same_core f g)"
proof (cases "lookup_extn supported_etxns (slice raw os oe)")
  case None
  then show ?thesis using i by (simp add: apply_extn_def extn_inv_unsupported)
next
  case (Some s)
  with lookup_supported [OF Some] show ?thesis
    by (simp add: apply_extn_def extn_parser.parse_safe [OF _ v i n])
qed


definition extns_inv :: "x509Fields \<Rightarrow> uinta \<Rightarrow> byte list \<Rightarrow> uinta \<Rightarrow> extn_state \<Rightarrow> bool" where
  "extns_inv f0 start raw e = (\<lambda>(idx, seen, f).
     idx \<le> e \<and> extn_inv raw [] f0 \<and>
     (\<exists>hs. extn_chain raw e start idx hs \<and> seen = map (\<lambda>(os, oe, _). (os, oe - os)) hs \<and>
        accepted_extns raw hs \<and> apply_extns raw hs f0 = Inr f \<and>
        extn_inv raw (map (hdr_oid raw) hs) f \<and> same_core f0 f))"

lemma seen_slices:
  "extn_chain raw e i j hs \<Longrightarrow>
   map (\<lambda>(s, n). slice raw s (s + n)) (map (\<lambda>(os, oe, _). (os, oe - os)) hs) = map (hdr_oid raw) hs"
  by (auto simp: hdr_oid_def)

lemma dispatch_apply:
  assumes v: "valid_end raw oe" and le: "os \<le> oe" and i: "psafe (apply_extn raw (os, oe, c, v, xe) f) Q"
  shows "psafe (dispatch_extn supported_etxns raw os (oe - os) c v xe f)
    (\<lambda>(fail, g). Q g \<and> apply_extn raw (os, oe, c, v, xe) f = Inr g \<and>
       (\<not> fail \<longrightarrow> (case lookup_extn supported_etxns (slice raw os oe) of
           None \<Rightarrow> \<not> c | Some s \<Rightarrow> criticality_ok s c)))"
proof (cases "lookup_extn supported_etxns (slice raw os oe)")
  case None
  with i show ?thesis by (simp add: dispatch_lookup [OF v le] apply_extn_def)
next
  case (Some s)
  with i have "psafe (parse_extn s raw v xe f) Q" by (simp add: apply_extn_def)
  then have "psafe (check_ok (parse_extn s raw v xe f) (\<lambda>g. Inr (False, g)))
      (\<lambda>(fail, g). Q g \<and> parse_extn s raw v xe f = Inr g)"
    by (rule safe_check_ok) simp
  then have "psafe (check_ok (parse_extn s raw v xe f) (\<lambda>g. Inr (False, g)))
      (\<lambda>(fail, g). Q g \<and> parse_extn s raw v xe f = Inr g \<and> (\<not> fail \<longrightarrow> criticality_ok s c))"
    if "criticality_ok s c" by (rule safe_mono) (use that in auto)
  with Some show ?thesis by (simp add: dispatch_lookup [OF v le] apply_extn_def)
qed

interpretation extensions: element_loop extension_step extension_loop "\<lambda>e s. fst s < e" fst
  "extns_inv f0 start" for f0 start
proof (unfold_locales, goal_cases)
  case (1 raw e s)
  show ?case by (rule extension_loop.simps)
next
  case (2 raw e s s')
  then show ?case by (rule extension_step_progress)
next
  case (3 raw e s)
  note v = 3(1)
  obtain idx seen f where s: "s = (idx, seen, f)" by (cases s)
  from 3(2) s obtain hs where le: "idx \<le> e" and i0: "extn_inv raw [] f0"
    and hs: "extn_chain raw e start idx hs"
    and seen: "seen = map (\<lambda>(os, oe, _). (os, oe - os)) hs" and acc: "accepted_extns raw hs"
    and app: "apply_extns raw hs f0 = Inr f" and i: "extn_inv raw (map (hdr_oid raw) hs) f"
    and core: "same_core f0 f" by (auto simp: extns_inv_def)
  show ?case
  proof (cases "length seen \<ge> MAX_EXTN")
    case False
    show ?thesis
      unfolding extension_step_def s split_conv Let_def if_not_P [OF False]
    proof (rule safe_check_ok [OF parse_extn_header_safe [OF v]])
      fix h assume h: "parse_extn_header raw idx e = Inr h"
      obtain os oe c x xe where hd: "h = (os, oe, c, x, xe)" by (cases h)
      note r = parse_extn_header_progress [OF h [unfolded hd]]
      then have oe: "oe \<le> e" and os: "os \<le> oe" and xe: "xe \<le> e" by auto
      note ve = valid_end_mono [OF v oe] and vx = valid_end_mono [OF v xe]
      let ?hs = "hs @ [(os, oe, c, x, xe)]"
      have find: "find_oid raw seen (os, oe - os) = Inr (slice raw os oe \<in> set (map (hdr_oid raw) hs))"
        using find_oid_valid [OF v extn_chain_ranges [OF hs] os oe] seen_slices [OF hs] seen by simp
      show "psafe ((\<lambda>(os, oe, critical, idx, extn_end).
          check_ok (find_oid raw seen (os, oe - os)) (\<lambda>duplicate.
            if duplicate then Inl (Code DUPLICATE_EXTNS)
            else check_ok (add_oid seen (os, oe - os)) (\<lambda>seen.
              check_ok (dispatch_extn supported_etxns raw os (oe - os) critical idx extn_end f)
                (\<lambda>(critical_fail, flds). if critical_fail then Inl (Code UNRECOGNIZED_CRITICAL_EXTN)
                  else Inr (extn_end, seen, flds))))) h) (extns_inv f0 start raw e)"
      proof (cases "slice raw os oe \<in> set (map (hdr_oid raw) hs)")
        case True
        with find show ?thesis by (simp add: hd)
      next
        case new: False
        have chain: "extn_chain raw e start xe ?hs"
          using chain_next [OF hs] h hd by blast
        have inv: "extns_inv f0 start raw e (xe, seen @ [(os, oe - os)], g)"
          if g: "extn_inv raw (slice raw os oe # map (hdr_oid raw) hs) g" "same_core f g"
            and a: "apply_extn raw (os, oe, c, x, xe) f = Inr g"
            and ok: "case lookup_extn supported_etxns (slice raw os oe) of
              None \<Rightarrow> \<not> c | Some s \<Rightarrow> criticality_ok s c" for g
        proof -
          have acc': "accepted_extns raw ?hs"
            using acc ok new False seen by (auto simp: accepted_extns_def hdr_oid_def hdr_critical_def
                split: option.splits)
          have "extn_inv raw (map (hdr_oid raw) ?hs) g"
            using g(1) extn_inv_cong [of "map (hdr_oid raw) ?hs" "slice raw os oe # map (hdr_oid raw) hs"]
            by (simp add: hdr_oid_def)
          moreover have "apply_extns raw ?hs f0 = Inr g" using app a by (simp add: apply_extns_snoc)
          ultimately show ?thesis
            using chain acc' seen i0 xe same_core_trans [OF core g(2)]
            unfolding extns_inv_def by auto
        qed
        from new False show ?thesis
          unfolding hd split_conv find
          by (simp add: add_oid_def)
            (rule safe_seq2 [OF dispatch_apply [OF ve os apply_extn_safe [OF vx i new]]],
             auto intro: inv)
      qed
    qed
  qed (simp add: extension_step_def s)
next
  case (4 raw e s)
  then show ?case by (auto simp: extns_inv_def)
qed


lemma same_core_assign_left [simp]: "same_core (assign_default_extensions f) g = same_core f g"
  by (simp add: same_core_def assign_default_extensions_def)

text \<open>
  What \<open>parse_extensions\<close> leaves, from the fields before it: the defaults, or an accepted run of
  extensions applied to the defaults.
\<close>

definition extensions_of ::
    "byte list \<Rightarrow> uinta \<Rightarrow> uinta \<Rightarrow> x509Fields \<Rightarrow> extn_header list \<Rightarrow> x509Fields \<Rightarrow> bool" where
  "extensions_of raw start e f hs g \<longleftrightarrow>
     extn_chain raw e start e hs \<and> accepted_extns raw hs \<and>
     apply_extns raw hs (assign_default_extensions f) = Inr g \<and>
     extn_inv raw (map (hdr_oid raw) hs) g \<and> same_core f g"

lemma parse_extensions_safe:
  assumes v: "valid_end raw pe" and i: "idx \<le> pe"
  shows "psafe (parse_extensions raw idx pe f) (\<lambda>(i', g). i' \<le> pe \<and>
     (i' = idx \<and> g = assign_default_extensions f \<or>
      (\<exists>start hs. idx < start \<and> start \<le> i' \<and> extensions_of raw start i' f hs g)))"
  unfolding parse_extensions_def Let_def
proof (rule safe_seq2 [OF parse_optional_data_none [OF v]], goal_cases)
  case (1 j k)
  let ?f = "assign_default_extensions f"
  show ?case
  proof (cases "k = IDX_NONE")
    case True
    with 1 i show ?thesis by simp
  next
    case False
    with 1 have jk: "idx < j" "j \<le> k" "k \<le> pe" by auto
    note v' = valid_end_mono [OF v jk(3)]
    have "psafe (check_ok (parse_data_element raw DER_SEQUENCE j k) (\<lambda>(idx, extensions_end).
        if extensions_end \<noteq> k then Inl (Code TRAILING_DATA)
        else check_ok (extension_loop raw extensions_end (idx, [], ?f)) (\<lambda>(idx, _, flds).
          check_ok (c_assert (idx = extensions_end)) (\<lambda>_. Inr (idx, flds)))))
        (\<lambda>(i', g). i' \<le> pe \<and> (\<exists>start hs. idx < start \<and> start \<le> i' \<and> extensions_of raw start i' f hs g))"
    proof (rule safe_seq2 [OF parse_data_element_safe [OF v']], goal_cases)
      case (1 m n)
      show ?case
      proof (cases "n = k")
        case True
        with 1 jk have m: "idx < m" "m \<le> k" by auto
        have "extns_inv ?f m raw k (m, [], ?f)"
          using m by (auto simp: extns_inv_def extn_inv_assign accepted_extns_def intro: chain_start)
        note loop = extensions.loop_safe [OF v' this]
        have "psafe (check_ok (extension_loop raw k (m, [], ?f)) (\<lambda>(idx, _, flds).
            check_ok (c_assert (idx = k)) (\<lambda>_. Inr (idx, flds))))
          (\<lambda>(i', g). i' \<le> pe \<and> (\<exists>start hs. idx < start \<and> start \<le> i' \<and> extensions_of raw start i' f hs g))"
        proof (rule safe_check_ok [OF loop], goal_cases)
          case (1 t)
          then obtain seen g where t: "t = (k, seen, g)" by (cases t) auto
          with 1 obtain hs where "extensions_of raw m k f hs g"
            unfolding extns_inv_def extensions_of_def by auto
          with t m jk show ?case by auto
        qed
        with True show ?thesis by simp
      qed simp
    qed
    then have "psafe (check_ok (parse_data_element raw DER_SEQUENCE j k) (\<lambda>(idx, extensions_end).
        if extensions_end \<noteq> k then Inl (Code TRAILING_DATA)
        else check_ok (extension_loop raw extensions_end (idx, [], ?f)) (\<lambda>(idx, _, flds).
          check_ok (c_assert (idx = extensions_end)) (\<lambda>_. Inr (idx, flds)))))
       (\<lambda>(i', g). i' \<le> pe \<and>
         (i' = idx \<and> g = ?f \<or> (\<exists>start hs. idx < start \<and> start \<le> i' \<and> extensions_of raw start i' f hs g)))"
      by (rule safe_mono) auto
    with False show ?thesis by simp
  qed
qed

section \<open>Contracts of the stages\<close>

text \<open>The index ranges each stage fills in, from the index it starts at to the one it leaves.\<close>

definition issuer_ranges :: "uinta \<Rightarrow> uinta \<Rightarrow> x509Fields \<Rightarrow> bool" where
  "issuer_ranges i j g \<longleftrightarrow>
     i < cert_serial_start g \<and> cert_serial_start g \<le> cert_serial_end g \<and>
     sig_id_start g = cert_serial_end g \<and> sig_id_start g < sig_oid_start g \<and>
     sig_oid_start g \<le> sig_oid_end g \<and> sig_oid_end g \<le> sig_id_end g \<and> sig_id_end g < j \<and>
     0 \<le> not_before g \<and> 0 \<le> not_after g"

definition key_ranges :: "uinta \<Rightarrow> uinta \<Rightarrow> x509Fields \<Rightarrow> bool" where
  "key_ranges i j g \<longleftrightarrow>
     i < pub_key_id_start g \<and> pub_key_id_start g < pub_key_oid_start g \<and>
     pub_key_oid_start g \<le> pub_key_oid_end g \<and> pub_key_oid_end g \<le> pub_key_id_end g \<and>
     pub_key_id_end g < pub_key_start g \<and> pub_key_start g \<le> pub_key_end g \<and> pub_key_end g = j"

definition signature_ranges :: "uinta \<Rightarrow> uinta \<Rightarrow> x509Fields \<Rightarrow> bool" where
  "signature_ranges i j g \<longleftrightarrow> i < sig_start g \<and> sig_start g \<le> sig_end g \<and> sig_end g = j"

text \<open>The fields of the stages before the extensions.\<close>

lemma same_core_fields:
  assumes "same_core f g"
  shows "signed_data_start g = signed_data_start f" "signed_data_end g = signed_data_end f"
    "sig_id_start g = sig_id_start f" "sig_id_end g = sig_id_end f"
    "issuer_ranges i j g = issuer_ranges i j f" "key_ranges i j g = key_ranges i j f"
proof -
  have s: "sel (assign_default_extensions f) = sel (assign_default_extensions g)" for sel :: "x509Fields \<Rightarrow> 'a"
    using assms by (simp add: same_core_def)
  note sels = s [of signed_data_start] s [of signed_data_end] s [of sig_id_start] s [of sig_id_end]
    s [of sig_oid_start] s [of sig_oid_end] s [of cert_serial_start] s [of cert_serial_end]
    s [of not_before] s [of not_after] s [of pub_key_id_start] s [of pub_key_id_end]
    s [of pub_key_oid_start] s [of pub_key_oid_end] s [of pub_key_start] s [of pub_key_end]
  then show "signed_data_start g = signed_data_start f" "signed_data_end g = signed_data_end f"
    "sig_id_start g = sig_id_start f" "sig_id_end g = sig_id_end f"
    "issuer_ranges i j g = issuer_ranges i j f" "key_ranges i j g = key_ranges i j f"
    by (simp_all add: assign_default_extensions_def issuer_ranges_def key_ranges_def)
qed

lemma one_byte: "e - i = 1 \<Longrightarrow> i \<le> e \<Longrightarrow> (i :: uinta) < e"
  by unat_arith

lemma parse_cert_head_safe:
  assumes v: "valid_end raw sz"
  shows "psafe (parse_cert_head raw sz f) (\<lambda>(idx, ce, te, g).
    ce = sz \<and> 0 < signed_data_start g \<and> signed_data_start g < idx \<and> idx \<le> te \<and> te \<le> sz \<and>
    signed_data_end g = te)"
  unfolding parse_cert_head_def Let_def
proof (rule safe_seq2 [OF parse_data_element_safe [OF v]], rule safe_if, simp, goal_cases)
  case (1 i ce)
  then have ce: "ce = sz" "0 < i" by simp_all
  show ?case
    unfolding ce
  proof (rule safe_seq2 [OF parse_data_element_safe [OF v]], goal_cases)
    case (1 j te)
    then have te: "te \<le> sz" "i < j" "j \<le> te" by auto
    note vt = valid_end_mono [OF v te(1)]
    show ?case
    proof (rule safe_seq2 [OF parse_data_element_safe [OF vt]], goal_cases)
      case (1 k ee)
      then have ee: "ee \<le> te" "j < k" "k \<le> ee" by auto
      note ve = valid_end_mono [OF vt ee(1)]
      show ?case
      proof (rule safe_seq2 [OF parse_data_element_safe [OF ve]], goal_cases)
        case (1 m me)
        then have m: "k < m" "m \<le> me" "me \<le> ee" by auto
        have r: "m < me" if "me - m = 1" using that m one_byte by blast
        then have "rd raw m = (Inr (raw ! unat m) :: byte parsed)" if "me - m = 1"
          using rd_valid [OF valid_end_mono [OF ve m(3)]] that by blast
        then show ?case using te ee m ce(2) by auto
      qed
    qed
  qed
qed

lemma parse_issuer_validity_safe:
  assumes v: "valid_end raw te"
  shows "psafe (parse_issuer_validity raw idx te f) (\<lambda>(i', g). i' \<le> te \<and>
    signed_data_start g = signed_data_start f \<and> signed_data_end g = signed_data_end f \<and>
    issuer_ranges idx i' g)"
  unfolding parse_issuer_validity_def Let_def
proof (rule safe_seq2 [OF parse_data_element_safe [OF v]], goal_cases)
  case (1 i se)
  then have i: "idx < i" "i \<le> se" by auto
  show ?case
  proof (rule safe_check_ok [OF parse_alg_id_safe [OF v]], goal_cases)
    case (1 a)
    then obtain ids ide oids oide where a: "a = (ide, ids, ide, oids, oide)"
      and r: "ids = se" "se < oids" "oids \<le> oide" "oide \<le> ide" "ide \<le> te" by (cases a) auto
    show ?case
      unfolding a split_conv
    proof (rule safe_check_ok [OF parse_name_safe [OF v]],
        rule safe_seq2 [OF parse_data_element_safe [OF v]], goal_cases)
      case (1 n j ve)
      then have n: "ide < n" "n < j" "j \<le> ve" "ve \<le> te" by auto
      note vv = valid_end_mono [OF v n(4)]
      show ?case
        by (rule safe_seq2 [OF parse_time_safe [OF vv]], rule safe_seq2 [OF parse_time_safe [OF vv]])
          (use i r n in \<open>auto simp: issuer_ranges_def\<close>)
    qed
  qed
qed

lemma parse_subject_key_safe:
  assumes v: "valid_end raw te"
  shows "psafe (parse_subject_key raw idx te f) (\<lambda>(i', g). i' \<le> te \<and>
    signed_data_start g = signed_data_start f \<and> signed_data_end g = signed_data_end f \<and>
    sig_id_start g = sig_id_start f \<and> sig_id_end g = sig_id_end f \<and>
    (\<forall>j k. issuer_ranges j k g = issuer_ranges j k f) \<and> key_ranges idx i' g)"
  unfolding parse_subject_key_def Let_def
proof (rule safe_check_ok [OF parse_name_safe [OF v]],
    rule safe_seq2 [OF parse_data_element_safe [OF v]], goal_cases)
  case (1 n i ie)
  then have i: "idx < n" "n < i" "i \<le> ie" "ie \<le> te" by auto
  note vi = valid_end_mono [OF v i(4)]
  show ?case
  proof (rule safe_check_ok [OF parse_alg_id_safe [OF vi]], goal_cases)
    case (1 a)
    then obtain ids ide oids oide where a: "a = (ide, ids, ide, oids, oide)"
      and r: "ids = i" "i < oids" "oids \<le> oide" "oide \<le> ide" "ide \<le> ie" by (cases a) auto
    show ?case
      unfolding a split_conv
      by (rule safe_seq2 [OF parse_bitstring_no_unused_safe [OF vi]])
        (use i r in \<open>auto simp: key_ranges_def issuer_ranges_def\<close>)
  qed
qed

lemma parse_unique_ids_safe:
  assumes v: "valid_end raw te" and i: "idx \<le> te"
  shows "psafe (parse_unique_ids raw idx te) (\<lambda>i'. idx \<le> i' \<and> i' \<le> te)"
  unfolding parse_unique_ids_def
proof (rule safe_seq2 [OF parse_optional_data_none [OF v]],
    rule safe_seq2 [OF parse_optional_data_none [OF v]], goal_cases)
  case (1 j k j' k')
  then have "idx \<le> skip_to j k" "skip_to j k \<le> te"
    using i by (auto simp: skip_to_def split: if_splits)
  with 1 show ?case by (auto simp: skip_to_def split: if_splits)
qed

lemma sig_id_room:
  assumes "valid_end raw sz" "s < e" "e \<le> idx" "idx \<le> sz"
  shows "idx \<le> idx + (e - s)" "unat (idx + (e - s)) = unat idx + (unat e - unat s)"
proof -
  have "unat sz < 2 ^ 63" using assms(1) by (simp add: valid_end_def object_size_def PTRDIFF_MAX_def)
  moreover have n: "unat (e - s) = unat e - unat s" using assms(2) by (simp add: unat_sub order_less_imp_le)
  ultimately have "unat idx + unat (e - s) < 2 ^ 64"
    using assms(2-4) by (simp add: word_less_nat_alt word_le_nat_alt)
  then show "unat (idx + (e - s)) = unat idx + (unat e - unat s)"
    using n by (simp add: unat_word_ariths(1))
  then show "idx \<le> idx + (e - s)" by (simp add: word_le_nat_alt)
qed

lemma parse_signature_safe:
  assumes v: "valid_end raw sz" and r: "sig_id_start f < sig_id_end f" "sig_id_end f \<le> idx" "idx \<le> sz"
  shows "psafe (parse_signature raw idx sz f) (\<lambda>g. \<exists>k s.
    g = f\<lparr>sig_end := sz, sig_start := s\<rparr> \<and> idx \<le> k \<and> k \<le> s \<and> s \<le> sz \<and>
    unat k = unat idx + (unat (sig_id_end f) - unat (sig_id_start f)) \<and>
    slice raw idx k = slice raw (sig_id_start f) (sig_id_end f) \<and>
    parse_bitstring_no_unused raw k sz = Inr (s, sz))"
proof -
  let ?n = "sig_id_end f - sig_id_start f"
  note room = sig_id_room [OF v r]
  show ?thesis
  proof (cases "idx + ?n \<ge> sz")
    case False
    then have le: "idx + ?n \<le> sz" by simp
    have b: "rd_bytes raw (sig_id_start f) ?n = (Inr (slice raw (sig_id_start f) (sig_id_end f)) :: byte list parsed)"
      using valid_end_mono [OF v order_trans [OF r(2,3)]] r(1) by (intro rd_bytes_slice) auto
    have b': "rd_bytes raw idx ?n = (Inr (slice raw idx (idx + ?n)) :: byte list parsed)"
      using rd_bytes_slice [OF valid_end_mono [OF v le] room(1)] by simp
    show ?thesis
    proof (cases "slice raw idx (idx + ?n) = slice raw (sig_id_start f) (sig_id_end f)")
      case True
      have "psafe (check_ok (parse_bitstring_no_unused raw (idx + ?n) sz) (\<lambda>(i, e).
          if e \<noteq> sz then Inl (Code TRAILING_DATA) else Inr (f\<lparr>sig_end := e, sig_start := i\<rparr>)))
        (\<lambda>g. \<exists>s. g = f\<lparr>sig_end := sz, sig_start := s\<rparr> \<and> idx + ?n \<le> s \<and> s \<le> sz \<and>
           parse_bitstring_no_unused raw (idx + ?n) sz = Inr (s, sz))"
        by (rule safe_seq2 [OF parse_bitstring_no_unused_safe [OF v]]) auto
      then have "psafe (check_ok (parse_bitstring_no_unused raw (idx + ?n) sz) (\<lambda>(i, e).
          if e \<noteq> sz then Inl (Code TRAILING_DATA) else Inr (f\<lparr>sig_end := e, sig_start := i\<rparr>)))
        (\<lambda>g. \<exists>k s. g = f\<lparr>sig_end := sz, sig_start := s\<rparr> \<and> idx \<le> k \<and> k \<le> s \<and> s \<le> sz \<and>
           unat k = unat idx + (unat (sig_id_end f) - unat (sig_id_start f)) \<and>
           slice raw idx k = slice raw (sig_id_start f) (sig_id_end f) \<and>
           parse_bitstring_no_unused raw k sz = Inr (s, sz))"
        by (rule safe_mono) (use room True in blast)
      with False b b' True show ?thesis by (simp add: parse_signature_def Let_def)
    next
      case ne: False
      with False b b' show ?thesis by (simp add: parse_signature_def Let_def)
    qed
  qed (simp add: parse_signature_def Let_def)
qed


text \<open>
  What holds of the fields of an accepted certificate of \<open>sz\<close> bytes: the ranges are within
  the buffer and in the order of the certificate, and the extension fields are those of an
  accepted run of extensions, of which \<open>seen\<close> are the identifiers (none when there are no extensions). Which
  extensions of the certificate these are is said by \<open>extension_fields\<close> of \<open>Certificate_Grammar\<close>.
\<close>

definition fields_ok :: "byte list \<Rightarrow> uinta \<Rightarrow> x509Fields \<Rightarrow> bool" where
  "fields_ok raw sz g \<longleftrightarrow>
     (\<exists>i j k. 0 < signed_data_start g \<and> signed_data_start g < i \<and> i \<le> j \<and> j \<le> k \<and>
        issuer_ranges i j g \<and> key_ranges j k g \<and> k \<le> signed_data_end g \<and>
        signed_data_end g < sz \<and> signature_ranges (signed_data_end g) sz g) \<and>
     (\<exists>seen. extn_inv raw seen g \<and> distinct seen \<and> length seen \<le> MAX_EXTN)"

lemma extn_inv_sig: "extn_inv raw seen (g\<lparr>sig_end := a, sig_start := b\<rparr>) = extn_inv raw seen g"
  and issuer_ranges_sig: "issuer_ranges i j (g\<lparr>sig_end := a, sig_start := b\<rparr>) = issuer_ranges i j g"
  and key_ranges_sig: "key_ranges i j (g\<lparr>sig_end := a, sig_start := b\<rparr>) = key_ranges i j g"
  by (simp_all add: extn_inv_def issuer_ranges_def key_ranges_def)

lemma parse_x509_safe:
  assumes v: "valid_end raw sz"
  shows "psafe (parse_x509 raw sz f) (fields_ok raw sz)"
  unfolding parse_x509_def
proof (rule safe_check_ok [OF parse_cert_head_safe [OF v]], goal_cases)
  case (1 a)
  then obtain i te g where a: "a = (i, sz, te, g)" and h: "0 < signed_data_start g"
    "signed_data_start g < i" "i \<le> te" "te \<le> sz" "signed_data_end g = te" by (cases a) auto
  note vt = valid_end_mono [OF v h(4)]
  show ?case
    unfolding a split_conv
  proof (rule safe_seq2 [OF parse_issuer_validity_safe [OF vt]], goal_cases)
    case (1 i1 g1)
    note g1 = this
    show ?case
    proof (rule safe_seq2 [OF parse_subject_key_safe [OF vt]], goal_cases)
      case (1 i2 g2)
      note g2 = this
      then have i2: "i2 \<le> te" by simp
      show ?case
      proof (rule safe_check_ok [OF parse_unique_ids_safe [OF vt i2]], goal_cases)
        case (1 i3)
        then have i3: "i2 \<le> i3" "i3 \<le> te" by auto
        show ?case
        proof (rule safe_seq2 [OF parse_extensions_safe [OF vt i3(2)]], goal_cases)
          case (1 i4 g3)
          then obtain seen where core: "same_core g2 g3" and seen: "extn_inv raw seen g3"
            "distinct seen" "length seen \<le> MAX_EXTN"
            using extn_inv_assign by (fastforce simp: extensions_of_def accepted_extns_def)
          note same = same_core_fields [OF core]
          have sd: "signed_data_start g3 = signed_data_start g" "signed_data_end g3 = te"
            "0 < sig_id_end g3" using g1 g2 h same by (auto simp: issuer_ranges_def)
          have ir: "issuer_ranges i i1 g3" using g1 g2 same by simp
          have kr: "key_ranges i1 i2 g3" using g2 same by simp
          have le: "i1 \<le> i2" using kr by (auto simp: key_ranges_def)
          have sig: "sig_id_start g3 < sig_id_end g3" "sig_id_end g3 \<le> te"
            using ir le i3 by (auto simp: issuer_ranges_def)
          have ile: "i \<le> i1" using ir by (auto simp: issuer_ranges_def)
          show ?case
          proof (rule safe_if, simp, goal_cases)
            case 1
            then have te: "i4 = te" by simp
            show ?case
              unfolding te
            proof (rule safe_mono [OF parse_signature_safe [OF v sig h(4)]], goal_cases)
              case (1 r)
              then obtain k s where r: "r = g3\<lparr>sig_end := sz, sig_start := s\<rparr>"
                and k: "te \<le> k" "k \<le> s" "s \<le> sz" "parse_bitstring_no_unused raw k sz = Inr (s, sz)"
                by blast
              from safe_InrD [OF parse_bitstring_no_unused_safe [OF v] k(4)] have "k < s" by simp
              then have s: "te < s" using k by auto
              have "i1 \<le> i2 \<and> i2 \<le> te" using le i3 by auto
              then show ?case
                using sd ir kr h seen s k(3) ile unfolding fields_ok_def r
                by (intro conjI exI [of _ i] exI [of _ i1] exI [of _ i2] exI [of _ seen])
                  (auto simp: extn_inv_sig issuer_ranges_sig key_ranges_sig signature_ranges_def)
            qed
          qed
        qed
      qed
    qed
  qed
qed

end
