(* ===== verification/Grammar.thy ===== *)
theory Grammar
  imports X509
begin

text \<open>
  The reference for the parser: what its operations accept, as grammars over byte lists. A statement
  about an operation at a cursor says which bytes it consumes and where it leaves off; the locale
  \<open>element_grammar\<close> extends the interface of a loop by the grammar of its elements, and is
  interpreted for the attributes of a relative name, the relative names of a name and the key purposes.
\<close>

section \<open>Elements\<close>

lemma cursor_eq: "cursor raw i e bs \<Longrightarrow> cursor raw i e bs' \<Longrightarrow> bs = bs'"
  by (simp add: cursor_def)

lemma cursor_start_unique: "cursor raw i e c \<Longrightarrow> cursor raw j e c \<Longrightarrow> i = j"
  by (metis add_right_cancel cursor_length word_unat_eq_iff)

lemma cursor_slices:
  "cursor raw i e bs \<Longrightarrow> i \<le> j \<Longrightarrow> j \<le> e \<Longrightarrow> bs = slice raw i j @ slice raw j e \<and> cursor raw j e (slice raw j e)"
  using slice_append [of i j e raw] by (auto simp: cursor_def)

text \<open>The parts of an accepted element at a cursor.\<close>

lemma parse_any_at:
  assumes c: "cursor raw idx pe bs"
  shows "parse_any raw idx pe = Inr (i', e, t) \<longleftrightarrow>
    (\<exists>x rest. bs = der_tlv t x @ rest \<and> cursor raw i' e x \<and> cursor raw e pe rest)"
proof
  assume p: "parse_any raw idx pe = Inr (i', e, t)"
  have v: "valid_end raw pe" using c by (rule cursor_valid)
  from parse_any_progress [OF p] have le: "idx \<le> e" "e \<le> pe" "i' \<le> e" by auto
  have "bs = der_tlv t (slice raw i' e) @ slice raw e pe"
    using cursor_slices [OF c le(1,2)] parse_any_slice [OF p v] by simp
  moreover have "cursor raw i' e (slice raw i' e)" "cursor raw e pe (slice raw e pe)"
    using v le by (auto simp: cursor_def intro: valid_end_mono)
  ultimately show "\<exists>x rest. bs = der_tlv t x @ rest \<and> cursor raw i' e x \<and> cursor raw e pe rest" by blast
next
  assume "\<exists>x rest. bs = der_tlv t x @ rest \<and> cursor raw i' e x \<and> cursor raw e pe rest"
  then obtain x rest where b: "bs = der_tlv t x @ rest" and x: "cursor raw i' e x" and r: "cursor raw e pe rest" by blast
  from parse_any_tlv [OF c [unfolded b]] obtain j k
    where p: "parse_any raw idx pe = Inr (j, k, t)" and j: "cursor raw j k x" and k: "cursor raw k pe rest" by metis
  have "k = e" using cursor_end_unique [OF k r] .
  moreover from this have "j = i'" using cursor_start_unique j x by blast
  ultimately show "parse_any raw idx pe = Inr (i', e, t)" using p by simp
qed

lemma parse_data_element_at:
  assumes c: "cursor raw idx pe bs"
  shows "parse_data_element raw t idx pe = Inr (i', e) \<longleftrightarrow>
    (\<exists>x rest. bs = der_tlv t x @ rest \<and> cursor raw i' e x \<and> cursor raw e pe rest)"
  using parse_any_at [OF c, of i' e t] by (auto simp: parse_data_element_def split: if_splits)

text \<open>
  The bytes at a cursor do not start with an element \<open>t\<close>: nothing is left, or another element comes.
\<close>

definition absent :: "byte \<Rightarrow> byte list \<Rightarrow> bool" where
  "absent t bs \<longleftrightarrow> bs = [] \<or> (\<exists>t' x rest. t' \<noteq> t \<and> bs = der_tlv t' x @ rest)"

lemma absent_simps [simp]:
  "absent t []" "absent t (der_tlv t' x @ rest) \<longleftrightarrow> t' \<noteq> t" "absent t (der_tlv t' x) \<longleftrightarrow> t' \<noteq> t"
proof -
  show "absent t (der_tlv t' x @ rest) \<longleftrightarrow> t' \<noteq> t" for rest
    by (auto simp: absent_def der_tlv_def)
  from this [of "[]"] show "absent t (der_tlv t' x) \<longleftrightarrow> t' \<noteq> t" by simp
qed (simp add: absent_def)

lemma parse_data_element_absent:
  assumes c: "cursor raw idx pe bs" and a: "absent t bs"
  shows "parse_data_element raw t idx pe = Inl (Code UNEXPECTED_END_OF_DATA) \<or>
    parse_data_element raw t idx pe = Inl (Code UNEXPECTED_IDENTIFIER)"
proof (cases "bs = []")
  case True
  then have "idx = pe" using cursor_length [OF c] by (simp add: word_unat_eq_iff)
  then show ?thesis by (simp add: parse_data_element_def parse_any_def)
next
  case False
  with a obtain t' x rest where "t' \<noteq> t" "bs = der_tlv t' x @ rest" by (auto simp: absent_def)
  with parse_data_element_other c show ?thesis by blast
qed

text \<open>The encoding of an optional element.\<close>

definition opt_tlv :: "byte \<Rightarrow> byte list option \<Rightarrow> byte list" where
  "opt_tlv t x = (case x of None \<Rightarrow> [] | Some x \<Rightarrow> der_tlv t x)"

lemma opt_tlv_simps [simp]: "opt_tlv t None = []" "opt_tlv t (Some x) = der_tlv t x"
  by (simp_all add: opt_tlv_def)

text \<open>What \<open>parse_optional_data\<close> finds: the contents, if any, and what is left after them.\<close>

definition opt_at :: "byte list \<Rightarrow> byte list option \<Rightarrow> uinta \<Rightarrow> uinta \<Rightarrow> bool" where
  "opt_at raw x i e \<longleftrightarrow>
     (case x of None \<Rightarrow> e = IDX_NONE | Some x \<Rightarrow> IDX_NONE < i \<and> e \<noteq> IDX_NONE \<and> cursor raw i e x)"

lemma parse_optional_data_sound:
  assumes c: "cursor raw idx pe bs" and p: "parse_optional_data raw t idx pe IDX_NONE = Inr (i', e)"
  obtains x rest where "bs = opt_tlv t x @ rest" "opt_at raw x i' e" "e = IDX_NONE \<longrightarrow> i' = idx"
    "cursor raw (skip_to i' e) pe rest"
proof (cases "e = IDX_NONE")
  case True
  with p have "i' = idx" by (simp add: parse_optional_data_Inr_iff)
  with True c that [of None bs] show ?thesis by (simp add: opt_at_def skip_to_def)
next
  case False
  with p have d: "parse_data_element raw t idx pe = Inr (i', e)" by (simp add: parse_optional_data_Inr_iff)
  then obtain x rest where "bs = der_tlv t x @ rest" "cursor raw i' e x" "cursor raw e pe rest"
    unfolding parse_data_element_at [OF c] by blast
  moreover have "IDX_NONE < i'"
    using parse_data_element_progress [OF d] not_none by blast
  ultimately show ?thesis
    using False that [of "Some x" rest] by (auto simp: opt_at_def skip_to_def)
qed

lemma parse_optional_data_complete:
  assumes c: "cursor raw idx pe (opt_tlv t x @ rest)" and a: "x = None \<Longrightarrow> absent t rest"
  obtains i' e where "parse_optional_data raw t idx pe IDX_NONE = Inr (i', e)" "opt_at raw x i' e"
    "e = IDX_NONE \<longrightarrow> i' = idx" "cursor raw (skip_to i' e) pe rest"
proof (cases x)
  case None
  then have "parse_optional_data raw t idx pe IDX_NONE = Inr (idx, IDX_NONE)"
    using parse_data_element_absent [OF c] a by (auto simp: parse_optional_data_Inr_iff)
  with None c that [of idx IDX_NONE] show ?thesis by (simp add: opt_at_def skip_to_def)
next
  case (Some y)
  from parse_data_element_tlv [OF c [unfolded Some opt_tlv_simps]] obtain i' e
    where p: "parse_data_element raw t idx pe = Inr (i', e)" and y: "cursor raw i' e y"
      and r: "cursor raw e pe rest" by metis
  from parse_data_element_progress [OF p] have "IDX_NONE < i'" "i' \<le> e" using not_none by auto
  then have "e \<noteq> IDX_NONE" by (auto simp: IDX_NONE_def)
  with p have "parse_optional_data raw t idx pe IDX_NONE = Inr (i', e)"
    by (simp add: parse_optional_data_Inr_iff)
  with \<open>e \<noteq> IDX_NONE\<close> \<open>IDX_NONE < i'\<close> y r Some that show ?thesis by (auto simp: opt_at_def skip_to_def)
qed

section \<open>Defaulted booleans and bit strings\<close>

definition bool_bytes :: "bool \<Rightarrow> byte list" where
  "bool_bytes b = (if b then der_tlv DER_BOOLEAN [0xff] else [])"

lemma parse_default_bool_sound:
  assumes c: "cursor raw idx pe bs" and p: "parse_default_bool raw idx pe = Inr (i', b)"
  obtains rest where "bs = bool_bytes b @ rest" "cursor raw i' pe rest"
proof -
  from p obtain j e where o: "parse_optional_data raw DER_BOOLEAN idx pe IDX_NONE = Inr (j, e)"
    by (auto simp: parse_default_bool_def)
  from parse_optional_data_sound [OF c o] obtain x rest where x: "bs = opt_tlv DER_BOOLEAN x @ rest"
    "opt_at raw x j e" "e = IDX_NONE \<longrightarrow> j = idx" "cursor raw (skip_to j e) pe rest" .
  show ?thesis
  proof (cases x)
    case None
    with x p o that [of rest] show ?thesis
      by (auto simp: parse_default_bool_def opt_at_def skip_to_def bool_bytes_def)
  next
    case (Some y)
    with x have e: "e \<noteq> IDX_NONE" "cursor raw j e y" by (auto simp: opt_at_def)
    with p o have l: "e = j + 1" and b: "b" "i' = e" "(rd raw j :: byte parsed) = Inr 0xff"
      by (auto simp: parse_default_bool_def split: if_splits)
    have "length y = 1" using cursor_size_iff [OF e(2), of 1] l by simp
    then obtain a where y: "y = [a]" by (cases y) auto
    have "a = 0xff" using cursor_rd [OF e(2) [unfolded y]] b(3) by simp
    with x e b y Some that [of rest] show ?thesis by (auto simp: bool_bytes_def skip_to_def)
  qed
qed

lemma parse_default_bool_complete:
  assumes c: "cursor raw idx pe (bool_bytes b @ rest)" and a: "\<not> b \<Longrightarrow> absent DER_BOOLEAN rest"
  obtains i' where "parse_default_bool raw idx pe = Inr (i', b)" "cursor raw i' pe rest"
proof -
  let ?x = "if b then Some [0xff] else None :: byte list option"
  have "cursor raw idx pe (opt_tlv DER_BOOLEAN ?x @ rest)" using c by (cases b) (simp_all add: bool_bytes_def)
  then obtain j e where o: "parse_optional_data raw DER_BOOLEAN idx pe IDX_NONE = Inr (j, e)" "opt_at raw ?x j e"
    "e = IDX_NONE \<longrightarrow> j = idx" "cursor raw (skip_to j e) pe rest"
    using a by (rule parse_optional_data_complete) (auto split: if_splits)
  show ?thesis
  proof (cases b)
    case True
    with o have e: "e \<noteq> IDX_NONE" "cursor raw j e [0xff]" by (auto simp: opt_at_def)
    then have "e = j + 1" "(rd raw j :: byte parsed) = Inr 0xff"
      using cursor_size_iff [OF e(2), of 1] cursor_rd [OF e(2)] by auto
    with e o True that show ?thesis by (auto simp: parse_default_bool_def skip_to_def)
  next
    case False
    with o that show ?thesis by (auto simp: parse_default_bool_def opt_at_def skip_to_def)
  qed
qed

lemma parse_bitstring_at:
  assumes c: "cursor raw idx pe bs"
  shows "parse_bitstring_no_unused raw idx pe = Inr (i', e) \<longleftrightarrow>
    (\<exists>x rest. bs = der_tlv DER_BITSTRING (0 # x) @ rest \<and> cursor raw i' e x \<and> cursor raw e pe rest)"
proof
  assume "parse_bitstring_no_unused raw idx pe = Inr (i', e)"
  then obtain j where p: "parse_data_element raw DER_BITSTRING idx pe = Inr (j, e)" and j: "j < e"
    "(rd raw j :: byte parsed) = Inr 0" "i' = j + 1"
    by (auto simp: parse_bitstring_no_unused_def not_le split: if_splits)
  from p obtain x rest where x: "bs = der_tlv DER_BITSTRING x @ rest" "cursor raw j e x" "cursor raw e pe rest"
    unfolding parse_data_element_at [OF c] by blast
  with j obtain a y where y: "x = a # y"
    using cursor_length [OF x(2)] by (cases x) (auto simp: word_less_nat_alt)
  with cursor_Cons [OF x(2) [unfolded y]] cursor_rd [OF x(2) [unfolded y]] j x
  show "\<exists>x rest. bs = der_tlv DER_BITSTRING (0 # x) @ rest \<and> cursor raw i' e x \<and> cursor raw e pe rest"
    by auto
next
  assume "\<exists>x rest. bs = der_tlv DER_BITSTRING (0 # x) @ rest \<and> cursor raw i' e x \<and> cursor raw e pe rest"
  then obtain x rest where x: "bs = der_tlv DER_BITSTRING (0 # x) @ rest" "cursor raw i' e x" "cursor raw e pe rest"
    by blast
  from parse_data_element_tlv [OF c [unfolded x(1)]] obtain j k
    where p: "parse_data_element raw DER_BITSTRING idx pe = Inr (j, k)" and j: "cursor raw j k (0 # x)"
      and k: "cursor raw k pe rest" by metis
  have e: "k = e" using cursor_end_unique [OF k x(3)] .
  then have "j + 1 = i'" using cursor_start_unique [OF cursor_Cons(3) [OF j]] x(2) by simp
  with p j e cursor_Cons(1) [OF j] cursor_rd [OF j]
  show "parse_bitstring_no_unused raw idx pe = Inr (i', e)"
    by (simp add: parse_bitstring_no_unused_def not_le)
qed

section \<open>Runs of elements\<close>

text \<open>
  A run of elements that are legal in the abstract state each of them finds, and whose effects on it
  are composed.
\<close>

fun all_legal :: "('x \<Rightarrow> 'a \<Rightarrow> bool) \<Rightarrow> ('x \<Rightarrow> 'a \<Rightarrow> 'a) \<Rightarrow> 'x list \<Rightarrow> 'a \<Rightarrow> bool" where
  "all_legal legal upd [] a \<longleftrightarrow> True"
| "all_legal legal upd (x # xs) a \<longleftrightarrow> legal x a \<and> all_legal legal upd xs (upd x a)"

lemma all_legal_stateless: "all_legal (\<lambda>x _. P x) upd xs a \<longleftrightarrow> (\<forall>x\<in>set xs. P x)"
  by (induction xs arbitrary: a) auto

text \<open>
  The interface of a loop that reads the elements of a grammar: one iteration accepts the encoding of
  one legal element and refines its effect on the abstract state. The loop then accepts exactly the
  runs of legal elements.
\<close>

locale element_grammar = element_loop step loop again pos inv
  for step :: "byte list \<Rightarrow> uinta \<Rightarrow> 's \<Rightarrow> 's parsed"
    and loop :: "byte list \<Rightarrow> uinta \<Rightarrow> 's \<Rightarrow> 's parsed"
    and again :: "uinta \<Rightarrow> 's \<Rightarrow> bool"
    and pos :: "'s \<Rightarrow> uinta"
    and inv :: "byte list \<Rightarrow> uinta \<Rightarrow> 's \<Rightarrow> bool" +
  fixes elem :: "'x \<Rightarrow> byte list"
    and view :: "byte list \<Rightarrow> 's \<Rightarrow> 'a"
    and legal :: "'x \<Rightarrow> 'a \<Rightarrow> bool"
    and upd :: "'x \<Rightarrow> 'a \<Rightarrow> 'a"
  assumes elem_nonempty: "elem x \<noteq> []"
    and again_after: "inv raw e s \<Longrightarrow> step raw e s = Inr s' \<Longrightarrow> again e s' \<longleftrightarrow> pos s' < e"
    and step_sound:
      "cursor raw (pos s) e bs \<Longrightarrow> inv raw e s \<Longrightarrow> step raw e s = Inr s' \<Longrightarrow>
       \<exists>x rest. bs = elem x @ rest \<and> cursor raw (pos s') e rest \<and> legal x (view raw s) \<and>
         view raw s' = upd x (view raw s)"
    and step_complete:
      "cursor raw (pos s) e (elem x @ rest) \<Longrightarrow> inv raw e s \<Longrightarrow> legal x (view raw s) \<Longrightarrow>
       \<exists>s'. step raw e s = Inr s' \<and> cursor raw (pos s') e rest \<and> view raw s' = upd x (view raw s)"
begin

lemma step_inv: "cursor raw (pos s) e bs \<Longrightarrow> inv raw e s \<Longrightarrow> again e s \<Longrightarrow> step raw e s = Inr s' \<Longrightarrow> inv raw e s'"
  using safe_InrD [OF step_safe] cursor_def by blast

lemma loop_sound:
  assumes "cursor raw (pos s) e bs" "inv raw e s" "loop raw e s = Inr t"
  shows "\<exists>xs. bs = concat (map elem xs) \<and> all_legal legal upd xs (view raw s) \<and>
    view raw t = fold upd xs (view raw s) \<and> pos t = e \<and> inv raw e t \<and> (xs = [] \<longrightarrow> \<not> again e s)"
  using assms
proof (induction "unat e - unat (pos s)" arbitrary: s bs rule: less_induct)
  case less
  show ?case
  proof (cases "again e s")
    case True
    with less.prems(3) loop_unfold [of raw e s] obtain s' where
      s': "step raw e s = Inr s'" "loop raw e s' = Inr t" by auto
    from step_sound [OF less.prems(1,2) s'(1)] obtain x rest where
      x: "bs = elem x @ rest" "cursor raw (pos s') e rest" "legal x (view raw s)" "view raw s' = upd x (view raw s)"
      by blast
    from step_progress [OF s'(1)] have lt: "unat e - unat (pos s') < unat e - unat (pos s)"
      by (intro loop_measure) auto
    from less.hyps [OF lt x(2) step_inv [OF less.prems(1,2) True s'(1)] s'(2)] obtain xs where
      "rest = concat (map elem xs)" "all_legal legal upd xs (view raw s')"
      "view raw t = fold upd xs (view raw s')" "pos t = e" "inv raw e t" by blast
    with x show ?thesis by (intro exI [of _ "x # xs"]) simp
  next
    case False
    then have t: "t = s" using less.prems(3) loop_unfold [of raw e s] by simp
    have "pos s = e" using stop less.prems(2) False by blast
    with less.prems(1) have "bs = []" by (simp add: cursor_def)
    with t \<open>pos s = e\<close> False less.prems(2) show ?thesis by (intro exI [of _ "[]"]) simp
  qed
qed

lemma loop_complete:
  assumes "cursor raw (pos s) e (concat (map elem xs))" "inv raw e s" "all_legal legal upd xs (view raw s)"
    and "xs = [] \<longrightarrow> \<not> again e s"
  shows "\<exists>t. loop raw e s = Inr t \<and> view raw t = fold upd xs (view raw s) \<and> pos t = e \<and> inv raw e t"
  using assms
proof (induction xs arbitrary: s)
  case Nil
  then have "pos s = e" using cursor_length [OF Nil.prems(1)] by (simp add: word_unat_eq_iff)
  with Nil loop_unfold [of raw e s] show ?case by simp
next
  case (Cons x xs)
  have ne: "pos s \<noteq> e" using Cons.prems(1) elem_nonempty [of x] by (auto simp: cursor_def)
  then have again: "again e s" using stop Cons.prems(2) by blast
  from Cons.prems have c: "cursor raw (pos s) e (elem x @ concat (map elem xs))" and l: "legal x (view raw s)" by auto
  from step_complete [OF c Cons.prems(2) l] obtain s' where
    s': "step raw e s = Inr s'" "cursor raw (pos s') e (concat (map elem xs))" "view raw s' = upd x (view raw s)" by blast
  note i' = step_inv [OF c Cons.prems(2) again s'(1)]
  have "xs = [] \<longrightarrow> \<not> again e s'"
    using again_after [OF Cons.prems(2) s'(1)] cursor_length [OF s'(2)] by (auto simp: word_less_nat_alt)
  with Cons.IH [OF s'(2) i'] Cons.prems(3) s'(3) obtain t where
    "loop raw e s' = Inr t" "view raw t = fold upd xs (view raw s')" "pos t = e" "inv raw e t" by auto
  with again s' loop_unfold [of raw e s] show ?case by simp
qed

end

section \<open>Names\<close>

text \<open>
  An attribute: the contents of its type, and identifier and contents of its value. A relative name is a
  list of attributes that is not empty, a name a list of relative names.
\<close>

type_synonym attribute = "byte list \<times> byte \<times> byte list"

definition attribute_bytes :: "attribute \<Rightarrow> byte list" where
  "attribute_bytes = (\<lambda>(oid, t, v). der_tlv DER_SEQUENCE (der_tlv DER_OID oid @ der_tlv t v))"

definition relative_name_bytes :: "attribute list \<Rightarrow> byte list" where
  "relative_name_bytes as = der_tlv DER_SET (concat (map attribute_bytes as))"

definition name_bytes :: "attribute list list \<Rightarrow> byte list" where
  "name_bytes rs = der_tlv DER_SEQUENCE (concat (map relative_name_bytes rs))"

lemma der_tlv_nonempty [simp]: "der_tlv t x \<noteq> []"
  by (simp add: der_tlv_def)

lemma cursor_done: "cursor raw e pe bs \<Longrightarrow> e = pe \<longleftrightarrow> bs = []"
  using cursor_length [of raw e pe bs] by (auto simp: word_unat_eq_iff)

lemma attribute_step_sound:
  assumes c: "cursor raw idx e bs" and p: "attribute_step raw e (idx, a) = Inr s'"
  shows "\<exists>x rest. bs = attribute_bytes x @ rest \<and> cursor raw (fst s') e rest"
proof -
  from p obtain i ae j te k ve t where
    1: "parse_data_element raw DER_SEQUENCE idx e = Inr (i, ae)" and
    2: "parse_data_element raw DER_OID i ae = Inr (j, te)" and
    3: "parse_any raw te ae = Inr (k, ve, t)" and s': "ae = ve" "s' = (ve, ae)"
    by (auto simp: attribute_step_def split: if_splits)
  from 1 obtain x rest where x: "bs = der_tlv DER_SEQUENCE x @ rest" "cursor raw i ae x" "cursor raw ae e rest"
    unfolding parse_data_element_at [OF c] by blast
  from 2 obtain oid y where y: "x = der_tlv DER_OID oid @ y" "cursor raw te ae y"
    unfolding parse_data_element_at [OF x(2)] by blast
  from 3 obtain v z where z: "y = der_tlv t v @ z" "cursor raw ve ae z"
    unfolding parse_any_at [OF y(2)] by blast
  have "z = []" using cursor_done [OF z(2)] s' by simp
  with x y z s' show ?thesis
    by (intro exI [of _ "(oid, t, v)"] exI [of _ rest]) (simp add: attribute_bytes_def)
qed

lemma attribute_step_complete:
  assumes c: "cursor raw idx e (attribute_bytes x @ rest)"
  shows "\<exists>s'. attribute_step raw e (idx, a) = Inr s' \<and> cursor raw (fst s') e rest"
proof -
  obtain oid t v where x: "x = (oid, t, v)" by (cases x)
  have c1: "cursor raw idx e (der_tlv DER_SEQUENCE (der_tlv DER_OID oid @ der_tlv t v) @ rest)"
    using c by (simp add: attribute_bytes_def x)
  from parse_data_element_tlv [OF c1] obtain i ae where
    1: "parse_data_element raw DER_SEQUENCE idx e = Inr (i, ae)" "cursor raw i ae (der_tlv DER_OID oid @ der_tlv t v)"
      "cursor raw ae e rest" by metis
  from parse_data_element_tlv [OF 1(2)] obtain j te where
    2: "parse_data_element raw DER_OID i ae = Inr (j, te)" "cursor raw te ae (der_tlv t v @ [])"
    by (metis append_Nil2)
  from parse_any_tlv [OF 2(2)] obtain k ve where
    3: "parse_any raw te ae = Inr (k, ve, t)" "cursor raw ve ae []" by metis
  have "ve = ae" using cursor_done [OF 3(2)] by simp
  with 1 2 3 show ?thesis by (simp add: attribute_step_def)
qed

interpretation attribute_grammar: element_grammar attribute_step attribute_loop "\<lambda>e s. snd s < e" fst
  attributes_inv attribute_bytes "\<lambda>_ _. ()" "\<lambda>_ _. True" "\<lambda>_ _. ()"
proof (unfold_locales, goal_cases)
  case (1 x)
  show ?case by (simp add: attribute_bytes_def split: prod.splits)
next
  case (2 raw e s s')
  then show ?case by (cases s) (auto simp: attribute_step_def split: if_splits)
next
  case (3 raw s e bs s')
  then show ?case using attribute_step_sound [of raw "fst s" e bs "snd s"] by simp
next
  case (4 raw s e x rest)
  then show ?case using attribute_step_complete [of raw "fst s" e x rest "snd s"] by simp
qed

lemma relative_name_step_sound:
  assumes c: "cursor raw idx e bs" and p: "relative_name_step raw e idx = Inr i'"
  shows "\<exists>x rest. bs = relative_name_bytes x @ rest \<and> cursor raw i' e rest \<and> x \<noteq> []"
proof -
  from p obtain i re s where
    1: "parse_data_element raw DER_SET idx e = Inr (i, re)" and
    2: "attribute_loop raw re (i, 0) = Inr (re, s)" and i': "i' = re"
    by (auto simp: relative_name_step_def split: prod.splits)
  from 1 obtain x rest where x: "bs = der_tlv DER_SET x @ rest" "cursor raw i re x" "cursor raw re e rest"
    unfolding parse_data_element_at [OF c] by blast
  have "i \<le> re" "0 < re" using parse_data_element_progress [OF 1] not_none [of idx i] by (auto simp: IDX_NONE_def)
  then have "attributes_inv raw re (i, 0)" by (simp add: attributes_inv_def)
  from attribute_grammar.loop_sound [OF _ this 2] x(2) obtain xs where
    "x = concat (map attribute_bytes xs)" "xs = [] \<longrightarrow> \<not> 0 < re" by auto
  with x \<open>0 < re\<close> i' show ?thesis
    by (intro exI [of _ xs] exI [of _ rest]) (auto simp: relative_name_bytes_def)
qed

lemma relative_name_step_complete:
  assumes c: "cursor raw idx e (relative_name_bytes x @ rest)" and x: "x \<noteq> []"
  shows "\<exists>i'. relative_name_step raw e idx = Inr i' \<and> cursor raw i' e rest"
proof -
  from parse_data_element_tlv [OF c [unfolded relative_name_bytes_def]] obtain i re where
    1: "parse_data_element raw DER_SET idx e = Inr (i, re)" "cursor raw i re (concat (map attribute_bytes x))"
      "cursor raw re e rest" "i \<le> re" by metis
  have inv: "attributes_inv raw re (i, 0)" using 1(4) by (simp add: attributes_inv_def)
  from attribute_grammar.loop_complete [OF _ inv, of x] 1(2) x obtain t where
    "attribute_loop raw re (i, 0) = Inr t" "fst t = re" by (auto simp: all_legal_stateless)
  with 1 show ?thesis by (cases t) (simp add: relative_name_step_def)
qed

interpretation relative_name_grammar: element_grammar relative_name_step relative_name_loop "\<lambda>e idx. idx < e"
  "\<lambda>idx. idx" "\<lambda>_ e idx. idx \<le> e" relative_name_bytes "\<lambda>_ _. ()" "\<lambda>x _. x \<noteq> []" "\<lambda>_ _. ()"
proof (unfold_locales, goal_cases)
  case (1 x)
  show ?case by (simp add: relative_name_bytes_def)
next
  case (3 raw s e bs s')
  then show ?case using relative_name_step_sound by auto
next
  case (4 raw s e x rest)
  then show ?case using relative_name_step_complete by auto
qed simp

definition name_ok :: "attribute list list \<Rightarrow> bool" where
  "name_ok n \<longleftrightarrow> [] \<notin> set n"

lemma parse_name_sound:
  assumes c: "cursor raw idx pe bs" and p: "parse_name raw idx pe = Inr i'"
  obtains n rest where "bs = name_bytes n @ rest" "cursor raw i' pe rest" "name_ok n"
proof -
  from p obtain i where 1: "parse_data_element raw DER_SEQUENCE idx pe = Inr (i, i')"
    and 2: "relative_name_loop raw i' i = Inr i'" by (auto simp: parse_name_def)
  from 1 obtain x rest where x: "bs = der_tlv DER_SEQUENCE x @ rest" "cursor raw i i' x" "cursor raw i' pe rest"
    unfolding parse_data_element_at [OF c] by blast
  from relative_name_grammar.loop_sound [OF x(2) _ 2] obtain n where
    "x = concat (map relative_name_bytes n)" "\<forall>r\<in>set n. r \<noteq> []"
    using x(2) by (auto simp: all_legal_stateless cursor_def)
  with x that [of n rest] show ?thesis by (auto simp: name_bytes_def name_ok_def)
qed

lemma parse_name_complete:
  assumes c: "cursor raw idx pe (name_bytes n @ rest)" and n: "name_ok n"
  obtains i' where "parse_name raw idx pe = Inr i'" "cursor raw i' pe rest"
proof -
  from parse_data_element_tlv [OF c [unfolded name_bytes_def]] obtain i e where
    1: "parse_data_element raw DER_SEQUENCE idx pe = Inr (i, e)" "cursor raw i e (concat (map relative_name_bytes n))"
      "cursor raw e pe rest" "i \<le> e" by metis
  have "all_legal (\<lambda>x _. x \<noteq> []) (\<lambda>_ _. ()) n ()" using n by (auto simp: all_legal_stateless name_ok_def)
  moreover have "n = [] \<longrightarrow> \<not> i < e" using cursor_done [OF 1(2)] by auto
  ultimately have "relative_name_loop raw e i = Inr e"
    using relative_name_grammar.loop_complete [OF 1(2) 1(4), of ] by auto
  with 1 that show ?thesis by (simp add: parse_name_def)
qed

section \<open>Algorithm identifiers and times\<close>

text \<open>The contents of an algorithm's object identifier, and the bytes of its parameters.\<close>

type_synonym alg_id = "byte list \<times> byte list"

definition alg_id_bytes :: "alg_id \<Rightarrow> byte list" where
  "alg_id_bytes = (\<lambda>(oid, params). der_tlv DER_SEQUENCE (der_tlv DER_OID oid @ params))"

lemma parse_alg_id_at:
  assumes c: "cursor raw idx pe bs"
  shows "parse_alg_id raw idx pe = Inr (i', s, e, os, oe) \<longleftrightarrow>
    (\<exists>oid params rest. bs = alg_id_bytes (oid, params) @ rest \<and> cursor raw i' pe rest \<and> s = idx \<and> e = i' \<and>
       cursor raw os oe oid \<and> cursor raw oe e params)"
proof
  assume "parse_alg_id raw idx pe = Inr (i', s, e, os, oe)"
  then obtain i where 1: "parse_data_element raw DER_SEQUENCE idx pe = Inr (i, e)"
    and 2: "parse_data_element raw DER_OID i e = Inr (os, oe)" and r: "i' = e" "s = idx"
    by (auto simp: parse_alg_id_def)
  from 1 obtain x rest where x: "bs = der_tlv DER_SEQUENCE x @ rest" "cursor raw i e x" "cursor raw e pe rest"
    unfolding parse_data_element_at [OF c] by blast
  from 2 obtain oid params where "x = der_tlv DER_OID oid @ params" "cursor raw os oe oid" "cursor raw oe e params"
    unfolding parse_data_element_at [OF x(2)] by blast
  with x r show "\<exists>oid params rest. bs = alg_id_bytes (oid, params) @ rest \<and> cursor raw i' pe rest \<and> s = idx \<and>
      e = i' \<and> cursor raw os oe oid \<and> cursor raw oe e params" by (auto simp: alg_id_bytes_def)
next
  assume "\<exists>oid params rest. bs = alg_id_bytes (oid, params) @ rest \<and> cursor raw i' pe rest \<and> s = idx \<and> e = i' \<and>
       cursor raw os oe oid \<and> cursor raw oe e params"
  then obtain oid params rest where b: "bs = der_tlv DER_SEQUENCE (der_tlv DER_OID oid @ params) @ rest"
    and r: "cursor raw i' pe rest" "s = idx" "e = i'" "cursor raw os oe oid" "cursor raw oe e params"
    by (auto simp: alg_id_bytes_def)
  from parse_data_element_tlv [OF c [unfolded b]] obtain i k where
    1: "parse_data_element raw DER_SEQUENCE idx pe = Inr (i, k)" "cursor raw i k (der_tlv DER_OID oid @ params)"
      "cursor raw k pe rest" by metis
  have k: "k = e" using cursor_end_unique [OF 1(3)] r by simp
  have "parse_data_element raw DER_OID i e = Inr (os, oe)"
    unfolding parse_data_element_at [OF 1(2) [unfolded k]] using r by blast
  with 1 k r show "parse_alg_id raw idx pe = Inr (i', s, e, os, oe)" by (simp add: parse_alg_id_def)
qed

lemma parse_time_at:
  assumes c: "cursor raw idx pe bs"
  shows "parse_time raw idx pe = Inr (i', ts) \<longleftrightarrow>
    (\<exists>d rest. bs = date_bytes d @ rest \<and> cursor raw i' pe rest \<and> date_ok d \<and> ts = secs_read d)"
proof
  assume p: "parse_time raw idx pe = Inr (i', ts)"
  from parse_time_sound [OF cursor_valid [OF c] p] obtain d where
    d: "date_ok d" "slice raw idx i' = date_bytes d" "ts = secs_read d" and le: "idx \<le> i'" "i' \<le> pe"
    by auto
  from cursor_slices [OF c le] d show "\<exists>d rest. bs = date_bytes d @ rest \<and> cursor raw i' pe rest \<and> date_ok d \<and>
      ts = secs_read d" by metis
next
  assume "\<exists>d rest. bs = date_bytes d @ rest \<and> cursor raw i' pe rest \<and> date_ok d \<and> ts = secs_read d"
  then obtain d rest where b: "bs = date_bytes d @ rest" and r: "cursor raw i' pe rest" and d: "date_ok d"
    "ts = secs_read d" by blast
  from parse_time_complete [OF c [unfolded b] d(1)] d obtain j where
    "parse_time raw idx pe = Inr (j, ts)" "cursor raw j pe rest" by auto
  with cursor_end_unique [OF _ r] show "parse_time raw idx pe = Inr (i', ts)" by blast
qed

end
