(* ===== verification/Extension_Grammar.thy ===== *)
theory Extension_Grammar
  imports Grammar
begin

text \<open>
  The reference for the extensions of a certificate: the values of the five supported ones, their
  encodings and their effects on what a certificate says (\<open>extn_info\<close>), and the proof that each parser
  accepts exactly the encodings of legal values and refines the effect. The locale \<open>extn_grammar\<close>
  extends the contract of a parser by its grammar; then the loop over the extensions is a loop over
  the elements of a grammar too.
\<close>

section \<open>Values of extensions\<close>

text \<open>
  What the extensions of a certificate say: the reference of the extension fields, in which a range of
  the certificate is its bytes.
\<close>

record extn_info =
  subject_key :: "byte list option"
  authority_key :: "byte list option"
  is_ca :: bool
  path_len :: uint32
  has_usage :: bool
  has_purposes :: bool
  usage_flags :: uint32

definition no_info :: extn_info where
  "no_info = \<lparr>subject_key = None, authority_key = None, is_ca = False, path_len = 0, has_usage = False,
     has_purposes = False, usage_flags = 0\<rparr>"

definition range_of :: "byte list \<Rightarrow> uinta \<Rightarrow> uinta \<Rightarrow> byte list option" where
  "range_of raw s e = (if s = IDX_NONE then None else Some (slice raw s e))"

definition extn_view :: "byte list \<Rightarrow> x509Fields \<Rightarrow> extn_info" where
  "extn_view raw f = \<lparr>
     subject_key = range_of raw (skid_start f) (skid_end f),
     authority_key = range_of raw (akid_start f) (akid_end f),
     is_ca = key_cert_sign f, path_len = path_len_constraint f,
     has_usage = has_key_usage f, has_purposes = has_ext_key_usage f, usage_flags = key_usage_flags f\<rparr>"

lemma extn_view_default: "extn_view raw (assign_default_extensions f) = no_info"
  by (simp add: extn_view_def no_info_def assign_default_extensions_def range_of_def)

text \<open>
  The values of the supported extensions, and their encodings. A path length is its octets; a key usage
  the number of unused bits and the octets; a key purpose the contents of its object identifier.
\<close>

datatype extn_value =
    Basic_Constraints bool "byte list option"
  | Authority_Key "byte list option" "byte list option" "byte list option"
  | Subject_Key "byte list"
  | Key_Usage byte "byte list"
  | Key_Purposes "byte list list"

fun value_oid :: "extn_value \<Rightarrow> byte list" where
  "value_oid (Basic_Constraints ca n) = basic_constraint_oid"
| "value_oid (Authority_Key k i n) = akid_oid"
| "value_oid (Subject_Key k) = skid_oid"
| "value_oid (Key_Usage u bits) = key_usage_oid"
| "value_oid (Key_Purposes ps) = ext_key_usage_oid"

fun value_bytes :: "extn_value \<Rightarrow> byte list" where
  "value_bytes (Basic_Constraints ca n) = der_tlv DER_SEQUENCE (bool_bytes ca @ opt_tlv DER_INTEGER n)"
| "value_bytes (Authority_Key k i n) = der_tlv DER_SEQUENCE
     (opt_tlv DER_IMPLICIT_0 k @ opt_tlv (DER_IMPLICIT_1 OR DER_CONSTRUCTED) i @ opt_tlv DER_IMPLICIT_2 n)"
| "value_bytes (Subject_Key k) = der_tlv DER_OCTET_STRING k"
| "value_bytes (Key_Usage u bits) = der_tlv DER_BITSTRING (u # bits)"
| "value_bytes (Key_Purposes ps) = der_tlv DER_SEQUENCE (concat (map (der_tlv DER_OID) ps))"

text \<open>A path length is not negative and has four octets at most; the last bit of a key usage is set.\<close>

fun value_ok :: "extn_value \<Rightarrow> bool" where
  "value_ok (Basic_Constraints ca n) \<longleftrightarrow>
     (case n of None \<Rightarrow> True | Some n \<Rightarrow> ca \<and> n \<noteq> [] \<and> length n \<le> 4 \<and> unat (hd n) < 128)"
| "value_ok (Key_Usage u bits) \<longleftrightarrow>
     unat u < 8 \<and> (length bits = 1 \<or> length bits = 2) \<and> bit (last bits) (unat u) \<and> take_bit (unat u) (last bits) = 0"
| "value_ok _ \<longleftrightarrow> True"

text \<open>The effect of a value. The flags of the second key-usage octet are shifted by one bit.\<close>

fun bits_flags :: "byte list \<Rightarrow> uint32" where
  "bits_flags [] = 0"
| "bits_flags [a] = ucast a"
| "bits_flags (a # b # _) = ucast a OR push_bit 1 (ucast b)"

definition oid_flag :: "byte list \<Rightarrow> uint32" where
  "oid_flag p = (if length p = 8 \<and> take 7 p = take 7 KP_OID then purpose_flag (last p) else 0)"

definition add_purpose :: "byte list \<Rightarrow> uint32 \<Rightarrow> uint32" where
  "add_purpose p flags = flags OR oid_flag p"

fun value_upd :: "extn_value \<Rightarrow> extn_info \<Rightarrow> extn_info" where
  "value_upd (Basic_Constraints ca n) r =
     (if ca then r\<lparr>is_ca := True,
        path_len := (case n of None \<Rightarrow> 0xffffffff | Some n \<Rightarrow> of_nat (be_val n 0))\<rparr>
      else r)"
| "value_upd (Authority_Key k i n) r = r\<lparr>authority_key := k\<rparr>"
| "value_upd (Subject_Key k) r = r\<lparr>subject_key := Some k\<rparr>"
| "value_upd (Key_Usage u bits) r = r\<lparr>has_usage := True, usage_flags := usage_flags r OR bits_flags bits\<rparr>"
| "value_upd (Key_Purposes ps) r = r\<lparr>has_purposes := True, usage_flags := fold add_purpose ps (usage_flags r)\<rparr>"

text \<open>
  The interface of an extension parser, with its grammar: it accepts exactly the encodings of the legal
  values with its object identifier, and refines their effect.
\<close>

locale extn_grammar = extn_parser oid parse
  for oid :: "byte list" and parse :: "byte list \<Rightarrow> uinta \<Rightarrow> uinta \<Rightarrow> x509Fields \<Rightarrow> x509Fields parsed" +
  assumes parse_sound:
      "cursor raw idx e bs \<Longrightarrow> extn_inv raw seen f \<Longrightarrow> oid \<notin> set seen \<Longrightarrow> parse raw idx e f = Inr g \<Longrightarrow>
       \<exists>x. value_oid x = oid \<and> value_ok x \<and> bs = value_bytes x \<and> extn_view raw g = value_upd x (extn_view raw f)"
    and parse_complete:
      "cursor raw idx e (value_bytes x) \<Longrightarrow> extn_inv raw seen f \<Longrightarrow> oid \<notin> set seen \<Longrightarrow> value_oid x = oid \<Longrightarrow>
       value_ok x \<Longrightarrow> \<exists>g. parse raw idx e f = Inr g \<and> extn_view raw g = value_upd x (extn_view raw f)"

lemma value_oid_cases:
  "value_oid x = skid_oid \<longleftrightarrow> (\<exists>k. x = Subject_Key k)"
  "value_oid x = akid_oid \<longleftrightarrow> (\<exists>k i n. x = Authority_Key k i n)"
  "value_oid x = basic_constraint_oid \<longleftrightarrow> (\<exists>ca n. x = Basic_Constraints ca n)"
  "value_oid x = key_usage_oid \<longleftrightarrow> (\<exists>u bits. x = Key_Usage u bits)"
  "value_oid x = ext_key_usage_oid \<longleftrightarrow> (\<exists>ps. x = Key_Purposes ps)"
  by (cases x; simp add: extn_oids)+

text \<open>An element that must fill the rest.\<close>

lemma whole_element:
  assumes "cursor raw idx e bs" "parse_data_element raw t idx e = Inr (i, e)"
  obtains x where "bs = der_tlv t x" "cursor raw i e x"
  using assms cursor_done [of raw e e] by (auto simp: parse_data_element_at [OF assms(1)])

lemma whole_element_complete:
  assumes "cursor raw idx e (der_tlv t x)"
  obtains i where "parse_data_element raw t idx e = Inr (i, e)" "cursor raw i e x" "idx < i"
proof -
  have "cursor raw idx e (der_tlv t x @ [])" using assms by simp
  from parse_data_element_tlv [OF this] obtain i k where
    p: "parse_data_element raw t idx e = Inr (i, k)" "cursor raw i k x" "cursor raw k e []" by metis
  moreover have "k = e" using cursor_done [OF p(3)] by simp
  ultimately show ?thesis using parse_data_element_progress [OF p(1)] that by simp
qed

interpretation skid_grammar: extn_grammar skid_oid parse_skid
proof (unfold_locales, goal_cases)
  case (1 raw idx e bs seen f g)
  from 1(4) obtain i where p: "parse_data_element raw DER_OCTET_STRING idx e = Inr (i, e)"
    and g: "g = f\<lparr>skid_end := e, skid_start := i\<rparr>" by (auto simp: parse_skid_def split: if_splits)
  from whole_element [OF 1(1) p] obtain k where k: "bs = der_tlv DER_OCTET_STRING k" "cursor raw i e k" .
  have "i \<noteq> IDX_NONE" using parse_data_element_progress [OF p] not_none [of idx i] by auto
  with k g show ?case
    by (intro exI [of _ "Subject_Key k"]) (simp add: extn_view_def range_of_def cursor_slice)
next
  case (2 raw idx e x seen f)
  then obtain k where x: "x = Subject_Key k" by (auto simp: value_oid_cases)
  from whole_element_complete [of raw idx e DER_OCTET_STRING k] 2(1) x obtain i where
    p: "parse_data_element raw DER_OCTET_STRING idx e = Inr (i, e)" "cursor raw i e k" "idx < i" by auto
  then have "i \<noteq> IDX_NONE" using not_none [of idx i] by auto
  with p x show ?case by (simp add: parse_skid_def extn_view_def range_of_def cursor_slice)
qed

interpretation akid_grammar: extn_grammar akid_oid parse_akid
proof (unfold_locales, goal_cases)
  case (1 raw idx e bs seen f g)
  let ?t1 = "DER_IMPLICIT_1 OR DER_CONSTRUCTED"
  have z: "akid_start f = IDX_NONE" using 1(2,3) by (auto simp: extn_inv_def)
  from 1(4) obtain i j k j1 k1 j2 k2 where
    p: "parse_data_element raw DER_SEQUENCE idx e = Inr (i, e)" and
    p0: "parse_optional_data raw DER_IMPLICIT_0 i e IDX_NONE = Inr (j, k)" and
    p1: "parse_optional_data raw ?t1 (skip_to j k) e IDX_NONE = Inr (j1, k1)" and
    p2: "parse_optional_data raw DER_IMPLICIT_2 (skip_to j1 k1) e IDX_NONE = Inr (j2, k2)" and
    fin: "skip_to j2 k2 = e" and
    g: "g = (if k \<noteq> IDX_NONE then f\<lparr>akid_end := k, akid_start := j\<rparr> else f\<lparr>akid_end := k\<rparr>)"
    by (auto simp: parse_akid_def Let_def if_fail split del: if_split)
  from whole_element [OF 1(1) p] obtain x where x: "bs = der_tlv DER_SEQUENCE x" "cursor raw i e x" .
  from parse_optional_data_sound [OF x(2) p0] obtain a0 r0 where
    a0: "x = opt_tlv DER_IMPLICIT_0 a0 @ r0" "opt_at raw a0 j k" "cursor raw (skip_to j k) e r0" .
  from parse_optional_data_sound [OF a0(3) p1] obtain a1 r1 where
    a1: "r0 = opt_tlv ?t1 a1 @ r1" "cursor raw (skip_to j1 k1) e r1" .
  from parse_optional_data_sound [OF a1(2) p2] obtain a2 r2 where
    a2: "r1 = opt_tlv DER_IMPLICIT_2 a2 @ r2" "cursor raw (skip_to j2 k2) e r2" .
  have "r2 = []" using cursor_done [OF a2(2)] fin by simp
  moreover have "extn_view raw g = (extn_view raw f)\<lparr>authority_key := a0\<rparr>"
    using a0(2) g z by (cases a0) (auto simp: opt_at_def extn_view_def range_of_def cursor_slice)
  ultimately show ?case
    using x a0 a1 a2 by (intro exI [of _ "Authority_Key a0 a1 a2"]) simp
next
  case (2 raw idx e x seen f)
  let ?t1 = "DER_IMPLICIT_1 OR DER_CONSTRUCTED"
  have z: "akid_start f = IDX_NONE" using 2(2,3) by (auto simp: extn_inv_def)
  from 2 obtain a0 a1 a2 where x: "x = Authority_Key a0 a1 a2" by (auto simp: value_oid_cases)
  let ?r2 = "opt_tlv DER_IMPLICIT_2 a2 @ []" let ?r1 = "opt_tlv ?t1 a1 @ ?r2"
  have tags: "DER_IMPLICIT_0 \<noteq> ?t1" "DER_IMPLICIT_0 \<noteq> DER_IMPLICIT_2" "?t1 \<noteq> DER_IMPLICIT_2"
    by (simp_all add: der_tags)
  from whole_element_complete [of raw idx e DER_SEQUENCE "opt_tlv DER_IMPLICIT_0 a0 @ ?r1"] 2(1) x obtain i where
    p: "parse_data_element raw DER_SEQUENCE idx e = Inr (i, e)" and
    c: "cursor raw i e (opt_tlv DER_IMPLICIT_0 a0 @ ?r1)" by auto
  have ab: "absent DER_IMPLICIT_0 ?r1" "absent ?t1 ?r2" "absent DER_IMPLICIT_2 []"
    using tags by (cases a1; cases a2; simp)+
  from parse_optional_data_complete [OF c ab(1)] obtain j k where
    p0: "parse_optional_data raw DER_IMPLICIT_0 i e IDX_NONE = Inr (j, k)" "opt_at raw a0 j k"
      "cursor raw (skip_to j k) e ?r1" by metis
  from parse_optional_data_complete [OF p0(3) ab(2)] obtain j1 k1 where
    p1: "parse_optional_data raw ?t1 (skip_to j k) e IDX_NONE = Inr (j1, k1)" "cursor raw (skip_to j1 k1) e ?r2" by metis
  from parse_optional_data_complete [OF p1(2) ab(3)] obtain j2 k2 where
    p2: "parse_optional_data raw DER_IMPLICIT_2 (skip_to j1 k1) e IDX_NONE = Inr (j2, k2)"
      "cursor raw (skip_to j2 k2) e []" by metis
  have "skip_to j2 k2 = e" using cursor_done [OF p2(2)] by simp
  moreover have "extn_view raw (if k \<noteq> IDX_NONE then f\<lparr>akid_end := k, akid_start := j\<rparr> else f\<lparr>akid_end := k\<rparr>)
      = (extn_view raw f)\<lparr>authority_key := a0\<rparr>"
    using p0(2) z by (cases a0) (auto simp: opt_at_def extn_view_def range_of_def cursor_slice)
  ultimately show ?case
    using p p0 p1 p2 x by (simp add: parse_akid_def Let_def split del: if_split)
qed

section \<open>Reading the contents of an element\<close>

lemma cursor_take:
  assumes c: "cursor raw i e bs" and n: "n \<le> length bs"
  shows "rd_bytes raw i (of_nat n) = Inr (take n bs)"
proof -
  have t: "cursor raw i e (take n bs @ drop n bs)" using c by simp
  have l: "length (take n bs) = n" using n by simp
  note a = cursor_append [OF t, unfolded l]
  show ?thesis using rd_bytes_slice [OF cursor_valid [OF a(1)] a(3)] cursor_slice [OF a(1)] by simp
qed

lemma cursor_last:
  assumes c: "cursor raw i e bs" and n: "bs \<noteq> []"
  shows "rd raw (e - 1) = (Inr (last bs) :: byte parsed)"
proof -
  have t: "cursor raw i e (butlast bs @ [last bs])" using c n by simp
  note l = cursor_append(2) [OF t]
  have "e = i + of_nat (length (butlast bs)) + 1"
    using cursor_length [OF l] unat_add1 [OF cursor_Cons(1) [OF l]] by (simp add: word_unat_eq_iff)
  then have "e - 1 = i + of_nat (length (butlast bs))" by simp
  with cursor_rd [OF l] show ?thesis by simp
qed

lemma cursor_size: "cursor raw i e bs \<Longrightarrow> unat (e - i) = length bs"
  using cursor_length [of raw i e bs] cursor_le [of raw i e bs] by (simp add: unat_sub)

section \<open>Basic constraints\<close>

lemma shift_in: "push_bit 8 (of_nat m :: uint32) OR ucast (b :: byte) = of_nat (256 * m + unat b)"
proof -
  have "push_bit 8 (of_nat m :: uint32) OR ucast b = push_bit 8 (of_nat m) + ucast b"
    by (rule disjunctive_add [symmetric]) (use byte_high_bits [of _ b] in \<open>auto simp: bit_simps\<close>)
  then show ?thesis by (simp add: push_bit_eq_mult ac_simps)
qed

lemma path_len_loop_val:
  "cursor raw idx e bs \<Longrightarrow> path_len_loop raw idx e (of_nat m) = Inr (of_nat (be_val bs m))"
proof (induction bs arbitrary: idx m)
  case Nil
  then have "idx = e" using cursor_done [OF Nil] by simp
  then show ?case by (subst path_len_loop.simps) simp
next
  case (Cons b bs)
  note c = cursor_Cons [OF Cons.prems]
  show ?case
    using Cons.IH [OF c(3), of "256 * m + unat b"] c(1) cursor_rd [OF Cons.prems] shift_in [of m b]
    by (subst path_len_loop.simps) simp
qed

lemma high_bit: "b AND 0x80 > 0 \<longleftrightarrow> \<not> unat (b :: byte) < 128"
  using length_form_iff [of b] by (simp add: DER_LENGTH_FORM_MASK_def not_less)

lemma parse_path_len_sound:
  assumes c: "cursor raw idx e bs" and p: "parse_path_len raw idx e f = Inr (i', g)"
    and z: "path_len_constraint f = 0"
  obtains n rest where "bs = opt_tlv DER_INTEGER n @ rest" "cursor raw i' e rest"
    "value_ok (Basic_Constraints True n)"
    "g = f\<lparr>path_len_constraint := (case n of None \<Rightarrow> 0xffffffff | Some n \<Rightarrow> of_nat (be_val n 0))\<rparr>"
proof -
  from p obtain j k where o: "parse_optional_data raw DER_INTEGER idx e IDX_NONE = Inr (j, k)"
    by (auto simp: parse_path_len_def)
  from parse_optional_data_sound [OF c o] obtain n rest where n: "bs = opt_tlv DER_INTEGER n @ rest"
    "opt_at raw n j k" "cursor raw (skip_to j k) e rest" .
  show ?thesis
  proof (cases n)
    case None
    with n p o that [of None rest] show ?thesis
      by (auto simp: parse_path_len_def opt_at_def skip_to_def)
  next
    case (Some x)
    with n have k: "k \<noteq> IDX_NONE" and x: "cursor raw j k x" by (auto simp: opt_at_def)
    from p o k obtain b len where jk: "j \<noteq> k" and b: "rd raw j = (Inr b :: byte parsed)" "\<not> b AND 0x80 > 0"
      "\<not> k - j > 4" and len: "path_len_loop raw j k (of_nat 0) = Inr len" and g: "g = f\<lparr>path_len_constraint := len\<rparr>"
      "i' = k" by (auto simp: parse_path_len_def if_fail z split del: if_split)
    from jk obtain a y where y: "x = a # y" using cursor_done [OF x] by (cases x) auto
    have "length x \<le> 4" using b(3) cursor_size [OF x] by (simp add: not_less word_le_nat_alt)
    moreover have "unat a < 128" using cursor_rd [OF x [unfolded y]] b high_bit by simp
    moreover have "len = of_nat (be_val x 0)" using path_len_loop_val [OF x, of 0] len by simp
    ultimately show ?thesis using that [of n rest] n k g Some y by (simp add: skip_to_def)
  qed
qed

lemma parse_path_len_complete:
  assumes c: "cursor raw idx e (opt_tlv DER_INTEGER n)" and n: "value_ok (Basic_Constraints True n)"
    and z: "path_len_constraint f = 0"
  shows "parse_path_len raw idx e f =
    Inr (e, f\<lparr>path_len_constraint := (case n of None \<Rightarrow> 0xffffffff | Some n \<Rightarrow> of_nat (be_val n 0))\<rparr>)"
proof -
  have c': "cursor raw idx e (opt_tlv DER_INTEGER n @ [])" using c by simp
  have "n = None \<Longrightarrow> absent DER_INTEGER []" by simp
  from parse_optional_data_complete [OF c' this] obtain j k where
    o: "parse_optional_data raw DER_INTEGER idx e IDX_NONE = Inr (j, k)" "opt_at raw n j k"
      "cursor raw (skip_to j k) e []" by metis
  have e: "skip_to j k = e" using cursor_done [OF o(3)] by simp
  show ?thesis
  proof (cases n)
    case None
    with o e show ?thesis by (simp add: parse_path_len_def opt_at_def skip_to_def)
  next
    case (Some x)
    with o e have k: "k \<noteq> IDX_NONE" "k = e" and x: "cursor raw j e x" by (auto simp: opt_at_def skip_to_def)
    from Some n obtain a y where y: "x = a # y" "unat a < 128" by (cases x) auto
    have "\<not> e - j > 4" using Some n cursor_size [OF x] by (simp add: word_less_nat_alt)
    moreover have "j \<noteq> e" using cursor_done [OF x] y by simp
    moreover have "\<not> a AND 0x80 > 0" using y(2) high_bit by simp
    ultimately show ?thesis
      using o(1) k Some path_len_loop_val [OF x, of 0] cursor_rd [OF x [unfolded y(1)]] z
      by (simp add: parse_path_len_def)
  qed
qed

interpretation basic_grammar: extn_grammar basic_constraint_oid parse_basic_constraint
proof (unfold_locales, goal_cases)
  case (1 raw idx e bs seen f g)
  have z: "path_len_constraint f = 0" "\<not> key_cert_sign f" using 1(2,3) by (auto simp: extn_inv_def)
  from 1(4) obtain i c j ca where
    p: "parse_data_element raw DER_SEQUENCE idx e = Inr (i, c)" and
    b: "parse_default_bool raw i c = Inr (j, ca)"
    by (auto simp: parse_basic_constraint_def split del: if_split)
  note r = 1(4) [unfolded parse_basic_constraint_def p b check_ok_simps split_conv]
  from p obtain x r0 where x: "bs = der_tlv DER_SEQUENCE x @ r0" "cursor raw i c x" "cursor raw c e r0"
    unfolding parse_data_element_at [OF 1(1)] by blast
  from parse_default_bool_sound [OF x(2) b] obtain y where y: "x = bool_bytes ca @ y" "cursor raw j c y" .
  show ?case
  proof (cases ca)
    case True
    with r have q: "parse_path_len raw j c (f\<lparr>key_cert_sign := True\<rparr>) = Inr (e, g)" by (auto simp: if_fail)
    from parse_path_len_sound [OF y(2) q] z obtain n rest where
      n: "y = opt_tlv DER_INTEGER n @ rest" "cursor raw e c rest" "value_ok (Basic_Constraints True n)"
        "g = f\<lparr>key_cert_sign := True,
           path_len_constraint := (case n of None \<Rightarrow> 0xffffffff | Some n \<Rightarrow> of_nat (be_val n 0))\<rparr>" by auto
    have "c = e" using cursor_le [OF n(2)] cursor_le [OF x(3)] by simp
    then have "rest = []" "r0 = []" using cursor_done [OF n(2)] cursor_done [OF x(3)] by auto
    with True x y n show ?thesis
      by (intro exI [of _ "Basic_Constraints True n"]) (simp add: extn_view_def split: option.splits)
  next
    case False
    with r have j: "j = e" "g = f\<lparr>key_cert_sign := False\<rparr>" by (simp_all add: if_fail)
    then have "c = e" using cursor_le [OF y(2)] cursor_le [OF x(3)] by simp
    then have "y = []" "r0 = []" using cursor_done [OF y(2)] cursor_done [OF x(3)] j by auto
    with False x y j z show ?thesis
      by (intro exI [of _ "Basic_Constraints False None"]) (simp add: extn_view_def)
  qed
next
  case (2 raw idx e x seen f)
  have z: "path_len_constraint f = 0" "\<not> key_cert_sign f" using 2(2,3) by (auto simp: extn_inv_def)
  from 2 obtain ca n where x: "x = Basic_Constraints ca n" by (auto simp: value_oid_cases)
  from whole_element_complete [of raw idx e DER_SEQUENCE "bool_bytes ca @ opt_tlv DER_INTEGER n"] 2(1) x obtain i where
    p: "parse_data_element raw DER_SEQUENCE idx e = Inr (i, e)" and
    c: "cursor raw i e (bool_bytes ca @ opt_tlv DER_INTEGER n)" by auto
  have "\<not> ca \<Longrightarrow> absent DER_BOOLEAN (opt_tlv DER_INTEGER n)"
    using 2(5) x by (cases n) (simp_all add: der_tags)
  from parse_default_bool_complete [OF c this] obtain j where
    b: "parse_default_bool raw i e = Inr (j, ca)" and j: "cursor raw j e (opt_tlv DER_INTEGER n)" by metis
  show ?case
  proof (cases ca)
    case True
    have "parse_path_len raw j e (f\<lparr>key_cert_sign := True\<rparr>) = Inr (e, f\<lparr>key_cert_sign := True,
        path_len_constraint := (case n of None \<Rightarrow> 0xffffffff | Some n \<Rightarrow> of_nat (be_val n 0))\<rparr>)"
      using parse_path_len_complete [OF j] 2(5) x True z by simp
    with True p b x show ?thesis
      by (simp add: parse_basic_constraint_def extn_view_def)
  next
    case False
    with 2(5) x have n: "n = None" by (cases n) auto
    have "j = e" using cursor_done [OF j] n by simp
    with False p b x n z show ?thesis by (simp add: parse_basic_constraint_def extn_view_def)
  qed
qed

section \<open>Key usage\<close>

lemma below_8: "(n :: nat) < 8 \<longleftrightarrow> n = 0 \<or> n = 1 \<or> n = 2 \<or> n = 3 \<or> n = 4 \<or> n = 5 \<or> n = 6 \<or> n = 7"
  by arith

lemma last_set_bit: "n < 8 \<Longrightarrow> drop_bit (7 - n) (0x80 :: byte) = 2 ^ n"
  by (auto simp: below_8)

text \<open>The check of the last octet: the bit that the number of unused bits names is set, and none below.\<close>

lemma last_octet_iff:
  assumes "unat (u :: byte) < 8"
  shows "(b AND drop_bit (7 - unat u) (0x80 :: byte) = 0 \<or> b AND (drop_bit (7 - unat u) 0x80 - 1) > 0)
    \<longleftrightarrow> \<not> (bit b (unat u) \<and> take_bit (unat u) b = 0)"
  unfolding last_set_bit [OF assms]
  by (simp add: bit_iff_and_push_bit_not_eq_0 push_bit_eq_mult take_bit_eq_mask mask_eq_exp_minus_1 word_gt_0)

lemma unused_lt: "\<not> (8 :: byte) \<le> u \<longleftrightarrow> unat u < 8"
  by (simp add: not_le word_less_nat_alt)

lemma parse_key_usage_content:
  assumes p: "parse_data_element raw DER_BITSTRING idx e = Inr (i, e)" and c: "cursor raw i e x"
  shows "parse_key_usage raw idx e f =
    (if length x \<le> 1 then Inl (Code UNEXPECTED_END_OF_DATA)
     else if length x > 3 then Inl (Code TRAILING_DATA)
     else if value_ok (Key_Usage (hd x) (tl x))
     then Inr (f\<lparr>has_key_usage := True, key_usage_flags := key_usage_flags f OR bits_flags (tl x)\<rparr>)
     else Inl (Code INVALID_BITSTRING))"
proof -
  note n = cursor_size [OF c]
  have sz: "e - i \<le> 1 \<longleftrightarrow> length x \<le> 1" "e - i > 3 \<longleftrightarrow> length x > 3"
    using n by (simp_all add: word_le_nat_alt word_less_nat_alt)
  show ?thesis
  proof (cases "length x \<le> 1 \<or> length x > 3")
    case True
    with sz p show ?thesis by (auto simp: parse_key_usage_def)
  next
    case False
    then have "length x = Suc (Suc 0) \<or> length x = Suc (Suc (Suc 0))" by arith
    then consider (one) u a where "x = [u, a]" | (two) u a b where "x = [u, a, b]"
      by (auto simp: length_Suc_conv)
    then show ?thesis
    proof cases
      case one
      note c0 = cursor_rd [OF c [unfolded one]] note c1 = cursor_Cons(3) [OF c [unfolded one]]
      have e: "i + 2 = e" using cursor_done [OF cursor_Cons2 [OF c [unfolded one]]] by simp
      have l: "rd raw (e - 1) = (Inr a :: byte parsed)" using cursor_last [OF c] one by simp
      show ?thesis
      proof (cases "unat u < 8")
        case True
        then show ?thesis
          using p sz c0 cursor_rd [OF c1] l one e last_octet_iff [OF True, of a] unused_lt [of u]
          by (auto simp: parse_key_usage_def Let_def)
      next
        case False
        then show ?thesis using p sz c0 one unused_lt [of u] by (auto simp: parse_key_usage_def)
      qed
    next
      case two
      note c0 = cursor_rd [OF c [unfolded two]] note c1 = cursor_Cons(3) [OF c [unfolded two]]
      note c2 = cursor_Cons2 [OF c [unfolded two]]
      have lt: "i + 2 < e" using cursor_Cons(1) [OF c2] .
      have l: "rd raw (e - 1) = (Inr b :: byte parsed)" using cursor_last [OF c] two by simp
      show ?thesis
      proof (cases "unat u < 8")
        case True
        then show ?thesis
          using p sz c0 cursor_rd [OF c1] cursor_rd [OF c2] l two lt last_octet_iff [OF True, of b] unused_lt [of u]
          by (auto simp: parse_key_usage_def Let_def or.assoc)
      next
        case False
        then show ?thesis using p sz c0 two unused_lt [of u] by (auto simp: parse_key_usage_def)
      qed
    qed
  qed
qed

interpretation key_usage_grammar: extn_grammar key_usage_oid parse_key_usage
proof (unfold_locales, goal_cases)
  case (1 raw idx e bs seen f g)
  from 1(4) obtain i where p: "parse_data_element raw DER_BITSTRING idx e = Inr (i, e)"
    by (auto simp: parse_key_usage_def Let_def if_fail split del: if_split)
  from whole_element [OF 1(1) p] obtain x where x: "bs = der_tlv DER_BITSTRING x" "cursor raw i e x" .
  from 1(4) parse_key_usage_content [OF p x(2)] have l: "\<not> length x \<le> 1" "value_ok (Key_Usage (hd x) (tl x))"
    "g = f\<lparr>has_key_usage := True, key_usage_flags := key_usage_flags f OR bits_flags (tl x)\<rparr>"
    by (simp_all only: if_fail) (simp_all split: if_splits)
  then have "x = hd x # tl x" by (cases x) auto
  with l x show ?case
    by (intro exI [of _ "Key_Usage (hd x) (tl x)"]) (simp add: extn_view_def)
next
  case (2 raw idx e x seen f)
  from 2 obtain u bits where x: "x = Key_Usage u bits" by (auto simp: value_oid_cases)
  from whole_element_complete [of raw idx e DER_BITSTRING "u # bits"] 2(1) x obtain i where
    p: "parse_data_element raw DER_BITSTRING idx e = Inr (i, e)" and c: "cursor raw i e (u # bits)" by auto
  from 2(5) x have "value_ok (Key_Usage u bits)" "length bs = 1 \<or> length bs = 2 \<Longrightarrow> length bs \<le> 2 \<and> bs \<noteq> []" for bs :: "byte list"
    by auto
  then show ?case using parse_key_usage_content [OF p c, of f] 2(5) x
    by (auto simp: extn_view_def)
qed

section \<open>Key purposes\<close>

lemma key_purpose_step_tlv:
  assumes c: "cursor raw idx e (der_tlv DER_OID p @ rest)"
  shows "\<exists>k. key_purpose_step raw e (idx, flags) = Inr (k, add_purpose p flags) \<and> cursor raw k e rest"
proof -
  from parse_data_element_tlv [OF c] obtain j k where
    d: "parse_data_element raw DER_OID idx e = Inr (j, k)" and p: "cursor raw j k p" and r: "cursor raw k e rest" by metis
  have l: "k - j = 8 \<longleftrightarrow> length p = 8" using cursor_size [OF p] by (auto simp: word_unat_eq_iff)
  have "rd_bytes raw j 7 = (Inr (take 7 p) :: byte list parsed)" if "length p = 8"
    using cursor_take [OF p, of 7] that by simp
  moreover have "rd raw (k - 1) = (Inr (last p) :: byte parsed)" if "length p = 8"
    by (rule cursor_last [OF p]) (use that in auto)
  ultimately show ?thesis
    using d r l by (auto simp: key_purpose_step_def add_purpose_def oid_flag_def KP_OID_def)
qed

interpretation purpose_grammar: element_grammar key_purpose_step key_purpose_loop "\<lambda>e s. fst s < e" fst
  "purposes_inv flags0" "der_tlv DER_OID" "\<lambda>_. snd" "\<lambda>_ _. True" add_purpose for flags0
proof (unfold_locales, goal_cases)
  case (3 raw s e bs s')
  obtain i flags where s: "s = (i, flags)" by (cases s)
  with 3 obtain j k where "parse_data_element raw DER_OID i e = Inr (j, k)"
    by (auto simp: key_purpose_step_def split del: if_split)
  with 3(1) s obtain p rest where b: "bs = der_tlv DER_OID p @ rest"
    by (auto simp: parse_data_element_at)
  with key_purpose_step_tlv [of raw i e p rest flags] 3 s show ?case
    by (intro exI [of _ p] exI [of _ rest]) auto
next
  case (4 raw s e x rest)
  then show ?case using key_purpose_step_tlv [of raw "fst s" e x rest "snd s"] by (cases s) auto
qed simp_all

interpretation ext_key_usage_grammar: extn_grammar ext_key_usage_oid parse_ext_key_usage
proof (unfold_locales, goal_cases)
  case (1 raw idx e bs seen f g)
  let ?fl = "key_usage_flags f"
  from 1(4) obtain i flags where p: "parse_data_element raw DER_SEQUENCE idx e = Inr (i, e)"
    and q: "key_purpose_loop raw e (i, ?fl) = Inr (e, flags)"
    and g: "g = f\<lparr>key_usage_flags := flags, has_ext_key_usage := True\<rparr>"
    by (auto simp: parse_ext_key_usage_def if_fail split del: if_split)
  from whole_element [OF 1(1) p] obtain x where x: "bs = der_tlv DER_SEQUENCE x" "cursor raw i e x" .
  have "purposes_inv ?fl raw e (i, ?fl)"
    using cursor_le [OF x(2)] by (auto simp: purposes_inv_def intro!: exI [of _ 0])
  from purpose_grammar.loop_sound [OF _ this q] x(2) obtain ps where
    "x = concat (map (der_tlv DER_OID) ps)" "flags = fold add_purpose ps ?fl" by auto
  with x g show ?case by (intro exI [of _ "Key_Purposes ps"]) (simp add: extn_view_def)
next
  case (2 raw idx e x seen f)
  let ?fl = "key_usage_flags f"
  from 2 obtain ps where x: "x = Key_Purposes ps" by (auto simp: value_oid_cases)
  from whole_element_complete [of raw idx e DER_SEQUENCE "concat (map (der_tlv DER_OID) ps)"] 2(1) x obtain i where
    p: "parse_data_element raw DER_SEQUENCE idx e = Inr (i, e)" and
    c: "cursor raw i e (concat (map (der_tlv DER_OID) ps))" by auto
  have inv: "purposes_inv ?fl raw e (i, ?fl)"
    using cursor_le [OF c] by (auto simp: purposes_inv_def intro!: exI [of _ 0])
  have "ps = [] \<longrightarrow> \<not> fst (i, ?fl) < e" using cursor_done [OF c] by auto
  from purpose_grammar.loop_complete [OF _ inv _ this] c obtain t where
    "key_purpose_loop raw e (i, ?fl) = Inr t" "snd t = fold add_purpose ps ?fl" "fst t = e"
    by (auto simp: all_legal_stateless)
  with p x show ?case by (cases t) (simp add: parse_ext_key_usage_def extn_view_def)
qed

section \<open>Extensions\<close>

text \<open>
  An extension: one of the supported, or any other, of which only the object identifier and the bytes of
  the value are known. The flag is its criticality.
\<close>

datatype extension = Supported bool extn_value | Unknown bool "byte list" "byte list"

fun extension_oid :: "extension \<Rightarrow> byte list" where
  "extension_oid (Supported c x) = value_oid x"
| "extension_oid (Unknown c oid v) = oid"

fun extension_bytes :: "extension \<Rightarrow> byte list" where
  "extension_bytes (Supported c x) =
     der_tlv DER_SEQUENCE (der_tlv DER_OID (value_oid x) @ bool_bytes c @ der_tlv DER_OCTET_STRING (value_bytes x))"
| "extension_bytes (Unknown c oid v) =
     der_tlv DER_SEQUENCE (der_tlv DER_OID oid @ bool_bytes c @ der_tlv DER_OCTET_STRING v)"

text \<open>Basic constraints must be critical, key identifiers must not; an unknown one must not.\<close>

fun value_critical :: "extn_value \<Rightarrow> bool \<Rightarrow> bool" where
  "value_critical (Basic_Constraints ca n) c \<longleftrightarrow> c"
| "value_critical (Authority_Key k i n) c \<longleftrightarrow> \<not> c"
| "value_critical (Subject_Key k) c \<longleftrightarrow> \<not> c"
| "value_critical _ c \<longleftrightarrow> True"

definition supported_oids :: "byte list list" where
  "supported_oids = [basic_constraint_oid, akid_oid, skid_oid, key_usage_oid, ext_key_usage_oid]"

fun extension_ok :: "extension \<Rightarrow> bool" where
  "extension_ok (Supported c x) \<longleftrightarrow> value_ok x \<and> value_critical x c"
| "extension_ok (Unknown c oid v) \<longleftrightarrow> \<not> c \<and> oid \<notin> set supported_oids"

fun extension_info :: "extension \<Rightarrow> extn_info \<Rightarrow> extn_info" where
  "extension_info (Supported c x) r = value_upd x r"
| "extension_info (Unknown c oid v) r = r"

text \<open>Legal in a run of extensions: there is room, and the object identifier is new.\<close>

definition extension_legal :: "extension \<Rightarrow> byte list list \<times> extn_info \<Rightarrow> bool" where
  "extension_legal x a \<longleftrightarrow> length (fst a) < MAX_EXTN \<and> extension_oid x \<notin> set (fst a) \<and> extension_ok x"

definition extension_upd :: "extension \<Rightarrow> byte list list \<times> extn_info \<Rightarrow> byte list list \<times> extn_info" where
  "extension_upd x a = (fst a @ [extension_oid x], extension_info x (snd a))"

definition state_view :: "byte list \<Rightarrow> extn_state \<Rightarrow> byte list list \<times> extn_info" where
  "state_view raw = (\<lambda>(idx, seen, f). (map (\<lambda>(s, n). slice raw s (s + n)) seen, extn_view raw f))"

text \<open>The table, for a value of the extension it names.\<close>

lemma lookup_grammar:
  assumes "lookup_extn supported_etxns oid = Some s"
  shows "extn_grammar oid (parse_extn s)" "value_oid x = oid \<Longrightarrow> criticality_ok s c \<longleftrightarrow> value_critical x c"
proof -
  from assms show "extn_grammar oid (parse_extn s)"
    using basic_grammar.extn_grammar_axioms akid_grammar.extn_grammar_axioms skid_grammar.extn_grammar_axioms
      key_usage_grammar.extn_grammar_axioms ext_key_usage_grammar.extn_grammar_axioms
    by (auto simp: lookup_extn_def supported_etxns_def split: if_splits)
  assume "value_oid x = oid"
  with assms show "criticality_ok s c \<longleftrightarrow> value_critical x c"
    by (cases x) (auto simp: lookup_extn_def supported_etxns_def extn_oids criticality_ok_def split: if_splits)
qed

lemma lookup_none: "lookup_extn supported_etxns oid = None \<longleftrightarrow> oid \<notin> set supported_oids"
  by (auto simp: lookup_extn_def supported_etxns_def supported_oids_def)

lemma value_oid_supported: "value_oid x \<in> set supported_oids"
  by (cases x) (simp_all add: supported_oids_def)

text \<open>The header of an extension at a cursor.\<close>

lemma parse_extn_header_sound:
  assumes c: "cursor raw idx e bs" and p: "parse_extn_header raw idx e = Inr (os, oe, cr, v, xe)"
  obtains oid val rest where
    "bs = der_tlv DER_SEQUENCE (der_tlv DER_OID oid @ bool_bytes cr @ der_tlv DER_OCTET_STRING val) @ rest"
    "cursor raw os oe oid" "cursor raw v xe val" "cursor raw xe e rest"
proof -
  from p obtain i j where
    1: "parse_data_element raw DER_SEQUENCE idx e = Inr (i, xe)" and
    2: "parse_data_element raw DER_OID i xe = Inr (os, oe)" and
    3: "parse_default_bool raw oe xe = Inr (j, cr)" and
    4: "parse_data_element raw DER_OCTET_STRING j xe = Inr (v, xe)"
    by (auto simp: parse_extn_header_def if_fail split del: if_split)
  from 1 obtain x rest where x: "bs = der_tlv DER_SEQUENCE x @ rest" "cursor raw i xe x" "cursor raw xe e rest"
    unfolding parse_data_element_at [OF c] by blast
  from 2 obtain oid y where y: "x = der_tlv DER_OID oid @ y" "cursor raw os oe oid" "cursor raw oe xe y"
    unfolding parse_data_element_at [OF x(2)] by blast
  from parse_default_bool_sound [OF y(3) 3] obtain z where z: "y = bool_bytes cr @ z" "cursor raw j xe z" .
  from whole_element [OF z(2) 4] obtain val where "z = der_tlv DER_OCTET_STRING val" "cursor raw v xe val" .
  with x y z that show ?thesis by simp
qed

lemma parse_extn_header_complete:
  assumes c: "cursor raw idx e (der_tlv DER_SEQUENCE (der_tlv DER_OID oid @ bool_bytes cr @ der_tlv DER_OCTET_STRING val) @ rest)"
  obtains os oe v xe where "parse_extn_header raw idx e = Inr (os, oe, cr, v, xe)"
    "cursor raw os oe oid" "cursor raw v xe val" "cursor raw xe e rest"
proof -
  from parse_data_element_tlv [OF c] obtain i xe where
    1: "parse_data_element raw DER_SEQUENCE idx e = Inr (i, xe)"
      "cursor raw i xe (der_tlv DER_OID oid @ bool_bytes cr @ der_tlv DER_OCTET_STRING val)" "cursor raw xe e rest" by metis
  from parse_data_element_tlv [OF 1(2)] obtain os oe where
    2: "parse_data_element raw DER_OID i xe = Inr (os, oe)" "cursor raw os oe oid"
      "cursor raw oe xe (bool_bytes cr @ der_tlv DER_OCTET_STRING val)" by metis
  have "\<not> cr \<Longrightarrow> absent DER_BOOLEAN (der_tlv DER_OCTET_STRING val)" by (simp add: der_tags)
  from parse_default_bool_complete [OF 2(3) this] obtain j where
    3: "parse_default_bool raw oe xe = Inr (j, cr)" "cursor raw j xe (der_tlv DER_OCTET_STRING val)" by metis
  from whole_element_complete [OF 3(2)] obtain v where
    4: "parse_data_element raw DER_OCTET_STRING j xe = Inr (v, xe)" "cursor raw v xe val" by metis
  from 1 2 3 4 that show ?thesis by (simp add: parse_extn_header_def)
qed

text \<open>One iteration of the loop, in terms of the view.\<close>

lemma extns_inv_view:
  assumes i: "extns_inv f0 start raw e (idx, seen, f)" and v: "valid_end raw e"
  shows "extn_inv raw (fst (state_view raw (idx, seen, f))) f"
    "length (fst (state_view raw (idx, seen, f))) = length seen"
    "os \<le> oe \<Longrightarrow> oe \<le> e \<Longrightarrow>
     find_oid raw seen (os, oe - os) = Inr (slice raw os oe \<in> set (fst (state_view raw (idx, seen, f))))"
proof -
  from i obtain hs where hs: "extn_chain raw e start idx hs" and seen: "seen = map (\<lambda>(os, oe, _). (os, oe - os)) hs"
    and inv: "extn_inv raw (map (hdr_oid raw) hs) f" by (auto simp: extns_inv_def)
  have view: "fst (state_view raw (idx, seen, f)) = map (hdr_oid raw) hs"
    using seen_slices [OF hs] by (simp add: state_view_def seen)
  show "extn_inv raw (fst (state_view raw (idx, seen, f))) f" using inv view by simp
  show "length (fst (state_view raw (idx, seen, f))) = length seen" by (simp add: state_view_def)
  show "find_oid raw seen (os, oe - os) = Inr (slice raw os oe \<in> set (fst (state_view raw (idx, seen, f))))"
    if "os \<le> oe" "oe \<le> e"
    using find_oid_valid [OF v extn_chain_ranges [OF hs] that] seen by (simp add: state_view_def)
qed

lemma extension_step_header:
  assumes i: "extns_inv f0 start raw e (idx, seen, f)" and v: "valid_end raw e"
    and h: "parse_extn_header raw idx e = Inr (os, oe, c, x, xe)"
  defines "oids \<equiv> fst (state_view raw (idx, seen, f))"
  shows "extension_step raw e (idx, seen, f) =
    (if length oids \<ge> MAX_EXTN then Inl (Code EXCEEDS_MAX_EXTNS)
     else if slice raw os oe \<in> set oids then Inl (Code DUPLICATE_EXTNS)
     else case lookup_extn supported_etxns (slice raw os oe) of
       None \<Rightarrow> if c then Inl (Code UNRECOGNIZED_CRITICAL_EXTN) else Inr (xe, seen @ [(os, oe - os)], f)
     | Some s \<Rightarrow>
         if criticality_ok s c then check_ok (parse_extn s raw x xe f) (\<lambda>g. Inr (xe, seen @ [(os, oe - os)], g))
         else Inl (Code INVALID_CRITICALITY))"
proof -
  from parse_extn_header_progress [OF h] have le: "os \<le> oe" "oe \<le> e" by auto
  note view = extns_inv_view [OF i v]
  have assoc: "check_ok (check_ok m (\<lambda>flds. Inr (False, flds))) (\<lambda>(fail, flds). if fail then k else h flds)
      = check_ok m h" for m :: "x509Fields parsed" and k and h :: "x509Fields \<Rightarrow> extn_state parsed"
    by (cases m) simp_all
  show ?thesis
    using view(2) view(3) [OF le] h
    by (auto simp: extension_step_def Let_def oids_def add_oid_def dispatch_lookup [OF valid_end_mono [OF v le(2)] le(1)]
        assoc split: option.splits)
qed

lemma slice_after: "(os :: uinta) + (oe - os) = oe"
  by simp

lemma extension_step_sound:
  assumes c: "cursor raw (fst s) e bs" and i: "extns_inv f0 start raw e s" and p: "extension_step raw e s = Inr s'"
  shows "\<exists>x rest. bs = extension_bytes x @ rest \<and> cursor raw (fst s') e rest \<and>
    extension_legal x (state_view raw s) \<and> state_view raw s' = extension_upd x (state_view raw s)"
proof -
  obtain idx seen f where s: "s = (idx, seen, f)" by (cases s)
  note v = cursor_valid [OF c]
  from p s obtain os oe cr x xe where h: "parse_extn_header raw idx e = Inr (os, oe, cr, x, xe)"
    by (auto simp: extension_step_def if_fail split del: if_split)
  from parse_extn_header_sound [OF c [unfolded s fst_conv] h] obtain oid val rest where
    b: "bs = der_tlv DER_SEQUENCE (der_tlv DER_OID oid @ bool_bytes cr @ der_tlv DER_OCTET_STRING val) @ rest" and
    o: "cursor raw os oe oid" and va: "cursor raw x xe val" and r: "cursor raw xe e rest" .
  let ?oids = "fst (state_view raw (idx, seen, f))"
  note view = extns_inv_view [OF i [unfolded s] v]
  have so: "slice raw os oe = oid" using cursor_slice [OF o] .
  note st = p [unfolded s extension_step_header [OF i [unfolded s] v h] so]
  then have room: "length ?oids < MAX_EXTN" "oid \<notin> set ?oids" by (auto split: if_splits)
  have seen': "map (\<lambda>(s, n). slice raw s (s + n)) (seen @ [(os, oe - os)]) = ?oids @ [oid]"
    by (simp add: state_view_def so)
  show ?thesis
  proof (cases "lookup_extn supported_etxns oid")
    case None
    with st room have "\<not> cr" "s' = (xe, seen @ [(os, oe - os)], f)" by (auto simp: if_fail split del: if_split)
    then show ?thesis
      using b r room None s seen' lookup_none
      by (intro exI [of _ "Unknown cr oid val"] exI [of _ rest])
        (simp add: extension_legal_def extension_upd_def state_view_def)
  next
    case (Some t)
    with st room obtain g where g: "criticality_ok t cr" "parse_extn t raw x xe f = Inr g"
      "s' = (xe, seen @ [(os, oe - os)], g)" by (auto simp: if_fail split: if_splits)
    from extn_grammar.parse_sound [OF lookup_grammar(1) [OF Some] va view(1) room(2) g(2)] obtain y where
      "value_oid y = oid" "value_ok y" "val = value_bytes y" "extn_view raw g = value_upd y (extn_view raw f)" by blast
    then show ?thesis
      using b r room g s seen' lookup_grammar(2) [OF Some]
      by (intro exI [of _ "Supported cr y"] exI [of _ rest])
        (simp add: extension_legal_def extension_upd_def state_view_def)
  qed
qed

lemma extension_step_complete:
  assumes c: "cursor raw (fst s) e (extension_bytes x @ rest)" and i: "extns_inv f0 start raw e s"
    and l: "extension_legal x (state_view raw s)"
  shows "\<exists>s'. extension_step raw e s = Inr s' \<and> cursor raw (fst s') e rest \<and>
    state_view raw s' = extension_upd x (state_view raw s)"
proof -
  obtain idx seen f where s: "s = (idx, seen, f)" by (cases s)
  note v = cursor_valid [OF c]
  obtain cr oid val where x: "extension_bytes x =
      der_tlv DER_SEQUENCE (der_tlv DER_OID oid @ bool_bytes cr @ der_tlv DER_OCTET_STRING val)" "extension_oid x = oid"
    "x = Unknown cr oid val \<or> (\<exists>y. x = Supported cr y \<and> value_oid y = oid \<and> val = value_bytes y)" by (cases x) auto
  from parse_extn_header_complete [OF c [unfolded x(1) s fst_conv]] obtain os oe w xe where
    h: "parse_extn_header raw idx e = Inr (os, oe, cr, w, xe)" and
    o: "cursor raw os oe oid" and va: "cursor raw w xe val" and r: "cursor raw xe e rest" by metis
  let ?oids = "fst (state_view raw (idx, seen, f))"
  note view = extns_inv_view [OF i [unfolded s] v]
  have so: "slice raw os oe = oid" using cursor_slice [OF o] .
  note st = extension_step_header [OF i [unfolded s] v h, unfolded so]
  from l s x(2) have room: "length ?oids < MAX_EXTN" "oid \<notin> set ?oids" "extension_ok x"
    by (simp_all add: extension_legal_def)
  have seen': "map (\<lambda>(s, n). slice raw s (s + n)) (seen @ [(os, oe - os)]) = ?oids @ [oid]"
    by (simp add: state_view_def so)
  from x(3) show ?thesis
  proof (elim disjE exE conjE)
    assume u: "x = Unknown cr oid val"
    with room have "lookup_extn supported_etxns oid = None" "\<not> cr" by (simp_all add: lookup_none)
    with st room r s u seen' show ?thesis by (simp add: extension_upd_def state_view_def)
  next
    fix y assume y: "x = Supported cr y" "value_oid y = oid" "val = value_bytes y"
    then obtain t where t: "lookup_extn supported_etxns oid = Some t"
      using lookup_none [of oid] value_oid_supported [of y] by auto
    from extn_grammar.parse_complete [OF lookup_grammar(1) [OF t] va [unfolded y(3)] view(1) room(2) y(2)] room(3) y(1)
    obtain g where g: "parse_extn t raw w xe f = Inr g" "extn_view raw g = value_upd y (extn_view raw f)" by auto
    have "criticality_ok t cr" using lookup_grammar(2) [OF t y(2)] room(3) y(1) by simp
    with st room r s y seen' t g show ?thesis by (simp add: extension_upd_def state_view_def)
  qed
qed

interpretation extension_run: element_grammar extension_step extension_loop "\<lambda>e s. fst s < e" fst
  "extns_inv f0 start" extension_bytes state_view extension_legal extension_upd for f0 start
proof (unfold_locales, goal_cases)
  case (1 x)
  show ?case by (cases x) simp_all
next
  case (3 raw s e bs s')
  then show ?case by (rule extension_step_sound)
next
  case (4 raw s e x rest)
  then show ?case by (rule extension_step_complete)
qed simp

end
