(* ===== verification/Certificate_Grammar.thy ===== *)
theory Certificate_Grammar
  imports Extension_Grammar
begin

text \<open>
  The grammar of the certificates: the abstract syntax \<open>certificate\<close> with its bytes
  (\<open>certificate_bytes\<close>) and its side conditions (\<open>certificate_ok\<close>), and the proof that every stage of
  \<open>parse_x509\<close> accepts exactly the bytes of its part. \<open>describes\<close> relates the index ranges the
  parser leaves to the parts of the certificate.
\<close>

section \<open>The extensions of a certificate\<close>

definition extensions_ok :: "extension list \<Rightarrow> bool" where
  "extensions_ok es \<longleftrightarrow>
     length es \<le> MAX_EXTN \<and> distinct (map extension_oid es) \<and> (\<forall>x\<in>set es. extension_ok x)"

definition extensions_info :: "extension list \<Rightarrow> extn_info" where
  "extensions_info es = fold extension_info es no_info"

lemma all_legal_extensions:
  "all_legal extension_legal extension_upd es (seen, r) \<longleftrightarrow>
     (es = [] \<or> length seen + length es \<le> MAX_EXTN) \<and> distinct (map extension_oid es) \<and>
     set (map extension_oid es) \<inter> set seen = {} \<and> (\<forall>x\<in>set es. extension_ok x)"
  by (induction es arbitrary: seen r) (auto simp: extension_legal_def extension_upd_def)

lemma fold_extension_upd: "snd (fold extension_upd es a) = fold extension_info es (snd a)"
  by (induction es arbitrary: a) (simp_all add: extension_upd_def)

text \<open>No extensions, or a sequence of them, which may be empty.\<close>

definition extensions_bytes :: "extension list option \<Rightarrow> byte list" where
  "extensions_bytes es =
     opt_tlv DER_EXPLICIT_3 (map_option (\<lambda>es. der_tlv DER_SEQUENCE (concat (map extension_bytes es))) es)"

definition listed :: "extension list option \<Rightarrow> extension list" where
  "listed es = (case es of None \<Rightarrow> [] | Some es \<Rightarrow> es)"

lemma extns_inv_start:
  "i \<le> e \<Longrightarrow> extns_inv (assign_default_extensions f) i raw e (i, [], assign_default_extensions f)"
  by (auto simp: extns_inv_def extn_inv_assign accepted_extns_def intro: chain_start)

lemma state_view_start: "state_view raw (i, [], assign_default_extensions f) = ([], no_info)"
  by (simp add: state_view_def extn_view_default)

lemma opt_at_none: "opt_at raw x i e \<Longrightarrow> x = None \<longleftrightarrow> e = IDX_NONE"
  by (cases x) (auto simp: opt_at_def)

lemma parse_extensions_sound:
  assumes c: "cursor raw idx pe bs" and p: "parse_extensions raw idx pe f = Inr (i', g)"
  obtains es rest where "bs = extensions_bytes es @ rest" "cursor raw i' pe rest" "extensions_ok (listed es)"
    "extn_view raw g = extensions_info (listed es)" "same_core f g"
proof -
  note v = cursor_valid [OF c] note le = cursor_le [OF c]
  from safe_InrD [OF parse_extensions_safe [OF v le, of f] p] have core: "same_core f g"
    by (auto simp: extensions_of_def)
  let ?f = "assign_default_extensions f"
  from p obtain j k where o: "parse_optional_data raw DER_EXPLICIT_3 idx pe IDX_NONE = Inr (j, k)"
    by (auto simp: parse_extensions_def)
  from parse_optional_data_sound [OF c o] obtain x rest where x: "bs = opt_tlv DER_EXPLICIT_3 x @ rest"
    "opt_at raw x j k" "k = IDX_NONE \<longrightarrow> j = idx" "cursor raw (skip_to j k) pe rest" .
  show ?thesis
  proof (cases x)
    case None
    with x p o have "i' = j" "g = ?f" "k = IDX_NONE"
      by (auto simp: parse_extensions_def Let_def opt_at_def)
    with x None core that [of None rest] show ?thesis
      by (simp add: extensions_bytes_def listed_def extensions_ok_def extensions_info_def extn_view_default skip_to_def)
  next
    case (Some y)
    with x have k: "k \<noteq> IDX_NONE" "cursor raw j k y" by (auto simp: opt_at_def)
    from p o k(1) obtain m sn where q: "parse_data_element raw DER_SEQUENCE j k = Inr (m, k)"
      and l: "extension_loop raw k (m, [], ?f) = Inr (k, sn, g)" and i': "i' = k"
      by (auto simp: parse_extensions_def Let_def if_fail split del: if_split)
    from whole_element [OF k(2) q] obtain z where z: "y = der_tlv DER_SEQUENCE z" "cursor raw m k z" .
    from extension_run.loop_sound [OF _ extns_inv_start [OF cursor_le [OF z(2)]] l] z(2) obtain es where
      es: "z = concat (map extension_bytes es)" "all_legal extension_legal extension_upd es ([], no_info)"
        "state_view raw (k, sn, g) = fold extension_upd es ([], no_info)"
      by (auto simp: state_view_start)
    have "extn_view raw g = extensions_info es"
      using arg_cong [OF es(3), of snd] by (simp add: fold_extension_upd state_view_def extensions_info_def)
    moreover have "extensions_ok es" using es(2) by (auto simp: all_legal_extensions extensions_ok_def)
    ultimately show ?thesis
      using x Some z es i' k core that [of "Some es" rest]
      by (simp add: extensions_bytes_def listed_def skip_to_def)
  qed
qed

lemma parse_extensions_complete:
  assumes c: "cursor raw idx pe (extensions_bytes es @ rest)" and a: "es = None \<Longrightarrow> absent DER_EXPLICIT_3 rest"
    and ok: "extensions_ok (listed es)"
  obtains i' g where "parse_extensions raw idx pe f = Inr (i', g)" "cursor raw i' pe rest"
    "extn_view raw g = extensions_info (listed es)" "same_core f g"
proof -
  note v = cursor_valid [OF c] note le = cursor_le [OF c]
  have core: "same_core f g" if "parse_extensions raw idx pe f = Inr (i', g)" for i' g
    using safe_InrD [OF parse_extensions_safe [OF v le, of f] that] by (auto simp: extensions_of_def)
  let ?f = "assign_default_extensions f"
  let ?x = "map_option (\<lambda>es. der_tlv DER_SEQUENCE (concat (map extension_bytes es))) es"
  have a': "?x = None \<Longrightarrow> absent DER_EXPLICIT_3 rest" using a by (cases es) auto
  from parse_optional_data_complete [OF c [unfolded extensions_bytes_def] a'] obtain j k where
    o: "parse_optional_data raw DER_EXPLICIT_3 idx pe IDX_NONE = Inr (j, k)" "opt_at raw ?x j k"
      "cursor raw (skip_to j k) pe rest" by metis
  show ?thesis
  proof (cases es)
    case None
    with o have "parse_extensions raw idx pe f = Inr (j, ?f)" "skip_to j k = j"
      by (auto simp: parse_extensions_def Let_def opt_at_def skip_to_def)
    with o None that [OF this(1)] core show ?thesis
      by (simp add: listed_def extensions_info_def extn_view_default)
  next
    case (Some xs)
    with o have k: "k \<noteq> IDX_NONE" "cursor raw j k (der_tlv DER_SEQUENCE (concat (map extension_bytes xs)))"
      by (auto simp: opt_at_def)
    from whole_element_complete [OF k(2)] obtain m where
      q: "parse_data_element raw DER_SEQUENCE j k = Inr (m, k)" "cursor raw m k (concat (map extension_bytes xs))" by metis
    have "all_legal extension_legal extension_upd xs (state_view raw (m, [], ?f))"
      using ok Some by (auto simp: state_view_start all_legal_extensions extensions_ok_def listed_def)
    moreover have "xs = [] \<longrightarrow> \<not> fst (m, [] :: seen_oids, ?f) < k" using cursor_done [OF q(2)] by auto
    ultimately have "\<exists>t. extension_loop raw k (m, [], ?f) = Inr t \<and>
        state_view raw t = fold extension_upd xs (state_view raw (m, [], ?f)) \<and> fst t = k \<and> extns_inv ?f m raw k t"
      using q(2) extns_inv_start [OF cursor_le [OF q(2)]] by (intro extension_run.loop_complete) simp_all
    then obtain t where t: "extension_loop raw k (m, [], ?f) = Inr t" "fst t = k"
      "state_view raw t = fold extension_upd xs ([], no_info)" by (auto simp: state_view_start)
    obtain sn g where g: "t = (k, sn, g)" using t(2) by (cases t) auto
    have r: "parse_extensions raw idx pe f = Inr (k, g)"
      using o k q t g by (simp add: parse_extensions_def Let_def)
    have "extn_view raw g = extensions_info xs"
      using arg_cong [OF t(3), of snd] g by (simp add: fold_extension_upd state_view_def extensions_info_def)
    with r o k Some that [OF r] core show ?thesis by (simp add: listed_def skip_to_def)
  qed
qed

section \<open>Certificates\<close>

text \<open>
  A certificate: of an element its contents, of a time the date as it is written, of the key and the
  signature their octets.
\<close>

record certificate =
  c_serial :: "byte list"
  c_sig_alg :: alg_id
  c_issuer :: "attribute list list"
  c_from :: date
  c_until :: date
  c_subject :: "attribute list list"
  c_key_alg :: alg_id
  c_key :: "byte list"
  c_issuer_uid :: "byte list option"
  c_subject_uid :: "byte list option"
  c_extns :: "extension list option"
  c_signature :: "byte list"

definition version_bytes :: "byte list" where
  "version_bytes = der_tlv DER_EXPLICIT_0 (der_tlv DER_INTEGER [2])"

definition validity_bytes :: "certificate \<Rightarrow> byte list" where
  "validity_bytes c = der_tlv DER_SEQUENCE (date_bytes (c_from c) @ date_bytes (c_until c))"

definition key_info_bytes :: "certificate \<Rightarrow> byte list" where
  "key_info_bytes c = der_tlv DER_SEQUENCE (alg_id_bytes (c_key_alg c) @ der_tlv DER_BITSTRING (0 # c_key c))"

definition tbs_bytes :: "certificate \<Rightarrow> byte list" where
  "tbs_bytes c = der_tlv DER_SEQUENCE (version_bytes @ der_tlv DER_INTEGER (c_serial c) @ alg_id_bytes (c_sig_alg c) @
     name_bytes (c_issuer c) @ validity_bytes c @ name_bytes (c_subject c) @ key_info_bytes c @
     opt_tlv DER_IMPLICIT_1 (c_issuer_uid c) @ opt_tlv DER_IMPLICIT_2 (c_subject_uid c) @
     extensions_bytes (c_extns c))"

definition certificate_bytes :: "certificate \<Rightarrow> byte list" where
  "certificate_bytes c = der_tlv DER_SEQUENCE
     (tbs_bytes c @ alg_id_bytes (c_sig_alg c) @ der_tlv DER_BITSTRING (0 # c_signature c))"

definition certificate_ok :: "certificate \<Rightarrow> bool" where
  "certificate_ok c \<longleftrightarrow> name_ok (c_issuer c) \<and> name_ok (c_subject c) \<and> date_ok (c_from c) \<and> date_ok (c_until c) \<and>
     extensions_ok (listed (c_extns c))"

text \<open>The fields say of the buffer what the certificate is.\<close>

definition describes_core :: "byte list \<Rightarrow> certificate \<Rightarrow> x509Fields \<Rightarrow> bool" where
  "describes_core raw c g \<longleftrightarrow>
     slice raw (signed_data_start g) (signed_data_end g) = tbs_bytes c \<and>
     slice raw (cert_serial_start g) (cert_serial_end g) = c_serial c \<and>
     slice raw (sig_id_start g) (sig_id_end g) = alg_id_bytes (c_sig_alg c) \<and>
     slice raw (sig_oid_start g) (sig_oid_end g) = fst (c_sig_alg c) \<and>
     not_before g = secs_read (c_from c) \<and> not_after g = secs_read (c_until c) \<and>
     slice raw (pub_key_id_start g) (pub_key_id_end g) = alg_id_bytes (c_key_alg c) \<and>
     slice raw (pub_key_oid_start g) (pub_key_oid_end g) = fst (c_key_alg c) \<and>
     slice raw (pub_key_oid_end g) (pub_key_id_end g) = snd (c_key_alg c) \<and>
     slice raw (pub_key_start g) (pub_key_end g) = c_key c"

definition describes :: "byte list \<Rightarrow> certificate \<Rightarrow> x509Fields \<Rightarrow> bool" where
  "describes raw c g \<longleftrightarrow>
     describes_core raw c g \<and> slice raw (sig_start g) (sig_end g) = c_signature c \<and>
     extn_view raw g = extensions_info (listed (c_extns c))"

lemma describes_core_same:
  assumes "same_core f g"
  shows "describes_core raw c g = describes_core raw c f"
proof -
  have s: "sel (assign_default_extensions f) = sel (assign_default_extensions g)" for sel :: "x509Fields \<Rightarrow> 'a"
    using assms by (simp add: same_core_def)
  show ?thesis
    using s [of signed_data_start] s [of signed_data_end] s [of sig_id_start] s [of sig_id_end]
      s [of sig_oid_start] s [of sig_oid_end] s [of cert_serial_start] s [of cert_serial_end]
      s [of not_before] s [of not_after] s [of pub_key_id_start] s [of pub_key_id_end]
      s [of pub_key_oid_start] s [of pub_key_oid_end] s [of pub_key_start] s [of pub_key_end]
    by (simp add: assign_default_extensions_def describes_core_def)
qed

lemma describes_signature:
  "describes_core raw c (g\<lparr>sig_end := e, sig_start := s\<rparr>) = describes_core raw c g"
  "extn_view raw (g\<lparr>sig_end := e, sig_start := s\<rparr>) = extn_view raw g"
  by (simp_all add: describes_core_def extn_view_def)

section \<open>The stages of the parser accept the parts of a certificate\<close>

lemma cursor_part: "cursor raw i pe (x @ rest) \<Longrightarrow> cursor raw e pe rest \<Longrightarrow> i \<le> e \<and> slice raw i e = x"
proof -
  assume c: "cursor raw i pe (x @ rest)" and r: "cursor raw e pe rest"
  note a = cursor_append [OF c]
  have "i + of_nat (length x) = e" using cursor_end_unique [OF a(2) r] .
  with a show ?thesis by (simp add: cursor_slice)
qed

definition version_check :: "byte list \<Rightarrow> uinta \<Rightarrow> uinta \<Rightarrow> unit parsed" where
  "version_check raw i e =
     (if e - i \<noteq> 1 then Inl (Code INVALID_VERSION)
      else check_ok (rd raw i) (\<lambda>b. if b \<noteq> X509_ACCEPTED_VERSION then Inl (Code INVALID_VERSION) else Inr ()))"

lemma version_check_iff: "version_check raw i e = Inr () \<longleftrightarrow> e - i = 1 \<and> rd raw i = (Inr 2 :: byte parsed)"
  by (auto simp: version_check_def X509_ACCEPTED_VERSION_def if_fail split: if_splits sum.splits)

lemma parse_cert_head_sound:
  assumes c: "cursor raw 0 sz bs" and p: "parse_cert_head raw sz f = Inr (idx, ce, te, g)"
  obtains s y rest where "bs = der_tlv DER_SEQUENCE (der_tlv DER_SEQUENCE (version_bytes @ y) @ rest)" "ce = sz"
    "cursor raw idx te y" "cursor raw te sz rest" "slice raw s te = der_tlv DER_SEQUENCE (version_bytes @ y)"
    "g = f\<lparr>signed_data_start := s, signed_data_end := te\<rparr>"
proof -
  from p obtain s i j m where
    1: "parse_data_element raw DER_SEQUENCE 0 sz = Inr (s, sz)" and
    2: "parse_data_element raw DER_SEQUENCE s sz = Inr (i, te)" and
    3: "parse_data_element raw DER_EXPLICIT_0 i te = Inr (j, idx)" and
    4: "parse_data_element raw DER_INTEGER j idx = Inr (m, idx)" and
    5: "version_check raw m idx = Inr ()" and
    g: "ce = sz" "g = f\<lparr>signed_data_start := s, signed_data_end := te\<rparr>"
    unfolding parse_cert_head_def version_check_def [symmetric]
    by (auto simp: Let_def if_fail split del: if_split)
  from 5 have v: "idx - m = 1" "rd raw m = (Inr 2 :: byte parsed)" by (simp_all add: version_check_iff)
  from whole_element [OF c 1] obtain x where x: "bs = der_tlv DER_SEQUENCE x" "cursor raw s sz x" .
  from 2 obtain t rest where t: "x = der_tlv DER_SEQUENCE t @ rest" "cursor raw i te t" "cursor raw te sz rest"
    unfolding parse_data_element_at [OF x(2)] by blast
  from 3 obtain u y where u: "t = der_tlv DER_EXPLICIT_0 u @ y" "cursor raw j idx u" "cursor raw idx te y"
    unfolding parse_data_element_at [OF t(2)] by blast
  from whole_element [OF u(2) 4] obtain w where w: "u = der_tlv DER_INTEGER w" "cursor raw m idx w" .
  have "length w = 1" using cursor_size [OF w(2)] v(1) by simp
  then obtain b where b: "w = [b]" by (cases w) auto
  then have "w = [2]" using cursor_rd [OF w(2) [unfolded b]] v(2) by simp
  with x t u w g cursor_part [OF x(2) [unfolded t(1)] t(3)] that [of y rest s] show ?thesis by (simp add: version_bytes_def)
qed

lemma parse_cert_head_complete:
  assumes c: "cursor raw 0 sz (der_tlv DER_SEQUENCE (der_tlv DER_SEQUENCE (version_bytes @ y) @ rest))"
  obtains s idx te where "parse_cert_head raw sz f = Inr (idx, sz, te, f\<lparr>signed_data_start := s, signed_data_end := te\<rparr>)"
    "cursor raw idx te y" "cursor raw te sz rest" "slice raw s te = der_tlv DER_SEQUENCE (version_bytes @ y)"
proof -
  from whole_element_complete [OF c] obtain s where
    1: "parse_data_element raw DER_SEQUENCE 0 sz = Inr (s, sz)"
      "cursor raw s sz (der_tlv DER_SEQUENCE (version_bytes @ y) @ rest)" by metis
  from parse_data_element_tlv [OF 1(2)] obtain i te where
    2: "parse_data_element raw DER_SEQUENCE s sz = Inr (i, te)" "cursor raw i te (version_bytes @ y)"
      "cursor raw te sz rest" "slice raw s te = der_tlv DER_SEQUENCE (version_bytes @ y)" by metis
  from parse_data_element_tlv [OF 2(2) [unfolded version_bytes_def]] obtain j idx where
    3: "parse_data_element raw DER_EXPLICIT_0 i te = Inr (j, idx)" "cursor raw j idx (der_tlv DER_INTEGER [2])"
      "cursor raw idx te y" by metis
  from whole_element_complete [OF 3(2)] obtain m where
    4: "parse_data_element raw DER_INTEGER j idx = Inr (m, idx)" "cursor raw m idx [2]" by metis
  have v: "version_check raw m idx = Inr ()"
    using cursor_size_iff [OF 4(2), of 1] cursor_rd [OF 4(2)] by (auto simp: version_check_iff)
  have "parse_cert_head raw sz f = Inr (idx, sz, te, f\<lparr>signed_data_start := s, signed_data_end := te\<rparr>)"
    unfolding parse_cert_head_def version_check_def [symmetric]
    by (simp add: Let_def 1(1) 2(1) 3(1) 4(1) v)
  from this 3(3) 2(3,4) show ?thesis by (rule that)
qed

lemma parse_time_sound_at:
  assumes "cursor raw idx pe bs" "parse_time raw idx pe = Inr (i', ts)"
  obtains d rest where "bs = date_bytes d @ rest" "cursor raw i' pe rest" "date_ok d" "ts = secs_read d"
  using assms(2) that unfolding parse_time_at [OF assms(1)] by blast

lemma parse_time_complete_at:
  assumes c: "cursor raw idx pe (date_bytes d @ rest)" and d: "date_ok d"
  obtains i' where "parse_time raw idx pe = Inr (i', secs_read d)" "cursor raw i' pe rest"
  by (rule parse_time_complete [OF c d])

lemma parse_alg_id_complete:
  assumes c: "cursor raw idx pe (alg_id_bytes a @ rest)"
  obtains e os oe where "parse_alg_id raw idx pe = Inr (e, idx, e, os, oe)" "cursor raw e pe rest"
    "slice raw idx e = alg_id_bytes a" "cursor raw os oe (fst a)" "cursor raw oe e (snd a)"
proof -
  obtain oid params where a: "a = (oid, params)" by (cases a)
  have c': "cursor raw idx pe (der_tlv DER_SEQUENCE (der_tlv DER_OID oid @ params) @ rest)"
    using c by (simp add: alg_id_bytes_def a)
  from parse_data_element_tlv [OF c'] obtain i e where
    1: "parse_data_element raw DER_SEQUENCE idx pe = Inr (i, e)" "cursor raw i e (der_tlv DER_OID oid @ params)"
      "cursor raw e pe rest" by metis
  from parse_data_element_tlv [OF 1(2)] obtain os oe where
    2: "parse_data_element raw DER_OID i e = Inr (os, oe)" "cursor raw os oe oid" "cursor raw oe e params" by metis
  from 1 2 a that cursor_part [OF c 1(3)] show ?thesis by (simp add: parse_alg_id_def)
qed

lemma parse_issuer_validity_sound:
  assumes c: "cursor raw idx te bs" and p: "parse_issuer_validity raw idx te f = Inr (i', g)"
  obtains serial a n d1 d2 rest ss se ids ide os oe where
    "bs = der_tlv DER_INTEGER serial @ alg_id_bytes a @ name_bytes n @
       der_tlv DER_SEQUENCE (date_bytes d1 @ date_bytes d2) @ rest"
    "cursor raw i' te rest" "name_ok n" "date_ok d1" "date_ok d2"
    "cursor raw ss se serial" "slice raw ids ide = alg_id_bytes a" "cursor raw os oe (fst a)"
    "g = f\<lparr>cert_serial_end := se, cert_serial_start := ss, sig_id_start := ids, sig_id_end := ide,
       sig_oid_start := os, sig_oid_end := oe, not_before := secs_read d1, not_after := secs_read d2\<rparr>"
proof -
  from p obtain ss se i1 ids ide os oe i2 j i3 t0 t1 where
    1: "parse_data_element raw DER_INTEGER idx te = Inr (ss, se)" and
    2: "parse_alg_id raw se te = Inr (i1, ids, ide, os, oe)" and
    3: "parse_name raw i1 te = Inr i2" and
    4: "parse_data_element raw DER_SEQUENCE i2 te = Inr (j, i')" and
    5: "parse_time raw j i' = Inr (i3, t0)" and
    6: "parse_time raw i3 i' = Inr (i', t1)" and
    g: "g = f\<lparr>cert_serial_end := se, cert_serial_start := ss, sig_id_start := ids, sig_id_end := ide,
       sig_oid_start := os, sig_oid_end := oe, not_before := t0, not_after := t1\<rparr>"
    by (auto simp: parse_issuer_validity_def Let_def if_fail split del: if_split)
  from 1 obtain serial r1 where r1: "bs = der_tlv DER_INTEGER serial @ r1" "cursor raw ss se serial" "cursor raw se te r1"
    unfolding parse_data_element_at [OF c] by blast
  from 2 obtain oid params r2 where r2: "r1 = alg_id_bytes (oid, params) @ r2" "cursor raw i1 te r2" "ids = se" "ide = i1"
    "cursor raw os oe oid" unfolding parse_alg_id_at [OF r1(3)] by blast
  from parse_name_sound [OF r2(2) 3] obtain n r3 where r3: "r2 = name_bytes n @ r3" "cursor raw i2 te r3" "name_ok n" .
  from 4 obtain x r4 where r4: "r3 = der_tlv DER_SEQUENCE x @ r4" "cursor raw j i' x" "cursor raw i' te r4"
    unfolding parse_data_element_at [OF r3(2)] by blast
  from parse_time_sound_at [OF r4(2) 5] obtain d1 x1 where d1: "x = date_bytes d1 @ x1" "cursor raw i3 i' x1" "date_ok d1"
    "t0 = secs_read d1" .
  from parse_time_sound_at [OF d1(2) 6] obtain d2 x2 where d2: "x1 = date_bytes d2 @ x2" "cursor raw i' i' x2" "date_ok d2"
    "t1 = secs_read d2" .
  have "x2 = []" using cursor_done [OF d2(2)] by simp
  with r1 r2 r3 r4 d1 d2 g cursor_part [OF r1(3) [unfolded r2(1)] r2(2)]
    that [of serial "(oid, params)" n d1 d2 r4 ss se ids ide os oe] show ?thesis by simp
qed

lemma parse_issuer_validity_complete:
  assumes c: "cursor raw idx te (der_tlv DER_INTEGER serial @ alg_id_bytes a @ name_bytes n @
      der_tlv DER_SEQUENCE (date_bytes d1 @ date_bytes d2) @ rest)"
    and ok: "name_ok n" "date_ok d1" "date_ok d2"
  obtains i' ss se ids ide os oe where "parse_issuer_validity raw idx te f = Inr (i',
      f\<lparr>cert_serial_end := se, cert_serial_start := ss, sig_id_start := ids, sig_id_end := ide,
       sig_oid_start := os, sig_oid_end := oe, not_before := secs_read d1, not_after := secs_read d2\<rparr>)"
    "cursor raw i' te rest" "cursor raw ss se serial" "slice raw ids ide = alg_id_bytes a" "cursor raw os oe (fst a)"
proof -
  from parse_data_element_tlv [OF c] obtain ss se where
    1: "parse_data_element raw DER_INTEGER idx te = Inr (ss, se)" "cursor raw ss se serial"
      "cursor raw se te (alg_id_bytes a @ name_bytes n @ der_tlv DER_SEQUENCE (date_bytes d1 @ date_bytes d2) @ rest)" by metis
  from parse_alg_id_complete [OF 1(3)] obtain i1 os oe where
    2: "parse_alg_id raw se te = Inr (i1, se, i1, os, oe)" "slice raw se i1 = alg_id_bytes a" "cursor raw os oe (fst a)"
      "cursor raw i1 te (name_bytes n @ der_tlv DER_SEQUENCE (date_bytes d1 @ date_bytes d2) @ rest)" by metis
  from parse_name_complete [OF 2(4) ok(1)] obtain i2 where
    3: "parse_name raw i1 te = Inr i2" "cursor raw i2 te (der_tlv DER_SEQUENCE (date_bytes d1 @ date_bytes d2) @ rest)" by metis
  from parse_data_element_tlv [OF 3(2)] obtain j e where
    4: "parse_data_element raw DER_SEQUENCE i2 te = Inr (j, e)" "cursor raw j e (date_bytes d1 @ date_bytes d2)"
      "cursor raw e te rest" by metis
  from parse_time_complete_at [OF 4(2) ok(2)] obtain i3 where
    5: "parse_time raw j e = Inr (i3, secs_read d1)" "cursor raw i3 e (date_bytes d2 @ [])" by auto
  from parse_time_complete_at [OF 5(2) ok(3)] obtain i4 where
    6: "parse_time raw i3 e = Inr (i4, secs_read d2)" "cursor raw i4 e []" by metis
  have "i4 = e" using cursor_done [OF 6(2)] by simp
  with 1 2 3 4 5 6 that show ?thesis by (simp add: parse_issuer_validity_def Let_def)
qed

lemma parse_subject_key_sound:
  assumes c: "cursor raw idx te bs" and p: "parse_subject_key raw idx te f = Inr (i', g)"
  obtains n a key rest ids ide os oe ks ke where
    "bs = name_bytes n @ der_tlv DER_SEQUENCE (alg_id_bytes a @ der_tlv DER_BITSTRING (0 # key)) @ rest"
    "cursor raw i' te rest" "name_ok n" "slice raw ids ide = alg_id_bytes a" "cursor raw os oe (fst a)"
    "cursor raw oe ide (snd a)" "cursor raw ks ke key"
    "g = f\<lparr>pub_key_id_start := ids, pub_key_id_end := ide, pub_key_oid_start := os, pub_key_oid_end := oe,
       pub_key_end := ke, pub_key_start := ks\<rparr>"
proof -
  from p obtain i1 j i2 ids ide os oe ks where
    1: "parse_name raw idx te = Inr i1" and
    2: "parse_data_element raw DER_SEQUENCE i1 te = Inr (j, i')" and
    3: "parse_alg_id raw j i' = Inr (i2, ids, ide, os, oe)" and
    4: "parse_bitstring_no_unused raw i2 i' = Inr (ks, i')" and
    g: "g = f\<lparr>pub_key_id_start := ids, pub_key_id_end := ide, pub_key_oid_start := os, pub_key_oid_end := oe,
       pub_key_end := i', pub_key_start := ks\<rparr>"
    by (auto simp: parse_subject_key_def Let_def if_fail split del: if_split)
  from parse_name_sound [OF c 1] obtain n r1 where r1: "bs = name_bytes n @ r1" "cursor raw i1 te r1" "name_ok n" .
  from 2 obtain x r2 where r2: "r1 = der_tlv DER_SEQUENCE x @ r2" "cursor raw j i' x" "cursor raw i' te r2"
    unfolding parse_data_element_at [OF r1(2)] by blast
  from 3 obtain oid params y where y: "x = alg_id_bytes (oid, params) @ y" "cursor raw i2 i' y" "ids = j" "ide = i2"
    "cursor raw os oe oid" "cursor raw oe ide params" unfolding parse_alg_id_at [OF r2(2)] by blast
  from 4 obtain key z where z: "y = der_tlv DER_BITSTRING (0 # key) @ z" "cursor raw ks i' key" "cursor raw i' i' z"
    unfolding parse_bitstring_at [OF y(2)] by blast
  have "z = []" using cursor_done [OF z(3)] by simp
  with r1 r2 y z g cursor_part [OF r2(2) [unfolded y(1)] y(2)] that [of n "(oid, params)" key r2 ids ide os oe ks i']
  show ?thesis by simp
qed

lemma parse_subject_key_complete:
  assumes c: "cursor raw idx te (name_bytes n @ der_tlv DER_SEQUENCE (alg_id_bytes a @ der_tlv DER_BITSTRING (0 # key)) @ rest)"
    and ok: "name_ok n"
  obtains i' ids ide os oe ks where "parse_subject_key raw idx te f = Inr (i',
      f\<lparr>pub_key_id_start := ids, pub_key_id_end := ide, pub_key_oid_start := os, pub_key_oid_end := oe,
       pub_key_end := i', pub_key_start := ks\<rparr>)"
    "cursor raw i' te rest" "slice raw ids ide = alg_id_bytes a" "cursor raw os oe (fst a)"
    "cursor raw oe ide (snd a)" "cursor raw ks i' key"
proof -
  from parse_name_complete [OF c ok] obtain i1 where
    1: "parse_name raw idx te = Inr i1"
      "cursor raw i1 te (der_tlv DER_SEQUENCE (alg_id_bytes a @ der_tlv DER_BITSTRING (0 # key)) @ rest)" by metis
  from parse_data_element_tlv [OF 1(2)] obtain j e where
    2: "parse_data_element raw DER_SEQUENCE i1 te = Inr (j, e)"
      "cursor raw j e (alg_id_bytes a @ der_tlv DER_BITSTRING (0 # key))" "cursor raw e te rest" by metis
  from parse_alg_id_complete [OF 2(2)] obtain i2 os oe where
    3: "parse_alg_id raw j e = Inr (i2, j, i2, os, oe)" "slice raw j i2 = alg_id_bytes a" "cursor raw os oe (fst a)"
      "cursor raw oe i2 (snd a)" "cursor raw i2 e (der_tlv DER_BITSTRING (0 # key))" by metis
  have n: "cursor raw e e []" using 2(3) cursor_valid [OF 2(2)] by (simp add: cursor_def)
  obtain ks where ks: "cursor raw ks e key" "parse_bitstring_no_unused raw i2 e = Inr (ks, e)"
  proof -
    from whole_element_complete [OF 3(5)] obtain m where m: "cursor raw m e (0 # key)" by metis
    note k = cursor_Cons(3) [OF m]
    then have "parse_bitstring_no_unused raw i2 e = Inr (m + 1, e)"
      unfolding parse_bitstring_at [OF 3(5)] using n by auto
    with k that show ?thesis by blast
  qed
  with 1 2 3 that show ?thesis by (simp add: parse_subject_key_def Let_def)
qed

lemma parse_unique_ids_sound:
  assumes c: "cursor raw idx te bs" and p: "parse_unique_ids raw idx te = Inr i'"
  obtains u v rest where "bs = opt_tlv DER_IMPLICIT_1 u @ opt_tlv DER_IMPLICIT_2 v @ rest" "cursor raw i' te rest"
proof -
  from p obtain j k j' k' where
    1: "parse_optional_data raw DER_IMPLICIT_1 idx te IDX_NONE = Inr (j, k)" and
    2: "parse_optional_data raw DER_IMPLICIT_2 (skip_to j k) te IDX_NONE = Inr (j', k')" and
    i': "i' = skip_to j' k'" by (auto simp: parse_unique_ids_def)
  from parse_optional_data_sound [OF c 1] obtain u r1 where
    u: "bs = opt_tlv DER_IMPLICIT_1 u @ r1" "cursor raw (skip_to j k) te r1" .
  from parse_optional_data_sound [OF u(2) 2] obtain v rest where
    v: "r1 = opt_tlv DER_IMPLICIT_2 v @ rest" "cursor raw (skip_to j' k') te rest" .
  from u v i' that [of u v rest] show ?thesis by simp
qed

lemma absent_opt:
  "absent t rest \<Longrightarrow> t \<noteq> t' \<Longrightarrow> absent t (opt_tlv t' x @ rest)"
  by (cases x) auto

lemma parse_unique_ids_complete:
  assumes c: "cursor raw idx te (opt_tlv DER_IMPLICIT_1 u @ opt_tlv DER_IMPLICIT_2 v @ rest)"
    and a: "absent DER_IMPLICIT_1 rest" "absent DER_IMPLICIT_2 rest"
  obtains i' where "parse_unique_ids raw idx te = Inr i'" "cursor raw i' te rest"
proof -
  have a1: "absent DER_IMPLICIT_1 (opt_tlv DER_IMPLICIT_2 v @ rest)"
    using a(1) by (rule absent_opt) (simp add: DER_IMPLICIT_1_def DER_IMPLICIT_2_def)
  from parse_optional_data_complete [OF c a1] obtain j k where
    1: "parse_optional_data raw DER_IMPLICIT_1 idx te IDX_NONE = Inr (j, k)"
      "cursor raw (skip_to j k) te (opt_tlv DER_IMPLICIT_2 v @ rest)" by metis
  from parse_optional_data_complete [OF 1(2) a(2)] obtain j' k' where
    2: "parse_optional_data raw DER_IMPLICIT_2 (skip_to j k) te IDX_NONE = Inr (j', k')"
      "cursor raw (skip_to j' k') te rest" by metis
  from 1 2 that show ?thesis by (simp add: parse_unique_ids_def)
qed

lemma parse_signature_sound:
  assumes c: "cursor raw te sz bs" and r: "sig_id_start f < sig_id_end f" "sig_id_end f \<le> te"
    and p: "parse_signature raw te sz f = Inr g"
  obtains sig s where "bs = slice raw (sig_id_start f) (sig_id_end f) @ der_tlv DER_BITSTRING (0 # sig)"
    "cursor raw s sz sig" "g = f\<lparr>sig_end := sz, sig_start := s\<rparr>"
proof -
  from safe_InrD [OF parse_signature_safe [OF cursor_valid [OF c] r cursor_le [OF c]] p] obtain k s where
    g: "g = f\<lparr>sig_end := sz, sig_start := s\<rparr>" and k: "te \<le> k" "k \<le> s" "s \<le> sz"
      "slice raw te k = slice raw (sig_id_start f) (sig_id_end f)"
      "parse_bitstring_no_unused raw k sz = Inr (s, sz)" by blast
  from cursor_slices [OF c k(1) order_trans [OF k(2,3)]] k(4) have
    b: "bs = slice raw (sig_id_start f) (sig_id_end f) @ slice raw k sz" "cursor raw k sz (slice raw k sz)" by auto
  from k(5) obtain x rest where x: "slice raw k sz = der_tlv DER_BITSTRING (0 # x) @ rest" "cursor raw s sz x"
    "cursor raw sz sz rest" unfolding parse_bitstring_at [OF b(2)] by blast
  have "rest = []" using cursor_done [OF x(3)] by simp
  with b(1) x g that [of x s] show ?thesis by simp
qed

lemma parse_signature_complete:
  assumes c: "cursor raw te sz (slice raw (sig_id_start f) (sig_id_end f) @ der_tlv DER_BITSTRING (0 # sig))"
    and r: "sig_id_start f < sig_id_end f" "sig_id_end f \<le> te"
  obtains s where "parse_signature raw te sz f = Inr (f\<lparr>sig_end := sz, sig_start := s\<rparr>)" "cursor raw s sz sig"
proof -
  let ?n = "sig_id_end f - sig_id_start f" and ?id = "slice raw (sig_id_start f) (sig_id_end f)"
  note v = cursor_valid [OF c] and le = cursor_le [OF c]
  note a = cursor_append [OF c]
  have ve: "valid_end raw (sig_id_end f)" using v r(2) le by (meson order_trans valid_end_mono)
  have n: "of_nat (length ?id) = ?n"
    using ve r(1) by (simp add: length_slice order_less_imp_le unat_sub [symmetric])
  note k = a [unfolded n]
  have lt: "te + ?n < sz"
    using cursor_le [OF k(2)] cursor_done [OF k(2)] by (simp add: order_less_le)
  have rd1: "rd_bytes raw (sig_id_start f) ?n = (Inr ?id :: byte list parsed)"
    using rd_bytes_slice [OF ve order_less_imp_le [OF r(1)]] .
  have rd2: "rd_bytes raw te ?n = (Inr ?id :: byte list parsed)"
    using rd_bytes_slice [OF cursor_valid [OF k(1)] cursor_le [OF k(1)]] k(1) by (simp add: cursor_def)
  have e: "cursor raw sz sz []" using v by (simp add: cursor_def)
  from whole_element_complete [OF k(2)] obtain m where m: "cursor raw m sz (0 # sig)" by metis
  note s = cursor_Cons(3) [OF m]
  have "parse_bitstring_no_unused raw (te + ?n) sz = Inr (m + 1, sz)"
    unfolding parse_bitstring_at [OF k(2)] using s e by auto
  with rd1 rd2 lt that [of "m + 1"] s show ?thesis
    by (simp add: parse_signature_def Let_def not_le)
qed

text \<open>The algorithm of the signature lies within the signed data.\<close>

lemma sig_id_within:
  assumes v: "valid_end raw te" and i: "parse_issuer_validity raw i0 te f0 = Inr (i1, f1)"
    and k: "parse_subject_key raw i1 te f1 = Inr (i2, f2)" and e: "same_core f2 f3"
  shows "sig_id_start f3 < sig_id_end f3" "sig_id_end f3 \<le> te"
proof -
  note same = same_core_fields [OF e]
  have "issuer_ranges i0 i1 f1" "i1 \<le> te" using safe_InrD [OF parse_issuer_validity_safe [OF v] i] by auto
  moreover have "sig_id_start f2 = sig_id_start f1" "sig_id_end f2 = sig_id_end f1"
    using safe_InrD [OF parse_subject_key_safe [OF v] k] by auto
  ultimately show "sig_id_start f3 < sig_id_end f3" "sig_id_end f3 \<le> te"
    using same by (auto simp: issuer_ranges_def)
qed

text \<open>An accepted buffer is a certificate, and the fields describe it.\<close>

lemma parse_x509_is_certificate:
  assumes v: "valid_end raw sz" and p: "parse_x509 raw sz f = Inr g"
  obtains c where "certificate_ok c" "slice raw 0 sz = certificate_bytes c" "describes raw c g"
proof -
  have c: "cursor raw 0 sz (slice raw 0 sz)" using v by (simp add: cursor_def)
  from p obtain i0 ce te f0 i1 f1 i2 f2 i3 f3 where
    1: "parse_cert_head raw sz f = Inr (i0, ce, te, f0)" and
    2: "parse_issuer_validity raw i0 te f0 = Inr (i1, f1)" and
    3: "parse_subject_key raw i1 te f1 = Inr (i2, f2)" and
    4: "parse_unique_ids raw i2 te = Inr i3" and
    5: "parse_extensions raw i3 te f2 = Inr (te, f3)" and
    6: "parse_signature raw te ce f3 = Inr g"
    by (auto simp: parse_x509_def if_fail split del: if_split)
  from parse_cert_head_sound [OF c 1] obtain s0 y rest where h:
    "slice raw 0 sz = der_tlv DER_SEQUENCE (der_tlv DER_SEQUENCE (version_bytes @ y) @ rest)" "ce = sz"
    "cursor raw i0 te y" "cursor raw te sz rest" "slice raw s0 te = der_tlv DER_SEQUENCE (version_bytes @ y)"
    "f0 = f\<lparr>signed_data_start := s0, signed_data_end := te\<rparr>" .
  from parse_issuer_validity_sound [OF h(3) 2] obtain serial a n d1 d2 y1 ss se ids ide os oe where i:
    "y = der_tlv DER_INTEGER serial @ alg_id_bytes a @ name_bytes n @
       der_tlv DER_SEQUENCE (date_bytes d1 @ date_bytes d2) @ y1"
    "cursor raw i1 te y1" "name_ok n" "date_ok d1" "date_ok d2"
    "cursor raw ss se serial" "slice raw ids ide = alg_id_bytes a" "cursor raw os oe (fst a)"
    "f1 = f0\<lparr>cert_serial_end := se, cert_serial_start := ss, sig_id_start := ids, sig_id_end := ide,
       sig_oid_start := os, sig_oid_end := oe, not_before := secs_read d1, not_after := secs_read d2\<rparr>" .
  from parse_subject_key_sound [OF i(2) 3] obtain n' a' key y2 kids kide kos koe ks ke where k:
    "y1 = name_bytes n' @ der_tlv DER_SEQUENCE (alg_id_bytes a' @ der_tlv DER_BITSTRING (0 # key)) @ y2"
    "cursor raw i2 te y2" "name_ok n'" "slice raw kids kide = alg_id_bytes a'" "cursor raw kos koe (fst a')"
    "cursor raw koe kide (snd a')" "cursor raw ks ke key"
    "f2 = f1\<lparr>pub_key_id_start := kids, pub_key_id_end := kide, pub_key_oid_start := kos, pub_key_oid_end := koe,
       pub_key_end := ke, pub_key_start := ks\<rparr>" .
  from parse_unique_ids_sound [OF k(2) 4] obtain u u' y3 where
    u: "y2 = opt_tlv DER_IMPLICIT_1 u @ opt_tlv DER_IMPLICIT_2 u' @ y3" "cursor raw i3 te y3" .
  from parse_extensions_sound [OF u(2) 5] obtain es y4 where
    e: "y3 = extensions_bytes es @ y4" "cursor raw te te y4" "extensions_ok (listed es)"
      "extn_view raw f3 = extensions_info (listed es)" "same_core f2 f3" .
  have y4: "y4 = []" using cursor_done [OF e(2)] by simp
  note same = same_core_fields [OF e(5)]
  note r = sig_id_within [OF cursor_valid [OF i(2)] 2 3 e(5)]
  from parse_signature_sound [OF h(4) r 6 [unfolded h(2)]] obtain sig s where
    g: "rest = slice raw (sig_id_start f3) (sig_id_end f3) @ der_tlv DER_BITSTRING (0 # sig)"
      "cursor raw s sz sig" "g = f3\<lparr>sig_end := sz, sig_start := s\<rparr>" .
  let ?c = "\<lparr>c_serial = serial, c_sig_alg = a, c_issuer = n, c_from = d1, c_until = d2, c_subject = n',
    c_key_alg = a', c_key = key, c_issuer_uid = u, c_subject_uid = u', c_extns = es, c_signature = sig\<rparr>"
  have tbs: "der_tlv DER_SEQUENCE (version_bytes @ y) = tbs_bytes ?c"
    by (simp add: tbs_bytes_def validity_bytes_def key_info_bytes_def i(1) k(1) u(1) e(1) y4)
  have id: "slice raw (sig_id_start f3) (sig_id_end f3) = alg_id_bytes a"
    using i(7) unfolding same k(8) i(9) by simp
  have "describes_core raw ?c f2"
    using h(5) tbs i(6-8) k(4-7) unfolding k(8) i(9) h(6) by (simp add: describes_core_def cursor_def)
  then have "describes raw ?c g"
    using e(4) g(2) by (simp add: describes_def g(3) describes_signature describes_core_same [OF e(5)] cursor_def)
  moreover have "certificate_ok ?c" using i k e by (simp add: certificate_ok_def)
  moreover have "slice raw 0 sz = certificate_bytes ?c"
    using h(1) g(1) id tbs by (simp add: certificate_bytes_def)
  ultimately show ?thesis using that by blast
qed

text \<open>A certificate is accepted, and the fields describe it.\<close>

lemma absent_extensions:
  "t \<noteq> DER_EXPLICIT_3 \<Longrightarrow> absent t (extensions_bytes es)"
  by (cases es) (auto simp: extensions_bytes_def)

lemma parse_x509_accepts:
  assumes v: "valid_end raw sz" and b: "slice raw 0 sz = certificate_bytes c" and ok: "certificate_ok c"
  obtains g where "parse_x509 raw sz f = Inr g" "describes raw c g"
proof -
  have b': "cursor raw 0 sz (certificate_bytes c)" using v b by (simp add: cursor_def)
  let ?y2 = "opt_tlv DER_IMPLICIT_1 (c_issuer_uid c) @ opt_tlv DER_IMPLICIT_2 (c_subject_uid c) @
    extensions_bytes (c_extns c) @ []"
  let ?y1 = "name_bytes (c_subject c) @ der_tlv DER_SEQUENCE
    (alg_id_bytes (c_key_alg c) @ der_tlv DER_BITSTRING (0 # c_key c)) @ ?y2"
  let ?y = "der_tlv DER_INTEGER (c_serial c) @ alg_id_bytes (c_sig_alg c) @ name_bytes (c_issuer c) @
    der_tlv DER_SEQUENCE (date_bytes (c_from c) @ date_bytes (c_until c)) @ ?y1"
  let ?rest = "alg_id_bytes (c_sig_alg c) @ der_tlv DER_BITSTRING (0 # c_signature c)"
  have tbs: "der_tlv DER_SEQUENCE (version_bytes @ ?y) = tbs_bytes c"
    by (simp add: tbs_bytes_def validity_bytes_def key_info_bytes_def)
  have "cursor raw 0 sz (der_tlv DER_SEQUENCE (der_tlv DER_SEQUENCE (version_bytes @ ?y) @ ?rest))"
    using b' by (simp only: tbs certificate_bytes_def)
  from parse_cert_head_complete [OF this] obtain s0 i0 te where
    1: "parse_cert_head raw sz f = Inr (i0, sz, te, f\<lparr>signed_data_start := s0, signed_data_end := te\<rparr>)"
      "cursor raw i0 te ?y" "cursor raw te sz ?rest" "slice raw s0 te = tbs_bytes c" unfolding tbs by metis
  have n: "name_ok (c_issuer c)" "name_ok (c_subject c)" "date_ok (c_from c)" "date_ok (c_until c)"
    "extensions_ok (listed (c_extns c))" using ok by (simp_all add: certificate_ok_def)
  let ?f0 = "f\<lparr>signed_data_start := s0, signed_data_end := te\<rparr>"
  from parse_issuer_validity_complete [OF 1(2) n(1,3,4)] obtain i1 ss se ids ide os oe f1 where
    2: "parse_issuer_validity raw i0 te ?f0 = Inr (i1, f1)" "cursor raw i1 te ?y1"
      "cursor raw ss se (c_serial c)" "slice raw ids ide = alg_id_bytes (c_sig_alg c)" "cursor raw os oe (fst (c_sig_alg c))"
      "f1 = ?f0\<lparr>cert_serial_end := se, cert_serial_start := ss, sig_id_start := ids, sig_id_end := ide,
         sig_oid_start := os, sig_oid_end := oe, not_before := secs_read (c_from c),
         not_after := secs_read (c_until c)\<rparr>" by metis
  from parse_subject_key_complete [OF 2(2) n(2)] obtain i2 kids kide kos koe ks f2 where
    3: "parse_subject_key raw i1 te f1 = Inr (i2, f2)" "cursor raw i2 te ?y2"
      "slice raw kids kide = alg_id_bytes (c_key_alg c)" "cursor raw kos koe (fst (c_key_alg c))"
      "cursor raw koe kide (snd (c_key_alg c))" "cursor raw ks i2 (c_key c)"
      "f2 = f1\<lparr>pub_key_id_start := kids, pub_key_id_end := kide, pub_key_oid_start := kos, pub_key_oid_end := koe,
         pub_key_end := i2, pub_key_start := ks\<rparr>" by metis
  have ab: "absent DER_IMPLICIT_1 (extensions_bytes (c_extns c) @ [])" "absent DER_IMPLICIT_2 (extensions_bytes (c_extns c) @ [])"
    by (simp_all add: absent_extensions DER_IMPLICIT_1_def DER_IMPLICIT_2_def DER_EXPLICIT_3_def)
  from parse_unique_ids_complete [OF 3(2) ab] obtain i3 where
    4: "parse_unique_ids raw i2 te = Inr i3" "cursor raw i3 te (extensions_bytes (c_extns c) @ [])" by metis
  from parse_extensions_complete [OF 4(2) _ n(5)] obtain i4 f3 where
    5: "parse_extensions raw i3 te f2 = Inr (i4, f3)" "cursor raw i4 te []"
      "extn_view raw f3 = extensions_info (listed (c_extns c))" "same_core f2 f3" by (metis absent_simps(1))
  have i4: "i4 = te" using cursor_done [OF 5(2)] by simp
  have core: "describes_core raw c f3"
    using 1(4) 2(3-5) 3(3-6) unfolding describes_core_same [OF 5(4)] 3(7) 2(6) by (simp add: describes_core_def cursor_def)
  note r = sig_id_within [OF cursor_valid [OF 2(2)] 2(1) 3(1) 5(4)]
  have "cursor raw te sz (slice raw (sig_id_start f3) (sig_id_end f3) @ der_tlv DER_BITSTRING (0 # c_signature c))"
    using 1(3) core by (simp add: describes_core_def)
  from parse_signature_complete [OF this r] obtain s where
    6: "parse_signature raw te sz f3 = Inr (f3\<lparr>sig_end := sz, sig_start := s\<rparr>)" "cursor raw s sz (c_signature c)" by metis
  have "parse_x509 raw sz f = Inr (f3\<lparr>sig_end := sz, sig_start := s\<rparr>)"
    by (simp add: parse_x509_def 1(1) 2(1) 3(1) 4(1) 5(1) 6(1) i4)
  moreover have "describes raw c (f3\<lparr>sig_end := sz, sig_start := s\<rparr>)"
    using core 5(3) 6(2) by (simp add: describes_def describes_signature cursor_def)
  ultimately show ?thesis using that by blast
qed

section \<open>The extension fields\<close>

text \<open>
  The comments of \<open>x509.h\<close> on the fields of the extensions, of the extensions the certificate has: which fields are
  there, who may sign certificates and how long the path may be (-1, if it is not said), and that the flags of an
  extension which is missing are 0.
\<close>

definition extension_fields :: "extension list \<Rightarrow> x509Fields \<Rightarrow> bool" where
  "extension_fields es g \<longleftrightarrow>
     (skid_start g \<noteq> IDX_NONE \<longleftrightarrow> (\<exists>c k. Supported c (Subject_Key k) \<in> set es)) \<and>
     (akid_start g \<noteq> IDX_NONE \<longleftrightarrow> (\<exists>c k i n. Supported c (Authority_Key (Some k) i n) \<in> set es)) \<and>
     (key_cert_sign g \<longleftrightarrow> (\<exists>c n. Supported c (Basic_Constraints True n) \<in> set es)) \<and>
     (\<not> key_cert_sign g \<longrightarrow> path_len_constraint g = 0) \<and>
     (\<forall>c n. Supported c (Basic_Constraints True n) \<in> set es \<longrightarrow>
        path_len_constraint g = (case n of None \<Rightarrow> - 1 | Some n \<Rightarrow> of_nat (be_val n 0))) \<and>
     (has_key_usage g \<longleftrightarrow> (\<exists>c u bits. Supported c (Key_Usage u bits) \<in> set es)) \<and>
     (has_ext_key_usage g \<longleftrightarrow> (\<exists>c ps. Supported c (Key_Purposes ps) \<in> set es)) \<and>
     (\<not> has_key_usage g \<longrightarrow> key_usage_flags g AND KU_BITS = 0) \<and>
     (\<not> has_ext_key_usage g \<longrightarrow> key_usage_flags g AND EKU_BITS = 0)"

text \<open>An extension is there if one of the run is it; what only one extension sets is not changed by the others.\<close>

lemma info_flags:
  "is_ca (fold extension_info es r) \<longleftrightarrow> is_ca r \<or> (\<exists>c n. Supported c (Basic_Constraints True n) \<in> set es)"
  "has_usage (fold extension_info es r) \<longleftrightarrow> has_usage r \<or> (\<exists>c u bits. Supported c (Key_Usage u bits) \<in> set es)"
  "has_purposes (fold extension_info es r) \<longleftrightarrow> has_purposes r \<or> (\<exists>c ps. Supported c (Key_Purposes ps) \<in> set es)"
  "subject_key (fold extension_info es r) \<noteq> None \<longleftrightarrow>
     subject_key r \<noteq> None \<or> (\<exists>c k. Supported c (Subject_Key k) \<in> set es)"
proof (induction es arbitrary: r)
  case (Cons x es)
  have step: "is_ca (extension_info x r) \<longleftrightarrow> is_ca r \<or> (\<exists>c n. x = Supported c (Basic_Constraints True n))"
    "has_usage (extension_info x r) \<longleftrightarrow> has_usage r \<or> (\<exists>c u bits. x = Supported c (Key_Usage u bits))"
    "has_purposes (extension_info x r) \<longleftrightarrow> has_purposes r \<or> (\<exists>c ps. x = Supported c (Key_Purposes ps))"
    "subject_key (extension_info x r) \<noteq> None \<longleftrightarrow> subject_key r \<noteq> None \<or> (\<exists>c k. x = Supported c (Subject_Key k))"
    for r by (cases "(x, r)" rule: extension_info.cases; cases "case x of Supported c v \<Rightarrow> v | _ \<Rightarrow> Subject_Key []"; force)+
  {
    case 1
    show ?case by (simp add: Cons.IH(1) step(1)) blast
  next
    case 2
    show ?case by (simp add: Cons.IH(2) step(2)) blast
  next
    case 3
    show ?case by (simp add: Cons.IH(3) step(3)) blast
  next
    case 4
    show ?case unfolding fold_simps list.set Cons.IH(4) step(4) by blast
  }
qed simp_all

lemma info_other:
  "\<forall>x\<in>set es. extension_oid x \<noteq> akid_oid \<Longrightarrow> authority_key (fold extension_info es r) = authority_key r"
  "\<forall>x\<in>set es. extension_oid x \<noteq> basic_constraint_oid \<Longrightarrow> path_len (fold extension_info es r) = path_len r"
proof (induction es arbitrary: r)
  case (Cons x es)
  have step: "extension_oid x \<noteq> akid_oid \<Longrightarrow> authority_key (extension_info x r) = authority_key r"
    "extension_oid x \<noteq> basic_constraint_oid \<Longrightarrow> path_len (extension_info x r) = path_len r"
    for r by (cases "(x, r)" rule: extension_info.cases; cases "case x of Supported c v \<Rightarrow> v | _ \<Rightarrow> Subject_Key []"; force)+
  {
    case 1
    then show ?case using Cons.IH(1) step(1) by simp
  next
    case 2
    then show ?case using Cons.IH(2) step(2) by simp
  }
qed simp_all

text \<open>With distinct identifiers the one extension that is there decides.\<close>

lemma info_one:
  assumes "distinct (map extension_oid es)" "Supported c v \<in> set es"
  shows "v = Authority_Key k i n \<Longrightarrow> authority_key (fold extension_info es r) = k"
    "v = Basic_Constraints True m \<Longrightarrow> path_len (fold extension_info es r) =
       (case m of None \<Rightarrow> 0xffffffff | Some n \<Rightarrow> of_nat (be_val n 0))"
proof -
  from split_list [OF assms(2)] obtain xs ys where es: "es = xs @ Supported c v # ys" by blast
  have "value_oid v \<notin> set (map extension_oid ys)" using assms(1) by (simp add: es)
  then have d: "\<forall>x\<in>set ys. extension_oid x \<noteq> value_oid v" by (metis image_eqI set_map)
  show "authority_key (fold extension_info es r) = k" if "v = Authority_Key k i n"
    using info_other(1) [of ys] d that by (simp add: es)
  show "path_len (fold extension_info es r) = (case m of None \<Rightarrow> 0xffffffff | Some n \<Rightarrow> of_nat (be_val n 0))"
    if "v = Basic_Constraints True m"
    using info_other(2) [of ys] d that by (simp add: es)
qed

lemma described_extension_fields:
  assumes d: "describes raw c g" and ok: "certificate_ok c" and f: "fields_ok raw sz g"
  shows "extension_fields (listed (c_extns c)) g"
proof -
  let ?es = "listed (c_extns c)"
  have v: "extn_view raw g = fold extension_info ?es no_info" using d by (simp add: describes_def extensions_info_def)
  have dist: "distinct (map extension_oid ?es)" using ok by (simp add: certificate_ok_def extensions_ok_def)
  have flags: "key_cert_sign g \<longleftrightarrow> (\<exists>c n. Supported c (Basic_Constraints True n) \<in> set ?es)"
    "has_key_usage g \<longleftrightarrow> (\<exists>c u bits. Supported c (Key_Usage u bits) \<in> set ?es)"
    "has_ext_key_usage g \<longleftrightarrow> (\<exists>c ps. Supported c (Key_Purposes ps) \<in> set ?es)"
    "skid_start g \<noteq> IDX_NONE \<longleftrightarrow> (\<exists>c k. Supported c (Subject_Key k) \<in> set ?es)"
    using info_flags [of ?es no_info] unfolding v [symmetric] by (simp_all add: extn_view_def no_info_def range_of_def split: if_splits)
  from f obtain seen where "extn_inv raw seen g" unfolding fields_ok_def by blast
  then have zero: "\<not> key_cert_sign g \<longrightarrow> path_len_constraint g = 0" "\<not> has_key_usage g \<longrightarrow> key_usage_flags g AND KU_BITS = 0"
    "\<not> has_ext_key_usage g \<longrightarrow> key_usage_flags g AND EKU_BITS = 0" unfolding extn_inv_def by blast+
  have ak: "akid_start g \<noteq> IDX_NONE \<longleftrightarrow> authority_key (fold extension_info ?es no_info) \<noteq> None"
    unfolding v [symmetric] by (simp add: extn_view_def range_of_def)
  have pl: "path_len_constraint g = path_len (fold extension_info ?es no_info)"
    unfolding v [symmetric] by (simp add: extn_view_def)
  have "akid_start g \<noteq> IDX_NONE \<longleftrightarrow> (\<exists>c k i n. Supported c (Authority_Key (Some k) i n) \<in> set ?es)"
  proof
    assume a: "akid_start g \<noteq> IDX_NONE"
    have "\<exists>x\<in>set ?es. extension_oid x = akid_oid"
    proof (rule ccontr)
      assume "\<not> (\<exists>x\<in>set ?es. extension_oid x = akid_oid)"
      then have "authority_key (fold extension_info ?es no_info) = authority_key no_info" by (intro info_other(1)) blast
      moreover have "authority_key no_info = None" by (simp add: no_info_def)
      ultimately show False using a ak by metis
    qed
    then obtain x where x: "x \<in> set ?es" "extension_oid x = akid_oid" by blast
    have "extension_ok x" using x ok by (auto simp: certificate_ok_def extensions_ok_def)
    have "\<exists>c v. x = Supported c v \<and> value_oid v = akid_oid"
      by (cases x) (use x(2) \<open>extension_ok x\<close> in \<open>auto simp: supported_oids_def\<close>)
    with x obtain b k i n where k: "Supported b (Authority_Key k i n) \<in> set ?es" by (auto simp: value_oid_cases)
    with info_one(1) [OF dist k refl, of no_info] a ak show "\<exists>c k i n. Supported c (Authority_Key (Some k) i n) \<in> set ?es"
      by (cases k) auto
  next
    assume "\<exists>c k i n. Supported c (Authority_Key (Some k) i n) \<in> set ?es"
    then show "akid_start g \<noteq> IDX_NONE" using info_one(1) [OF dist _ refl, of _ _ _ _ no_info] ak by auto
  qed
  moreover have "\<forall>c n. Supported c (Basic_Constraints True n) \<in> set ?es \<longrightarrow>
      path_len_constraint g = (case n of None \<Rightarrow> - 1 | Some n \<Rightarrow> of_nat (be_val n 0))"
    using info_one(2) [OF dist _ refl, of _ _ no_info] unfolding pl by (auto split: option.splits)
  ultimately show ?thesis
    unfolding extension_fields_def using flags zero by (intro conjI)
qed

end
