(* ===== verification/Crypto.thy ===== *)
theory Crypto
  imports X509
begin

text \<open>
  \<open>src/crypto.c\<close>: public keys of Ed25519, Ed448 and RSA, their table, and the checks a
  self-signed certificate must pass. OpenSSL is a parameter: the record \<open>OpenSSL\<close> holds the
  functions the source calls, over a library state \<open>'w\<close>.
\<close>

section \<open>OpenSSL\<close>

text \<open>
  The value of a pointer variable: never written (memory from \<open>malloc\<close>), null, or an address.
\<close>

datatype ptr = Indeterminate | Null | Addr nat

datatype digest = SHA256 | SHA384 | SHA512
datatype key_type = EVP_PKEY_ED25519 | EVP_PKEY_ED448

definition ptr_of :: "nat option \<Rightarrow> ptr" where
  "ptr_of p = (case p of None \<Rightarrow> Null | Some a \<Rightarrow> Addr a)"

text \<open>
  Constructors return \<open>None\<close> for \<open>NULL\<close>. \<open>EVP_PKEY_fromdata\<close> gets the value its
  \<open>ppkey\<close> argument points at, and returns the new one.
\<close>

record 'w OpenSSL =
  EVP_PKEY_new_raw_public_key :: "key_type \<Rightarrow> byte list \<Rightarrow> 'w \<Rightarrow> nat option \<times> 'w"
  EVP_MD_CTX_new :: "'w \<Rightarrow> nat option \<times> 'w"
  BN_bin2bn :: "byte list \<Rightarrow> int \<Rightarrow> 'w \<Rightarrow> nat option \<times> 'w"
  OSSL_PARAM_BLD_new :: "'w \<Rightarrow> nat option \<times> 'w"
  OSSL_PARAM_BLD_push_BN :: "nat \<Rightarrow> string \<Rightarrow> nat option \<Rightarrow> 'w \<Rightarrow> int \<times> 'w"
  OSSL_PARAM_BLD_to_param :: "nat \<Rightarrow> 'w \<Rightarrow> nat option \<times> 'w"
  EVP_PKEY_CTX_new_id :: "'w \<Rightarrow> nat option \<times> 'w"
  EVP_PKEY_fromdata_init :: "nat \<Rightarrow> 'w \<Rightarrow> int \<times> 'w"
  EVP_PKEY_fromdata :: "nat \<Rightarrow> ptr \<Rightarrow> nat \<Rightarrow> 'w \<Rightarrow> (int \<times> ptr \<times> 'w) run"
  EVP_DigestVerifyInit :: "ptr \<Rightarrow> digest option \<Rightarrow> ptr \<Rightarrow> 'w \<Rightarrow> (int \<times> 'w) run"
  EVP_DigestVerify :: "ptr \<Rightarrow> byte list \<Rightarrow> byte list \<Rightarrow> 'w \<Rightarrow> (int \<times> 'w) run"
  EVP_PKEY_free :: "ptr \<Rightarrow> 'w \<Rightarrow> 'w run"
  EVP_MD_CTX_free :: "ptr \<Rightarrow> 'w \<Rightarrow> 'w run"
  EVP_PKEY_CTX_free :: "ptr \<Rightarrow> 'w \<Rightarrow> 'w run"
  OSSL_PARAM_free :: "ptr \<Rightarrow> 'w \<Rightarrow> 'w run"
  OSSL_PARAM_BLD_free :: "ptr \<Rightarrow> 'w \<Rightarrow> 'w run"
  BN_free :: "ptr \<Rightarrow> 'w \<Rightarrow> 'w run"

section \<open>Public keys\<close>

record PubKey =
  expiry :: int
  exp_sig_size :: uinta
  alg_idx :: uint32
  pkey :: ptr
  md_ctx :: ptr
  md :: "digest option"

datatype ExtractCode =
    CERT_OK
  | EXPIRED
  | NOT_BEFORE
  | INVALID_USAGE
  | INVALID_SELF_SIGN
  | INVALID_SIG
  | INVALID_PUB_KEY
  | INVALID_PUB_KEY_PARAMS
  | UNSUPPORTED_ALG

text \<open>The status code, the key as it is after the call, and the library's state.\<close>

type_synonym 'w extracted = "(ExtractCode \<times> PubKey \<times> 'w) run"

definition certeq :: "byte list \<Rightarrow> uinta \<Rightarrow> uinta \<Rightarrow> uinta \<Rightarrow> uinta \<Rightarrow> bool run" where
  "certeq raw_cert start0 end0 start1 end1 =
     memeq_ranges raw_cert (start0, end0 - start0) (start1, end1 - start1)"

section \<open>Ed25519 and Ed448\<close>

definition ed_extract ::
    "'w OpenSSL \<Rightarrow> byte list \<Rightarrow> x509Fields \<Rightarrow> key_type \<Rightarrow> PubKey \<Rightarrow> 'w \<Rightarrow> 'w extracted" where
  "ed_extract ssl raw_cert flds kt ret_pub_key w =
    (if pub_key_oid_end flds \<noteq> pub_key_id_end flds
     then Inr (INVALID_PUB_KEY_PARAMS, ret_pub_key, w)
     else
       check_ok (certeq raw_cert (sig_id_start flds) (sig_id_end flds)
                   (pub_key_id_start flds) (pub_key_id_end flds)) (\<lambda>same.
       if \<not> same then Inr (INVALID_SIG, ret_pub_key, w)
       else
         check_ok (rd_bytes raw_cert (pub_key_start flds) (pub_key_end flds - pub_key_start flds)) (\<lambda>key.
         case EVP_PKEY_new_raw_public_key ssl kt key w of
           (None, w) \<Rightarrow> Inr (INVALID_PUB_KEY, ret_pub_key, w)
         | (Some p, w) \<Rightarrow>
             (case EVP_MD_CTX_new ssl w of
                (ctx, w) \<Rightarrow>
                  let ret_pub_key = ret_pub_key\<lparr>pkey := Addr p, md := None, md_ctx := ptr_of ctx\<rparr> in
                  if md_ctx ret_pub_key = Null then Inr (INVALID_PUB_KEY, ret_pub_key, w)
                  else Inr (CERT_OK, ret_pub_key, w)))))"

definition ed25519_extract ::
    "'w OpenSSL \<Rightarrow> byte list \<Rightarrow> x509Fields \<Rightarrow> PubKey \<Rightarrow> 'w \<Rightarrow> 'w extracted" where
  "ed25519_extract ssl raw_cert flds ret_pub_key w =
     ed_extract ssl raw_cert flds EVP_PKEY_ED25519 (ret_pub_key\<lparr>exp_sig_size := 64\<rparr>) w"

definition ed448_extract ::
    "'w OpenSSL \<Rightarrow> byte list \<Rightarrow> x509Fields \<Rightarrow> PubKey \<Rightarrow> 'w \<Rightarrow> 'w extracted" where
  "ed448_extract ssl raw_cert flds ret_pub_key w =
     ed_extract ssl raw_cert flds EVP_PKEY_ED448 (ret_pub_key\<lparr>exp_sig_size := 114\<rparr>) w"

section \<open>RSA\<close>

definition RSA_SHA256_OID :: "byte list" where
  "RSA_SHA256_OID = [0x2a, 0x86, 0x48, 0x86, 0xf7, 0x0d, 0x01, 0x01, 0x0b]"
definition RSA_SHA384_OID :: "byte list" where
  "RSA_SHA384_OID = [0x2a, 0x86, 0x48, 0x86, 0xf7, 0x0d, 0x01, 0x01, 0x0c]"
definition RSA_SHA512_OID :: "byte list" where
  "RSA_SHA512_OID = [0x2a, 0x86, 0x48, 0x86, 0xf7, 0x0d, 0x01, 0x01, 0x0d]"

text \<open>The parameters of the public key algorithm; a failure of \<open>parse_null\<close> leaves the index.\<close>

definition rsa_params_end :: "byte list \<Rightarrow> x509Fields \<Rightarrow> uinta run" where
  "rsa_params_end raw_cert flds =
    check_ok (catch (parse_null raw_cert (pub_key_oid_end flds) (pub_key_id_end flds))) (\<lambda>r.
      case r of Inl _ \<Rightarrow> Inr (pub_key_oid_end flds) | Inr idx \<Rightarrow> Inr idx)"

text \<open>The digest of the signature algorithm.\<close>

definition rsa_digest :: "byte list \<Rightarrow> x509Fields \<Rightarrow> digest option run" where
  "rsa_digest raw_cert flds =
    (let sig_oid = sig_oid_start flds;
         sig_oid_size = sig_oid_end flds - sig_oid_start flds
     in
     check_ok (memeq raw_cert sig_oid sig_oid_size RSA_SHA256_OID) (\<lambda>b.
     if b then Inr (Some SHA256)
     else check_ok (memeq raw_cert sig_oid sig_oid_size RSA_SHA384_OID) (\<lambda>b.
     if b then Inr (Some SHA384)
     else check_ok (memeq raw_cert sig_oid sig_oid_size RSA_SHA512_OID) (\<lambda>b.
     if b then Inr (Some SHA512) else Inr None))))"

text \<open>The ranges of the modulus and the exponent in the public key bit string.\<close>

definition rsa_integers :: "byte list \<Rightarrow> x509Fields \<Rightarrow> (uinta \<times> uinta \<times> uinta \<times> uinta) parsed" where
  "rsa_integers raw_cert flds =
    check_ok (parse_data_element raw_cert DER_SEQUENCE (pub_key_start flds) (pub_key_end flds))
      (\<lambda>(idx, seq_end).
    check_ok (parse_data_element raw_cert DER_INTEGER idx seq_end) (\<lambda>(modulus_start, modulus_end).
    check_ok (parse_data_element raw_cert DER_INTEGER modulus_end seq_end) (\<lambda>(exp_start, exp_end).
    if exp_end \<noteq> seq_end then Inl (Code TRAILING_DATA)
    else Inr (modulus_start, modulus_end, exp_start, exp_end))))"

text \<open>The signature size of a modulus size; no other size is supported.\<close>

definition rsa_sig_size :: "uinta \<Rightarrow> uinta option" where
  "rsa_sig_size n = (if n = 385 then Some 384 else if n = 513 then Some 512 else None)"

text \<open>The temporaries at the label \<open>out\<close>; \<open>None\<close> is \<open>NULL\<close>.\<close>

record rsa_temps =
  t_modulus :: "nat option"
  t_exp :: "nat option"
  t_build :: "nat option"
  t_params :: "nat option"
  t_ctx :: "nat option"

definition no_temps :: rsa_temps where
  "no_temps = \<lparr>t_modulus = None, t_exp = None, t_build = None, t_params = None, t_ctx = None\<rparr>"

text \<open>A size passed as an \<open>int\<close>.\<close>

definition c_int :: "uinta \<Rightarrow> int" where
  "c_int n = sint (ucast n :: 32 word)"

type_synonym 'w rsa_state = "(ExtractCode \<times> rsa_temps \<times> PubKey \<times> 'w) run"

text \<open>From \<open>EVP_PKEY_CTX_new_id\<close> on: the key object and the digest context.\<close>

definition rsa_fromdata ::
    "'w OpenSSL \<Rightarrow> rsa_temps \<Rightarrow> nat \<Rightarrow> PubKey \<Rightarrow> 'w \<Rightarrow> 'w rsa_state" where
  "rsa_fromdata ssl t params ret_pub_key w =
    (case EVP_PKEY_CTX_new_id ssl w of
       (None, w) \<Rightarrow> Inr (INVALID_PUB_KEY, t, ret_pub_key, w)
     | (Some ctx, w) \<Rightarrow>
         let t = t\<lparr>t_ctx := Some ctx\<rparr> in
         (case EVP_PKEY_fromdata_init ssl ctx w of (r, w) \<Rightarrow>
            if r \<noteq> 1 then Inr (INVALID_PUB_KEY, t, ret_pub_key, w)
            else
              check_ok (EVP_PKEY_fromdata ssl ctx (pkey ret_pub_key) params w) (\<lambda>(r, p, w).
              let ret_pub_key = ret_pub_key\<lparr>pkey := p\<rparr> in
              if r \<noteq> 1 then
                check_ok (if p \<noteq> Null then EVP_PKEY_free ssl p w else Inr w) (\<lambda>w.
                  Inr (INVALID_PUB_KEY, t, ret_pub_key, w))
              else
                check_ok (c_assert (p \<noteq> Null)) (\<lambda>_.
                case EVP_MD_CTX_new ssl w of (c, w) \<Rightarrow>
                  Inr (if c \<noteq> None then CERT_OK else INVALID_PUB_KEY, t,
                       ret_pub_key\<lparr>md_ctx := ptr_of c\<rparr>, w)))))"

text \<open>The parameters \<open>n\<close>, \<open>e\<close> and \<open>d\<close>, pushed until one call fails.\<close>

definition rsa_push ::
    "'w OpenSSL \<Rightarrow> nat \<Rightarrow> nat \<Rightarrow> nat \<Rightarrow> 'w \<Rightarrow> bool \<times> 'w" where
  "rsa_push ssl bld modulus exponent w =
    (case OSSL_PARAM_BLD_push_BN ssl bld ''n'' (Some modulus) w of (r, w) \<Rightarrow>
     if r \<noteq> 1 then (False, w)
     else case OSSL_PARAM_BLD_push_BN ssl bld ''e'' (Some exponent) w of (r, w) \<Rightarrow>
     if r \<noteq> 1 then (False, w)
     else case OSSL_PARAM_BLD_push_BN ssl bld ''d'' None w of (r, w) \<Rightarrow> (r = 1, w))"

definition rsa_try ::
    "'w OpenSSL \<Rightarrow> byte list \<Rightarrow> int \<Rightarrow> byte list \<Rightarrow> int \<Rightarrow> PubKey \<Rightarrow> 'w \<Rightarrow> 'w rsa_state" where
  "rsa_try ssl n_bytes n_size e_bytes e_size ret_pub_key w =
    (let t = no_temps in
     case BN_bin2bn ssl n_bytes n_size w of
       (None, w) \<Rightarrow> Inr (INVALID_PUB_KEY, t, ret_pub_key, w)
     | (Some modulus, w) \<Rightarrow>
     let t = t\<lparr>t_modulus := Some modulus\<rparr> in
     case BN_bin2bn ssl e_bytes e_size w of
       (None, w) \<Rightarrow> Inr (INVALID_PUB_KEY, t, ret_pub_key, w)
     | (Some exponent, w) \<Rightarrow>
     let t = t\<lparr>t_exp := Some exponent\<rparr> in
     case OSSL_PARAM_BLD_new ssl w of
       (None, w) \<Rightarrow> Inr (INVALID_PUB_KEY, t, ret_pub_key, w)
     | (Some bld, w) \<Rightarrow>
     let t = t\<lparr>t_build := Some bld\<rparr> in
     case rsa_push ssl bld modulus exponent w of (ok, w) \<Rightarrow>
     if \<not> ok then Inr (INVALID_PUB_KEY, t, ret_pub_key, w)
     else case OSSL_PARAM_BLD_to_param ssl bld w of
       (None, w) \<Rightarrow> Inr (INVALID_PUB_KEY, t, ret_pub_key, w)
     | (Some params, w) \<Rightarrow> rsa_fromdata ssl (t\<lparr>t_params := Some params\<rparr>) params ret_pub_key w)"

text \<open>The label \<open>out\<close>: everything that was allocated is freed.\<close>

definition free_opt :: "(ptr \<Rightarrow> 'w \<Rightarrow> 'w run) \<Rightarrow> nat option \<Rightarrow> 'w \<Rightarrow> 'w run" where
  "free_opt free p w = (case p of None \<Rightarrow> Inr w | Some a \<Rightarrow> free (Addr a) w)"

definition rsa_out :: "'w OpenSSL \<Rightarrow> rsa_temps \<Rightarrow> 'w \<Rightarrow> 'w run" where
  "rsa_out ssl t w =
    check_ok (free_opt (EVP_PKEY_CTX_free ssl) (t_ctx t) w) (\<lambda>w.
    check_ok (free_opt (OSSL_PARAM_free ssl) (t_params t) w) (\<lambda>w.
    check_ok (free_opt (OSSL_PARAM_BLD_free ssl) (t_build t) w) (\<lambda>w.
    check_ok (free_opt (BN_free ssl) (t_exp t) w) (\<lambda>w.
    free_opt (BN_free ssl) (t_modulus t) w))))"

definition rsa_extract ::
    "'w OpenSSL \<Rightarrow> byte list \<Rightarrow> x509Fields \<Rightarrow> PubKey \<Rightarrow> 'w \<Rightarrow> 'w extracted" where
  "rsa_extract ssl raw_cert flds ret_pub_key w =
    check_ok (rsa_params_end raw_cert flds) (\<lambda>idx.
    if idx \<noteq> pub_key_id_end flds then Inr (INVALID_PUB_KEY_PARAMS, ret_pub_key, w)
    else
      check_ok (rsa_digest raw_cert flds) (\<lambda>digest.
      case digest of
        None \<Rightarrow> Inr (UNSUPPORTED_ALG, ret_pub_key, w)
      | Some d \<Rightarrow>
          let ret_pub_key = ret_pub_key\<lparr>md := Some d\<rparr> in
          check_ok (catch (rsa_integers raw_cert flds)) (\<lambda>r.
          case r of
            Inl _ \<Rightarrow> Inr (INVALID_PUB_KEY, ret_pub_key, w)
          | Inr (modulus_start, modulus_end, exp_start, exp_end) \<Rightarrow>
              (case rsa_sig_size (modulus_end - modulus_start) of
                 None \<Rightarrow> Inr (UNSUPPORTED_ALG, ret_pub_key, w)
               | Some n \<Rightarrow>
                   check_ok (rd_bytes raw_cert modulus_start (modulus_end - modulus_start)) (\<lambda>n_bytes.
                   check_ok (rd_bytes raw_cert exp_start (exp_end - exp_start)) (\<lambda>e_bytes.
                   check_ok (rsa_try ssl n_bytes (c_int (modulus_end - modulus_start))
                               e_bytes (c_int (exp_end - exp_start))
                               (ret_pub_key\<lparr>exp_sig_size := n\<rparr>) w) (\<lambda>(ret, t, ret_pub_key, w).
                   check_ok (rsa_out ssl t w) (\<lambda>w. Inr (ret, ret_pub_key, w)))))))))"

section \<open>Verification and release\<close>

definition openssl_verify :: "'w OpenSSL \<Rightarrow> PubKey \<Rightarrow> byte list \<Rightarrow> byte list \<Rightarrow> 'w \<Rightarrow> (bool \<times> 'w) run" where
  "openssl_verify ssl pub_key data sig w =
    (if of_nat (length sig) \<noteq> exp_sig_size pub_key then Inr (False, w)
     else
       check_ok (c_assert (md_ctx pub_key \<noteq> Null)) (\<lambda>_.
       check_ok (EVP_DigestVerifyInit ssl (md_ctx pub_key) (md pub_key) (pkey pub_key) w) (\<lambda>(r, w).
       if r = 0 then Inr (False, w)
       else check_ok (EVP_DigestVerify ssl (md_ctx pub_key) sig data w) (\<lambda>(r, w). Inr (r = 1, w)))))"

definition openssl_free :: "'w OpenSSL \<Rightarrow> PubKey \<Rightarrow> 'w \<Rightarrow> 'w run" where
  "openssl_free ssl pub_key w =
    check_ok (EVP_PKEY_free ssl (pkey pub_key) w) (\<lambda>w. EVP_MD_CTX_free ssl (md_ctx pub_key) w)"

section \<open>The table of supported algorithms\<close>

record 'w SupportedAlg =
  alg_oid :: "byte list"
  extract_key :: "byte list \<Rightarrow> x509Fields \<Rightarrow> PubKey \<Rightarrow> 'w \<Rightarrow> 'w extracted"
  verify_sig :: "PubKey \<Rightarrow> byte list \<Rightarrow> byte list \<Rightarrow> 'w \<Rightarrow> (bool \<times> 'w) run"
  free_key :: "PubKey \<Rightarrow> 'w \<Rightarrow> 'w run"

definition ed25519_oid :: "byte list" where "ed25519_oid = [0x2b, 0x65, 0x70]"
definition ed448_oid :: "byte list" where "ed448_oid = [0x2b, 0x65, 0x71]"
definition rsa_oid :: "byte list" where
  "rsa_oid = [0x2a, 0x86, 0x48, 0x86, 0xf7, 0x0d, 0x01, 0x01, 0x01]"

definition ed25519 :: "'w OpenSSL \<Rightarrow> 'w SupportedAlg" where
  "ed25519 ssl = \<lparr>alg_oid = ed25519_oid, extract_key = ed25519_extract ssl,
     verify_sig = openssl_verify ssl, free_key = openssl_free ssl\<rparr>"
definition ed448 :: "'w OpenSSL \<Rightarrow> 'w SupportedAlg" where
  "ed448 ssl = \<lparr>alg_oid = ed448_oid, extract_key = ed448_extract ssl,
     verify_sig = openssl_verify ssl, free_key = openssl_free ssl\<rparr>"
definition rsa :: "'w OpenSSL \<Rightarrow> 'w SupportedAlg" where
  "rsa ssl = \<lparr>alg_oid = rsa_oid, extract_key = rsa_extract ssl,
     verify_sig = openssl_verify ssl, free_key = openssl_free ssl\<rparr>"

definition supported_algs :: "'w OpenSSL \<Rightarrow> 'w SupportedAlg list" where
  "supported_algs ssl = [ed25519 ssl, ed448 ssl, rsa ssl]"

text \<open>The search through the table; \<open>i\<close> is the index of its first entry.\<close>

fun find_alg ::
    "'w SupportedAlg list \<Rightarrow> uint32 \<Rightarrow> byte list \<Rightarrow> x509Fields \<Rightarrow> (uint32 \<times> 'w SupportedAlg) option run"
    where
  "find_alg [] i raw_cert flds = Inr None"
| "find_alg (alg # algs) i raw_cert flds =
    check_ok (memeq raw_cert (pub_key_oid_start flds) (pub_key_oid_end flds - pub_key_oid_start flds)
                (alg_oid alg)) (\<lambda>found.
      if found then Inr (Some (i, alg)) else find_alg algs (i + 1) raw_cert flds)"

definition pub_key_extract ::
    "'w OpenSSL \<Rightarrow> byte list \<Rightarrow> x509Fields \<Rightarrow> PubKey \<Rightarrow> 'w \<Rightarrow> 'w extracted" where
  "pub_key_extract ssl raw_cert flds ret_pub_key w =
    check_ok (find_alg (supported_algs ssl) 0 raw_cert flds) (\<lambda>r.
      case r of
        None \<Rightarrow> Inr (UNSUPPORTED_ALG, ret_pub_key, w)
      | Some (idx, alg) \<Rightarrow> extract_key alg raw_cert flds (ret_pub_key\<lparr>alg_idx := idx\<rparr>) w)"

text \<open>\<open>supported_algs[alg_idx]\<close>, behind its assertion.\<close>

definition alg_of :: "'w OpenSSL \<Rightarrow> PubKey \<Rightarrow> 'w SupportedAlg run" where
  "alg_of ssl pub_key =
    check_ok (c_assert (unat (alg_idx pub_key) < length (supported_algs ssl))) (\<lambda>_.
      Inr (supported_algs ssl ! unat (alg_idx pub_key)))"

definition pub_key_verify :: "'w OpenSSL \<Rightarrow> PubKey \<Rightarrow> byte list \<Rightarrow> byte list \<Rightarrow> 'w \<Rightarrow> (bool \<times> 'w) run" where
  "pub_key_verify ssl pub_key data sig w =
    (if exp_sig_size pub_key \<noteq> of_nat (length sig) then Inr (False, w)
     else check_ok (alg_of ssl pub_key) (\<lambda>alg. verify_sig alg pub_key data sig w))"

text \<open>\<open>None\<close> is a null \<open>pub_key\<close>.\<close>

definition pub_key_free :: "'w OpenSSL \<Rightarrow> PubKey option \<Rightarrow> 'w \<Rightarrow> 'w run" where
  "pub_key_free ssl pub_key w =
    (case pub_key of
       None \<Rightarrow> Inr w
     | Some k \<Rightarrow> check_ok (alg_of ssl k) (\<lambda>alg. free_key alg k w))"

section \<open>Self-signed certificates for code signing\<close>

definition usage_mask :: uint32 where
  "usage_mask = KEY_USAGE_FLAG_SIGN OR KEY_USAGE_FLAG_KEY_CERT_SIGN OR KEY_USAGE_FLAG_CODE_SIGNING"

text \<open>The checks on the fields, before the key is extracted.\<close>

definition check_self_sign :: "byte list \<Rightarrow> x509Fields \<Rightarrow> int \<Rightarrow> ExtractCode run" where
  "check_self_sign raw_cert flds now =
    (if not_after flds < now then Inr EXPIRED
     else if not_before flds > now then Inr NOT_BEFORE
     else if \<not> key_cert_sign flds then Inr INVALID_USAGE
     else
       let is_skid = (skid_start flds \<noteq> IDX_NONE);
           is_akid = (akid_start flds \<noteq> IDX_NONE)
       in
       if is_skid \<noteq> is_akid then Inr INVALID_SELF_SIGN
       else
         check_ok (if is_skid then certeq raw_cert (skid_start flds) (skid_end flds)
                                     (akid_start flds) (akid_end flds) else Inr True) (\<lambda>same.
         if \<not> same then Inr INVALID_SELF_SIGN
         else if \<not> has_key_usage flds \<or> \<not> has_ext_key_usage flds \<or>
                 key_usage_flags flds AND usage_mask \<noteq> usage_mask then Inr INVALID_USAGE
         else Inr CERT_OK))"

definition extract_self_sign_for_code_sign ::
    "'w OpenSSL \<Rightarrow> byte list \<Rightarrow> x509Fields \<Rightarrow> int \<Rightarrow> PubKey \<Rightarrow> 'w \<Rightarrow> 'w extracted" where
  "extract_self_sign_for_code_sign ssl raw_cert flds now ret_pub_key w =
    check_ok (check_self_sign raw_cert flds now) (\<lambda>code.
    if code \<noteq> CERT_OK then Inr (code, ret_pub_key, w)
    else
      check_ok (pub_key_extract ssl raw_cert flds ret_pub_key w) (\<lambda>(code, ret_pub_key, w).
      if code \<noteq> CERT_OK then Inr (code, ret_pub_key, w)
      else
        check_ok (rd_bytes raw_cert (signed_data_start flds)
                    (signed_data_end flds - signed_data_start flds)) (\<lambda>data.
        check_ok (rd_bytes raw_cert (sig_start flds) (sig_end flds - sig_start flds)) (\<lambda>sig.
        check_ok (pub_key_verify ssl ret_pub_key data sig w) (\<lambda>(valid, w).
        if valid then Inr (CERT_OK, ret_pub_key\<lparr>expiry := not_after flds\<rparr>, w)
        else check_ok (pub_key_free ssl (Some ret_pub_key) w) (\<lambda>w.
          Inr (INVALID_SIG, ret_pub_key, w)))))))"

end
