(* ===== verification/Crypto_Contracts.thy ===== *)
theory Crypto_Contracts
  imports Crypto
begin

text \<open>
  What OpenSSL promises of the objects it allocates, and what \<open>src/crypto.c\<close> makes of it: the contract of
  every function, of a row of the algorithm table, and of the checks of a self-signed certificate.
\<close>

section \<open>What OpenSSL promises\<close>

text \<open>
  Ownership: \<open>live w\<close> is the set of objects that are allocated and not freed. A constructor
  returns a new one or fails without allocating; an operation on live objects keeps them; freeing
  a live object removes it, freeing \<open>NULL\<close> does nothing. \<open>EVP_PKEY_fromdata\<close> with a
  null \<open>*ppkey\<close> either stores a new object or leaves it null. Nothing is promised of
  indeterminate or dangling pointers.
\<close>

definition allocates :: "('w \<Rightarrow> nat set) \<Rightarrow> 'w \<Rightarrow> nat option \<times> 'w \<Rightarrow> bool" where
  "allocates live w r \<longleftrightarrow>
     (case r of (None, w') \<Rightarrow> live w' = live w | (Some p, w') \<Rightarrow> p \<notin> live w \<and> live w' = insert p (live w))"

definition frees :: "('w \<Rightarrow> nat set) \<Rightarrow> (ptr \<Rightarrow> 'w \<Rightarrow> 'w run) \<Rightarrow> bool" where
  "frees live free \<longleftrightarrow>
     (\<forall>w. safe () (free Null w) (\<lambda>w'. live w' = live w)) \<and>
     (\<forall>p w. p \<in> live w \<longrightarrow> safe () (free (Addr p) w) (\<lambda>w'. live w' = live w - {p}))"

definition openssl_ok :: "'w OpenSSL \<Rightarrow> ('w \<Rightarrow> nat set) \<Rightarrow> bool" where
  "openssl_ok ssl live \<longleftrightarrow>
     (\<forall>kt bs w. allocates live w (EVP_PKEY_new_raw_public_key ssl kt bs w)) \<and>
     (\<forall>w. allocates live w (EVP_MD_CTX_new ssl w)) \<and>
     (\<forall>bs n w. allocates live w (BN_bin2bn ssl bs n w)) \<and>
     (\<forall>w. allocates live w (OSSL_PARAM_BLD_new ssl w)) \<and>
     (\<forall>b s x w. live (snd (OSSL_PARAM_BLD_push_BN ssl b s x w)) = live w) \<and>
     (\<forall>b w. allocates live w (OSSL_PARAM_BLD_to_param ssl b w)) \<and>
     (\<forall>w. allocates live w (EVP_PKEY_CTX_new_id ssl w)) \<and>
     (\<forall>c w. live (snd (EVP_PKEY_fromdata_init ssl c w)) = live w) \<and>
     (\<forall>c d w. safe () (EVP_PKEY_fromdata ssl c Null d w) (\<lambda>(r, p, w').
        (p = Null \<and> r \<noteq> 1 \<and> live w' = live w) \<or>
        (\<exists>a. p = Addr a \<and> a \<notin> live w \<and> live w' = insert a (live w)))) \<and>
     (\<forall>c d k w. c \<in> live w \<longrightarrow> k \<in> live w \<longrightarrow>
        safe () (EVP_DigestVerifyInit ssl (Addr c) d (Addr k) w) (\<lambda>(r, w'). live w' = live w)) \<and>
     (\<forall>c s d w. c \<in> live w \<longrightarrow>
        safe () (EVP_DigestVerify ssl (Addr c) s d w) (\<lambda>(r, w'). live w' = live w)) \<and>
     frees live (EVP_PKEY_free ssl) \<and> frees live (EVP_MD_CTX_free ssl) \<and>
     frees live (EVP_PKEY_CTX_free ssl) \<and> frees live (OSSL_PARAM_free ssl) \<and>
     frees live (OSSL_PARAM_BLD_free ssl) \<and> frees live (BN_free ssl)"

section \<open>Contracts\<close>

abbreviation rsafe :: "'a run \<Rightarrow> ('a \<Rightarrow> bool) \<Rightarrow> bool" where
  "rsafe \<equiv> safe ()"

lemma openssl_okD:
  assumes "openssl_ok ssl live"
  shows "allocates live w (EVP_PKEY_new_raw_public_key ssl kt bs w)"
    "allocates live w (EVP_MD_CTX_new ssl w)"
    "allocates live w (BN_bin2bn ssl bs n w)"
    "allocates live w (OSSL_PARAM_BLD_new ssl w)"
    "live (snd (OSSL_PARAM_BLD_push_BN ssl b s x w)) = live w"
    "allocates live w (OSSL_PARAM_BLD_to_param ssl b w)"
    "allocates live w (EVP_PKEY_CTX_new_id ssl w)"
    "live (snd (EVP_PKEY_fromdata_init ssl b w)) = live w"
    "frees live (EVP_PKEY_free ssl)" "frees live (EVP_MD_CTX_free ssl)"
    "frees live (EVP_PKEY_CTX_free ssl)" "frees live (OSSL_PARAM_free ssl)"
    "frees live (OSSL_PARAM_BLD_free ssl)" "frees live (BN_free ssl)"
  using assms by (simp_all add: openssl_ok_def)

lemma fromdata_safe:
  "openssl_ok ssl live \<Longrightarrow> rsafe (EVP_PKEY_fromdata ssl c Null d w) (\<lambda>(r, p, w').
     (p = Null \<and> r \<noteq> 1 \<and> live w' = live w) \<or>
     (\<exists>a. p = Addr a \<and> a \<notin> live w \<and> live w' = insert a (live w)))"
  by (simp add: openssl_ok_def)

lemma digest_safe:
  assumes "openssl_ok ssl live" "c \<in> live w"
  shows "k \<in> live w \<Longrightarrow> rsafe (EVP_DigestVerifyInit ssl (Addr c) d (Addr k) w) (\<lambda>(r, w'). live w' = live w)"
    "rsafe (EVP_DigestVerify ssl (Addr c) s x w) (\<lambda>(r, w'). live w' = live w)"
  using assms by (simp_all add: openssl_ok_def)

lemma allocates_cases:
  assumes "allocates live w r"
  obtains (null) w' where "r = (None, w')" "live w' = live w"
    | (new) p w' where "r = (Some p, w')" "p \<notin> live w" "live w' = insert p (live w)"
  using assms by (cases r; cases "fst r") (auto simp: allocates_def)

lemma free_opt_safe:
  "frees live free \<Longrightarrow> set_option p \<subseteq> live w \<Longrightarrow>
   rsafe (free_opt free p w) (\<lambda>w'. live w' = live w - set_option p)"
  by (cases p) (auto simp: free_opt_def frees_def)

lemma frees_new:
  assumes "frees live free" "a \<notin> X" "live w = insert a X"
  shows "rsafe (free (Addr a) w) (\<lambda>w'. live w' = X)"
proof -
  have "rsafe (free (Addr a) w) (\<lambda>w'. live w' = live w - {a})"
    using assms(1) assms(3) unfolding frees_def by blast
  moreover have "live w - {a} = X" using assms(2,3) by simp
  ultimately show ?thesis by simp
qed

text \<open>The objects a call of \<open>rsa_try\<close> leaves in its temporaries.\<close>

definition temps :: "rsa_temps \<Rightarrow> nat list" where
  "temps t = concat (map (\<lambda>p. case p of None \<Rightarrow> [] | Some a \<Rightarrow> [a])
     [t_ctx t, t_params t, t_build t, t_exp t, t_modulus t])"

lemma set_temps: "set (temps t) = set_option (t_ctx t) \<union> set_option (t_params t) \<union>
    set_option (t_build t) \<union> set_option (t_exp t) \<union> set_option (t_modulus t)"
  by (auto simp: temps_def split: option.splits)

lemma rsa_out_safe:
  assumes ok: "openssl_ok ssl live" and d: "distinct (temps t)" and l: "set (temps t) \<subseteq> live w"
  shows "rsafe (rsa_out ssl t w) (\<lambda>w'. live w' = live w - set (temps t))"
proof -
  note fr = free_opt_safe [OF openssl_okD(11) [OF ok]] free_opt_safe [OF openssl_okD(12) [OF ok]]
    free_opt_safe [OF openssl_okD(13) [OF ok]] free_opt_safe [OF openssl_okD(14) [OF ok]]
  have disj: "set_option (t_params t) \<subseteq> live w - set_option (t_ctx t)"
    "set_option (t_build t) \<subseteq> live w - set_option (t_ctx t) - set_option (t_params t)"
    "set_option (t_exp t) \<subseteq> live w - set_option (t_ctx t) - set_option (t_params t) - set_option (t_build t)"
    "set_option (t_modulus t) \<subseteq> live w - set_option (t_ctx t) - set_option (t_params t)
       - set_option (t_build t) - set_option (t_exp t)"
    "set_option (t_ctx t) \<subseteq> live w"
    using d l by (auto simp: temps_def split: option.splits)
  show ?thesis
    unfolding rsa_out_def
  proof (rule safe_check_ok [OF fr(1)], rule disj, goal_cases)
    case (1 w1)
    then have l1: "live w1 = live w - set_option (t_ctx t)" by simp
    show ?case
    proof (rule safe_check_ok [OF fr(2)], use disj l1 in simp, goal_cases)
      case (1 w2)
      with l1 have l2: "live w2 = live w - set_option (t_ctx t) - set_option (t_params t)" by simp
      show ?case
      proof (rule safe_check_ok [OF fr(3)], use disj l2 in simp, goal_cases)
        case (1 w3)
        with l2 have l3: "live w3 = live w - set_option (t_ctx t) - set_option (t_params t)
          - set_option (t_build t)" by simp
        show ?case
        proof (rule safe_check_ok [OF fr(4)], use disj l3 in simp, goal_cases)
          case (1 w4)
          with l3 have l4: "live w4 = live w - set_option (t_ctx t) - set_option (t_params t)
            - set_option (t_build t) - set_option (t_exp t)" by simp
          show ?case
            by (rule safe_mono [OF fr(4)], use disj l4 in simp) (auto simp: l4 set_temps)
        qed
      qed
    qed
  qed
qed

text \<open>
  What a run up to the label \<open>out\<close> allocates: its temporaries and, after a success, the key
  and the digest context; after a failure at most a key that nothing frees.
\<close>

definition rsa_post :: "('w \<Rightarrow> nat set) \<Rightarrow> 'w \<Rightarrow> PubKey \<Rightarrow> ExtractCode \<times> rsa_temps \<times> PubKey \<times> 'w \<Rightarrow> bool" where
  "rsa_post live w k = (\<lambda>(code, t, k', w').
     alg_idx k' = alg_idx k \<and> exp_sig_size k' = exp_sig_size k \<and>
     (\<exists>ks. distinct (temps t @ ks) \<and> set (temps t @ ks) \<inter> live w = {} \<and>
        live w' = live w \<union> set (temps t @ ks) \<and>
        (if code = CERT_OK then \<exists>a b. ks = [a, b] \<and> pkey k' = Addr a \<and> md_ctx k' = Addr b
         else length ks \<le> 1)))"

lemma rsa_post_fail:
  "code \<noteq> CERT_OK \<Longrightarrow> distinct (temps t) \<Longrightarrow> set (temps t) \<inter> live w0 = {} \<Longrightarrow>
   live w = live w0 \<union> set (temps t) \<Longrightarrow> alg_idx k' = alg_idx k \<Longrightarrow> exp_sig_size k' = exp_sig_size k \<Longrightarrow>
   rsa_post live w0 k (code, t, k', w)"
  by (auto simp: rsa_post_def intro: exI [of _ "[]"])

text \<open>
  The key is made in place of whatever the slot's pointer holds: in memory from \<open>malloc\<close> that nobody has
  written, \<open>EVP_PKEY_fromdata\<close> gets an indeterminate pointer to an existing key.
\<close>

lemma uninitialised_slot_reaches_openssl:
  assumes "EVP_PKEY_CTX_new_id ssl w = (Some ctx, u)" "EVP_PKEY_fromdata_init ssl ctx u = (1, v)"
    "pkey k = Indeterminate" "EVP_PKEY_fromdata ssl ctx Indeterminate params v = Inl (Fault BadPointer)"
  shows "rsa_fromdata ssl t params k w = Inl (Fault BadPointer)"
  using assms by (simp add: rsa_fromdata_def)

lemma rsa_fromdata_safe:
  assumes ok: "openssl_ok ssl live" and k: "pkey k = Null" and t: "t_ctx t = None"
    and d: "distinct (temps t)" "set (temps t) \<inter> live w0 = {}" "live w = live w0 \<union> set (temps t)"
  shows "rsafe (rsa_fromdata ssl t p k w) (rsa_post live w0 k)"
proof (rule allocates_cases [OF openssl_okD(7) [OF ok, of w]])
  fix w' assume "EVP_PKEY_CTX_new_id ssl w = (None, w')" "live w' = live w"
  with d show ?thesis by (simp add: rsa_fromdata_def rsa_post_fail)
next
  fix c w1 assume c: "EVP_PKEY_CTX_new_id ssl w = (Some c, w1)" "c \<notin> live w" "live w1 = insert c (live w)"
  let ?t = "t\<lparr>t_ctx := Some c\<rparr>"
  obtain r w2 where i: "EVP_PKEY_fromdata_init ssl c w1 = (r, w2)" by fastforce
  have l2: "live w2 = live w1" using openssl_okD(8) [OF ok, of c w1] i by simp
  have tt: "temps ?t = c # temps t" using t by (simp add: temps_def)
  have d': "distinct (temps ?t)" "set (temps ?t) \<inter> live w0 = {}" "live w2 = live w0 \<union> set (temps ?t)"
    using d c l2 by (auto simp: tt)
  have fail: "rsa_post live w0 k (INVALID_PUB_KEY, ?t, k', v)"
    if "live v = live w0 \<union> set (temps ?t)" "alg_idx k' = alg_idx k" "exp_sig_size k' = exp_sig_size k" for k' v
    using that by (intro rsa_post_fail d') simp_all
  have "rsafe (check_ok (EVP_PKEY_fromdata ssl c Null p w2) (\<lambda>(r, q, w).
      if r \<noteq> 1 then check_ok (if q \<noteq> Null then EVP_PKEY_free ssl q w else Inr w) (\<lambda>w.
          Inr (INVALID_PUB_KEY, ?t, k\<lparr>pkey := q\<rparr>, w))
      else check_ok (c_assert (q \<noteq> Null)) (\<lambda>_. case EVP_MD_CTX_new ssl w of (x, w) \<Rightarrow>
          Inr (if x \<noteq> None then CERT_OK else INVALID_PUB_KEY, ?t, k\<lparr>pkey := q, md_ctx := ptr_of x\<rparr>, w))))
    (rsa_post live w0 k)"
  proof (rule safe_seq3 [OF fromdata_safe [OF ok]], elim disjE exE conjE, goal_cases)
    case (1 r q w3)
    then show ?case using d' by (auto intro: fail)
  next
    case (2 r q w3 a)
    then have a: "a \<notin> live w2" "live w3 = insert a (live w2)" "q = Addr a" by auto
    show ?case
    proof (cases "r = 1")
      case False
      have "rsafe (EVP_PKEY_free ssl (Addr a) w3) (\<lambda>w'. live w' = live w2)"
        using frees_new [OF openssl_okD(9) [OF ok] a(1,2)] .
      then have "rsafe (check_ok (EVP_PKEY_free ssl (Addr a) w3) (\<lambda>w.
          Inr (INVALID_PUB_KEY, ?t, k\<lparr>pkey := q\<rparr>, w))) (rsa_post live w0 k)"
        by (rule safe_check_ok) (use d' in \<open>auto intro: fail\<close>)
      with False a(3) show ?thesis by simp
    next
      case True
      show ?thesis
      proof (rule allocates_cases [OF openssl_okD(2) [OF ok, of w3]])
        fix w4 assume m: "EVP_MD_CTX_new ssl w3 = (None, w4)" "live w4 = live w3"
        have "rsa_post live w0 k (INVALID_PUB_KEY, ?t, k\<lparr>pkey := Addr a, md_ctx := Null\<rparr>, w4)"
          using a m d' by (auto simp: rsa_post_def intro!: exI [of _ "[a]"])
        with m True a(3) show ?thesis by (simp add: ptr_of_def)
      next
        fix b w4 assume m: "EVP_MD_CTX_new ssl w3 = (Some b, w4)" "b \<notin> live w3" "live w4 = insert b (live w3)"
        have "rsa_post live w0 k (CERT_OK, ?t, k\<lparr>pkey := Addr a, md_ctx := Addr b\<rparr>, w4)"
          using a m d' by (auto simp: rsa_post_def intro!: exI [of _ "[a, b]"])
        with m True a(3) show ?thesis by (simp add: ptr_of_def)
      qed
    qed
  qed
  moreover have "rsa_post live w0 k (INVALID_PUB_KEY, ?t, k, w2)" by (rule fail) (use d' in auto)
  ultimately show ?thesis
    by (simp add: rsa_fromdata_def c(1) i k Let_def cong: if_cong)
qed


lemma rsa_push_live: "openssl_ok ssl live \<Longrightarrow> rsa_push ssl b m e w = (r, w') \<Longrightarrow> live w' = live w"
  using openssl_okD(5) [of ssl live b "''n''" "Some m" w]
    openssl_okD(5) [of ssl live b "''e''" "Some e" "snd (OSSL_PARAM_BLD_push_BN ssl b ''n'' (Some m) w)"]
    openssl_okD(5) [of ssl live b "''d''" None "snd (OSSL_PARAM_BLD_push_BN ssl b ''e'' (Some e)
       (snd (OSSL_PARAM_BLD_push_BN ssl b ''n'' (Some m) w)))"]
  by (auto simp: rsa_push_def split: prod.splits if_splits)

lemma rsa_try_safe:
  assumes ok: "openssl_ok ssl live" and k: "pkey k = Null"
  shows "rsafe (rsa_try ssl ns n es e k w) (rsa_post live w k)"
proof (rule allocates_cases [OF openssl_okD(3) [OF ok, of w ns n]])
  fix w' assume "BN_bin2bn ssl ns n w = (None, w')" "live w' = live w"
  then show ?thesis by (simp add: rsa_try_def Let_def rsa_post_fail no_temps_def temps_def)
next
  fix m w1 assume m: "BN_bin2bn ssl ns n w = (Some m, w1)" "m \<notin> live w" "live w1 = insert m (live w)"
  show ?thesis
  proof (rule allocates_cases [OF openssl_okD(3) [OF ok, of w1 es e]])
    fix w' assume "BN_bin2bn ssl es e w1 = (None, w')" "live w' = live w1"
    with m show ?thesis by (simp add: rsa_try_def Let_def rsa_post_fail no_temps_def temps_def)
  next
    fix x w2 assume x: "BN_bin2bn ssl es e w1 = (Some x, w2)" "x \<notin> live w1" "live w2 = insert x (live w1)"
    show ?thesis
    proof (rule allocates_cases [OF openssl_okD(4) [OF ok, of w2]])
      fix w' assume "OSSL_PARAM_BLD_new ssl w2 = (None, w')" "live w' = live w2"
      with m x show ?thesis
        by (simp add: rsa_try_def Let_def rsa_post_fail no_temps_def temps_def insert_commute)
    next
      fix b w3 assume b: "OSSL_PARAM_BLD_new ssl w2 = (Some b, w3)" "b \<notin> live w2" "live w3 = insert b (live w2)"
      obtain r w4 where p: "rsa_push ssl b m x w3 = (r, w4)" by fastforce
      note l4 = rsa_push_live [OF ok p]
      show ?thesis
      proof (cases r)
        case False
        with m x b p l4 show ?thesis
          by (simp add: rsa_try_def Let_def rsa_post_fail no_temps_def temps_def insert_commute)
      next
        case True
        show ?thesis
        proof (rule allocates_cases [OF openssl_okD(6) [OF ok, of w4 b]])
          fix w' assume "OSSL_PARAM_BLD_to_param ssl b w4 = (None, w')" "live w' = live w4"
          with m x b p l4 True show ?thesis
            by (simp add: rsa_try_def Let_def rsa_post_fail no_temps_def temps_def insert_commute)
        next
          fix q w5 assume q: "OSSL_PARAM_BLD_to_param ssl b w4 = (Some q, w5)" "q \<notin> live w4"
            "live w5 = insert q (live w4)"
          let ?t = "\<lparr>t_modulus = Some m, t_exp = Some x, t_build = Some b, t_params = Some q, t_ctx = None\<rparr>"
          have "rsafe (rsa_fromdata ssl ?t q k w5) (rsa_post live w k)"
            by (rule rsa_fromdata_safe [OF ok k]) (use m x b l4 q in \<open>auto simp: temps_def\<close>)
          with m x b p True q show ?thesis by (simp add: rsa_try_def Let_def no_temps_def)
        qed
      qed
    qed
  qed
qed

text \<open>
  A key the code owns: its two OpenSSL objects, distinct and allocated. \<open>key_objs\<close> is that pair.
\<close>

definition owns :: "('w \<Rightarrow> nat set) \<Rightarrow> 'w \<Rightarrow> PubKey \<Rightarrow> bool" where
  "owns live w k \<longleftrightarrow> (\<exists>a b. pkey k = Addr a \<and> md_ctx k = Addr b \<and> a \<noteq> b \<and> a \<in> live w \<and> b \<in> live w)"

definition key_objs :: "PubKey \<Rightarrow> nat set" where
  "key_objs k = {a. pkey k = Addr a \<or> md_ctx k = Addr a}"

text \<open>
  The contract of an algorithm's extraction: no fault, the index is kept; a success returns two
  new objects, a failure leaves at most one object that nobody frees.
\<close>

definition SIG_SIZES :: "uinta set" where
  "SIG_SIZES = {64, 114, 384, 512}"

definition extract_post :: "('w \<Rightarrow> nat set) \<Rightarrow> 'w \<Rightarrow> PubKey \<Rightarrow> ExtractCode \<times> PubKey \<times> 'w \<Rightarrow> bool" where
  "extract_post live w k = (\<lambda>(code, k', w').
     alg_idx k' = alg_idx k \<and>
     (if code = CERT_OK
      then owns live w' k' \<and> key_objs k' \<inter> live w = {} \<and> live w' = live w \<union> key_objs k' \<and>
        exp_sig_size k' \<in> SIG_SIZES
      else live w' = live w \<or> (\<exists>a. a \<notin> live w \<and> live w' = insert a (live w))))"

lemma extract_post_fail:
  "code \<noteq> CERT_OK \<Longrightarrow> alg_idx k' = alg_idx k \<Longrightarrow> extract_post live w k (code, k', w)"
  by (simp add: extract_post_def)

lemma rsa_post_out:
  assumes ok: "openssl_ok ssl live" and r: "rsa_post live w k (code, t, k', w')"
    and n: "exp_sig_size k \<in> SIG_SIZES"
  shows "rsafe (rsa_out ssl t w') (\<lambda>w''. extract_post live w k (code, k', w''))"
proof -
  from r obtain ks where d: "distinct (temps t @ ks)" "set (temps t @ ks) \<inter> live w = {}"
    and l: "live w' = live w \<union> set (temps t @ ks)" and i: "alg_idx k' = alg_idx k" "exp_sig_size k' = exp_sig_size k"
    and c: "if code = CERT_OK then \<exists>a b. ks = [a, b] \<and> pkey k' = Addr a \<and> md_ctx k' = Addr b
        else length ks \<le> 1"
    by (auto simp: rsa_post_def)
  have "rsafe (rsa_out ssl t w') (\<lambda>w''. live w'' = live w' - set (temps t))"
    by (rule rsa_out_safe [OF ok]) (use d l in auto)
  then show ?thesis
  proof (rule safe_mono)
    fix w'' assume "live w'' = live w' - set (temps t)"
    with d l have l'': "live w'' = live w \<union> set ks" "set ks \<inter> live w = {}" by auto
    show "extract_post live w k (code, k', w'')"
    proof (cases "code = CERT_OK")
      case True
      with c obtain a b where ks: "ks = [a, b]" "pkey k' = Addr a" "md_ctx k' = Addr b" by auto
      then have "key_objs k' = {a, b}" by (auto simp: key_objs_def)
      with True ks l'' i d n show ?thesis by (auto simp: extract_post_def owns_def)
    next
      case False
      with c have "ks = [] \<or> (\<exists>a. ks = [a])" by (cases ks) auto
      with False l'' i show ?thesis by (auto simp: extract_post_def)
    qed
  qed
qed


lemma fields_ok_ranges:
  assumes "fields_ok raw sz f" "valid_end raw sz"
  shows "signed_data_start f \<le> signed_data_end f" "valid_end raw (signed_data_end f)"
    "sig_id_start f \<le> sig_id_end f" "valid_end raw (sig_id_end f)"
    "sig_oid_start f \<le> sig_oid_end f" "valid_end raw (sig_oid_end f)"
    "pub_key_id_start f \<le> pub_key_id_end f" "valid_end raw (pub_key_id_end f)"
    "pub_key_oid_start f \<le> pub_key_oid_end f" "pub_key_oid_end f \<le> pub_key_id_end f"
    "valid_end raw (pub_key_oid_end f)" "pub_key_start f \<le> pub_key_end f" "valid_end raw (pub_key_end f)"
    "sig_start f \<le> sig_end f" "valid_end raw (sig_end f)"
    "opt_range raw (skid_start f) (skid_end f)" "opt_range raw (akid_start f) (akid_end f)"
proof -
  from assms(1) obtain i j k seen where f: "signed_data_start f < i" "i \<le> j" "j \<le> k"
    "issuer_ranges i j f" "key_ranges j k f" "k \<le> signed_data_end f" "signed_data_end f < sz"
    "signature_ranges (signed_data_end f) sz f" and x: "extn_inv raw seen f"
    by (auto simp: fields_ok_def)
  note d = f(4,5,8)[unfolded issuer_ranges_def key_ranges_def signature_ranges_def]
  from x show "opt_range raw (skid_start f) (skid_end f)" "opt_range raw (akid_start f) (akid_end f)"
    by (simp_all add: extn_inv_def)
  from f d show "signed_data_start f \<le> signed_data_end f" by auto
  from d show "sig_id_start f \<le> sig_id_end f" "sig_oid_start f \<le> sig_oid_end f"
    "pub_key_id_start f \<le> pub_key_id_end f" "pub_key_oid_start f \<le> pub_key_oid_end f"
    "pub_key_oid_end f \<le> pub_key_id_end f" "pub_key_start f \<le> pub_key_end f" "sig_start f \<le> sig_end f"
    by auto
  have "signed_data_end f \<le> sz" "sig_id_end f \<le> sz" "sig_oid_end f \<le> sz" "pub_key_id_end f \<le> sz"
    "pub_key_oid_end f \<le> sz" "pub_key_end f \<le> sz" "sig_end f \<le> sz"
    using f d by auto
  then show "valid_end raw (signed_data_end f)" "valid_end raw (sig_id_end f)"
    "valid_end raw (sig_oid_end f)" "valid_end raw (pub_key_id_end f)" "valid_end raw (pub_key_oid_end f)"
    "valid_end raw (pub_key_end f)" "valid_end raw (sig_end f)"
    by (auto intro: valid_end_mono [OF assms(2)])
qed

lemma certeq_slices:
  "valid_end raw e0 \<Longrightarrow> valid_end raw e1 \<Longrightarrow> s0 \<le> e0 \<Longrightarrow> s1 \<le> e1 \<Longrightarrow>
   certeq raw s0 e0 s1 e1 = Inr (slice raw s0 e0 = slice raw s1 e1)"
  by (simp add: certeq_def memeq_ranges_slices)

lemma ed_extract_safe:
  assumes ok: "openssl_ok ssl live" and v: "valid_end raw sz" and f: "fields_ok raw sz f"
    and n: "exp_sig_size k \<in> SIG_SIZES"
  shows "rsafe (ed_extract ssl raw f kt k w) (extract_post live w k)"
proof -
  note r = fields_ok_ranges [OF f v]
  let ?key = "slice raw (pub_key_start f) (pub_key_end f)"
  have new: "rsafe (case EVP_PKEY_new_raw_public_key ssl kt ?key w of
      (None, w) \<Rightarrow> Inr (INVALID_PUB_KEY, k, w)
    | (Some p, w) \<Rightarrow> (case EVP_MD_CTX_new ssl w of (ctx, w) \<Rightarrow>
        let k' = k\<lparr>pkey := Addr p, md := None, md_ctx := ptr_of ctx\<rparr> in
        if md_ctx k' = Null then Inr (INVALID_PUB_KEY, k', w) else Inr (CERT_OK, k', w)))
    (extract_post live w k)"
  proof (rule allocates_cases [OF openssl_okD(1) [OF ok, of w kt ?key]])
    fix w' assume "EVP_PKEY_new_raw_public_key ssl kt ?key w = (None, w')" "live w' = live w"
    then show ?thesis by (simp add: extract_post_def)
  next
    fix p w1 assume p: "EVP_PKEY_new_raw_public_key ssl kt ?key w = (Some p, w1)" "p \<notin> live w"
      "live w1 = insert p (live w)"
    show ?thesis
    proof (rule allocates_cases [OF openssl_okD(2) [OF ok, of w1]])
      fix w' assume "EVP_MD_CTX_new ssl w1 = (None, w')" "live w' = live w1"
      with p show ?thesis by (auto simp: extract_post_def ptr_of_def Let_def)
    next
      fix c w2 assume c: "EVP_MD_CTX_new ssl w1 = (Some c, w2)" "c \<notin> live w1" "live w2 = insert c (live w1)"
      with p n show ?thesis by (auto simp: extract_post_def ptr_of_def Let_def owns_def key_objs_def)
    qed
  qed
  then show ?thesis
    unfolding ed_extract_def
    by (simp add: certeq_slices r rd_bytes_slice extract_post_fail)
qed

lemma rsa_params_end_safe:
  assumes v: "valid_end raw sz" and f: "fields_ok raw sz f"
  shows "rsafe (rsa_params_end raw f) (\<lambda>_. True)"
  unfolding rsa_params_end_def
  by (rule safe_check_ok [OF catch_safe [OF parse_null_safe]])
    (use fields_ok_ranges [OF f v] in \<open>auto split: sum.split\<close>)

lemma rsa_digest_safe:
  assumes v: "valid_end raw sz" and f: "fields_ok raw sz f"
  shows "rsafe (rsa_digest raw f) (\<lambda>_. True)"
  using fields_ok_ranges [OF f v] by (simp add: rsa_digest_def Let_def memeq_safe)

lemma rsa_integers_safe:
  assumes v: "valid_end raw (pub_key_end f)"
  shows "psafe (rsa_integers raw f) (\<lambda>(ms, me, es, ee).
    pub_key_start f < ms \<and> ms \<le> me \<and> me < es \<and> es \<le> ee \<and> ee \<le> pub_key_end f)"
  unfolding rsa_integers_def
proof (rule safe_seq2 [OF parse_data_element_safe [OF v]], goal_cases)
  case (1 i e)
  then have v': "valid_end raw e" using v by (auto intro: valid_end_mono)
  show ?case
    by (rule safe_seq2 [OF parse_data_element_safe [OF v']], rule safe_seq2 [OF parse_data_element_safe [OF v']])
      (use 1 in auto)
qed

lemma rsa_extract_safe:
  assumes ok: "openssl_ok ssl live" and v: "valid_end raw sz" and f: "fields_ok raw sz f"
    and k: "pkey k = Null"
  shows "rsafe (rsa_extract ssl raw f k w) (extract_post live w k)"
  unfolding rsa_extract_def
proof (rule safe_check_ok [OF rsa_params_end_safe [OF v f]], rule safe_if, simp add: extract_post_fail,
    rule safe_check_ok [OF rsa_digest_safe [OF v f]], goal_cases)
  case (1 idx d)
  show ?case
  proof (cases d)
    case (Some dg)
    let ?k = "k\<lparr>md := Some dg\<rparr>"
    note vk = fields_ok_ranges(13) [OF f v]
    show ?thesis
      unfolding Some option.case Let_def
    proof (rule safe_check_ok [OF catch_safe [OF rsa_integers_safe [OF vk]]], goal_cases)
      case (1 r)
      show ?case
      proof (cases r)
        case (Inr q)
        obtain ms me es ee where q: "q = (ms, me, es, ee)" by (cases q)
        with 1 Inr have le: "ms \<le> me" "me < es" "es \<le> ee" "ee \<le> pub_key_end f" by auto
        then have ve: "valid_end raw me" "valid_end raw ee" using vk by (auto intro: valid_end_mono)
        show ?thesis
        proof (cases "rsa_sig_size (me - ms)")
          case (Some n)
          then have n: "n \<in> SIG_SIZES" by (auto simp: rsa_sig_size_def SIG_SIZES_def split: if_splits)
          let ?k' = "?k\<lparr>exp_sig_size := n\<rparr>"
          have att: "rsafe (check_ok (rsa_try ssl ns nn es' nn' ?k' w) (\<lambda>(ret, t, k'', w).
              check_ok (rsa_out ssl t w) (\<lambda>w. Inr (ret, k'', w)))) (extract_post live w k)" for ns nn es' nn'
          proof (rule safe_check_ok [OF rsa_try_safe [OF ok]], use k in simp, goal_cases)
            case (1 a)
            obtain code t k'' w' where a: "a = (code, t, k'', w')" by (cases a)
            have "rsafe (rsa_out ssl t w') (\<lambda>w''. extract_post live w ?k' (code, k'', w''))"
              by (rule rsa_post_out [OF ok]) (use 1 a n in auto)
            then show ?case
              unfolding a split_conv
              by (rule safe_check_ok) (simp add: extract_post_def)
          qed
          then show ?thesis
            using Some by (simp add: Inr q rd_bytes_slice ve le)
        qed (simp add: Inr q extract_post_fail)
      qed (simp add: extract_post_fail)
    qed
  qed (simp add: extract_post_fail)
qed

section \<open>The interface of an algorithm\<close>

text \<open>
  What a row of the table owes its callers: extraction from the fields of a parsed certificate into
  a slot that \<open>slot_ok\<close> describes, verification and release of a key it extracted.
\<close>

locale signature_alg =
  fixes live :: "'w \<Rightarrow> nat set"
    and lib_ok :: bool
    and slot_ok :: "byte list \<Rightarrow> x509Fields \<Rightarrow> PubKey \<Rightarrow> bool"
    and get_key :: "byte list \<Rightarrow> x509Fields \<Rightarrow> PubKey \<Rightarrow> 'w \<Rightarrow> 'w extracted"
    and check_sig :: "PubKey \<Rightarrow> byte list \<Rightarrow> byte list \<Rightarrow> 'w \<Rightarrow> (bool \<times> 'w) run"
    and release :: "PubKey \<Rightarrow> 'w \<Rightarrow> 'w run"
  assumes extract_safe:
      "lib_ok \<Longrightarrow> valid_end raw sz \<Longrightarrow> fields_ok raw sz f \<Longrightarrow> slot_ok raw f k \<Longrightarrow>
       rsafe (get_key raw f k w) (extract_post live w k)"
    and verify_safe:
      "lib_ok \<Longrightarrow> owns live w k \<Longrightarrow>
       rsafe (check_sig k d s w) (\<lambda>(b, w'). live w' = live w \<and> (b \<longrightarrow> of_nat (length s) = exp_sig_size k))"
    and free_safe:
      "lib_ok \<Longrightarrow> owns live w k \<Longrightarrow> rsafe (release k w) (\<lambda>w'. live w' = live w - key_objs k)"
begin

text \<open>The key is kept when the signature is valid, and released otherwise.\<close>

lemma verify_or_free:
  assumes "lib_ok" "owns live w k"
  shows "rsafe (check_ok (check_sig k d s w) (\<lambda>(valid, w).
      if valid then Inr (CERT_OK, g k, w) else check_ok (release k w) (\<lambda>w. Inr (INVALID_SIG, k, w))))
    (\<lambda>(code, k', w'). code = CERT_OK \<and> k' = g k \<and> live w' = live w \<and> of_nat (length s) = exp_sig_size k \<or>
       code = INVALID_SIG \<and> k' = k \<and> live w' = live w - key_objs k)"
proof (rule safe_seq2 [OF verify_safe [OF assms]], goal_cases)
  case (1 b w')
  then have "owns live w' k" using assms(2) by (simp add: owns_def)
  note fr = free_safe [OF assms(1) this]
  show ?case
    by (rule safe_if, use 1 in simp, rule safe_check_ok [OF fr]) (use 1 in simp)
qed

end

lemma openssl_verify_safe:
  assumes ok: "openssl_ok ssl live" and k: "owns live w k"
  shows "rsafe (openssl_verify ssl k d s w) (\<lambda>(b, w'). live w' = live w \<and> (b \<longrightarrow> of_nat (length s) = exp_sig_size k))"
proof (cases "of_nat (length s) = exp_sig_size k")
  case True
  from k obtain a b where ab: "pkey k = Addr a" "md_ctx k = Addr b" "a \<in> live w" "b \<in> live w"
    by (auto simp: owns_def)
  have "rsafe (check_ok (EVP_DigestVerifyInit ssl (Addr b) (md k) (Addr a) w) (\<lambda>(r, w).
      if r = 0 then Inr (False, w)
      else check_ok (EVP_DigestVerify ssl (Addr b) s d w) (\<lambda>(r, w). Inr (r = 1, w))))
    (\<lambda>(b, w'). live w' = live w)"
  proof (rule safe_seq2 [OF digest_safe(1) [OF ok ab(4,3)]], rule safe_if, simp, goal_cases)
    case (1 r w')
    then show ?case using ab by (intro safe_seq2 [OF digest_safe(2) [OF ok]]) auto
  qed
  with True show ?thesis unfolding openssl_verify_def ab by simp
qed (simp add: openssl_verify_def)

lemma openssl_free_safe:
  assumes ok: "openssl_ok ssl live" and k: "owns live w k"
  shows "rsafe (openssl_free ssl k w) (\<lambda>w'. live w' = live w - key_objs k)"
proof -
  from k obtain a b where ab: "pkey k = Addr a" "md_ctx k = Addr b" "a \<in> live w" "b \<in> live w" "a \<noteq> b"
    by (auto simp: owns_def)
  have objs: "live w - key_objs k = live w - {a} - {b}" using ab by (auto simp: key_objs_def)
  have f: "rsafe (EVP_PKEY_free ssl (Addr a) w) (\<lambda>w'. live w' = live w - {a})"
    and g: "b \<in> live v \<Longrightarrow> rsafe (EVP_MD_CTX_free ssl (Addr b) v) (\<lambda>w'. live w' = live v - {b})" for v
    using openssl_okD(9,10) [OF ok] ab unfolding frees_def by blast+
  show ?thesis
    unfolding openssl_free_def ab objs
    by (rule safe_check_ok [OF f], rule safe_mono [OF g]) (use ab in auto)
qed

interpretation ed25519: signature_alg live "openssl_ok ssl live" "\<lambda>_ _ _. True" "ed25519_extract ssl"
  "openssl_verify ssl" "openssl_free ssl" for ssl live
proof (unfold_locales, goal_cases)
  case (1 raw sz f k w)
  have "rsafe (ed25519_extract ssl raw f k w) (extract_post live w (k\<lparr>exp_sig_size := 64\<rparr>))"
    unfolding ed25519_extract_def by (rule ed_extract_safe) (use 1 in \<open>auto simp: SIG_SIZES_def\<close>)
  then show ?case by (simp add: extract_post_def)
qed (rule openssl_verify_safe openssl_free_safe; assumption)+

interpretation ed448: signature_alg live "openssl_ok ssl live" "\<lambda>_ _ _. True" "ed448_extract ssl"
  "openssl_verify ssl" "openssl_free ssl" for ssl live
proof (unfold_locales, goal_cases)
  case (1 raw sz f k w)
  have "rsafe (ed448_extract ssl raw f k w) (extract_post live w (k\<lparr>exp_sig_size := 114\<rparr>))"
    unfolding ed448_extract_def by (rule ed_extract_safe) (use 1 in \<open>auto simp: SIG_SIZES_def\<close>)
  then show ?case by (simp add: extract_post_def)
qed (rule openssl_verify_safe openssl_free_safe; assumption)+

interpretation rsa: signature_alg live "openssl_ok ssl live" "\<lambda>_ _ k. pkey k = Null" "rsa_extract ssl"
  "openssl_verify ssl" "openssl_free ssl" for ssl live
proof (unfold_locales, goal_cases)
  case (1 raw sz f k w)
  then show ?case by (intro rsa_extract_safe)
qed (rule openssl_verify_safe openssl_free_safe; assumption)+

section \<open>The table\<close>

text \<open>The object identifier of the certificate's public key algorithm.\<close>

definition key_oid :: "byte list \<Rightarrow> x509Fields \<Rightarrow> byte list" where
  "key_oid raw f = slice raw (pub_key_oid_start f) (pub_key_oid_end f)"

text \<open>The slot an RSA key is extracted into must hold a null pointer; the others do not care.\<close>

definition slot_fits :: "byte list \<Rightarrow> x509Fields \<Rightarrow> PubKey \<Rightarrow> bool" where
  "slot_fits raw f k \<longleftrightarrow> key_oid raw f = rsa_oid \<longrightarrow> pkey k = Null"

lemma find_alg_valid:
  "valid_end raw sz \<Longrightarrow> fields_ok raw sz f \<Longrightarrow>
   find_alg (supported_algs ssl) 0 raw f = Inr
     (if key_oid raw f = ed25519_oid then Some (0, ed25519 ssl)
      else if key_oid raw f = ed448_oid then Some (1, ed448 ssl)
      else if key_oid raw f = rsa_oid then Some (2, rsa ssl) else None)"
  using fields_ok_ranges [of raw sz f]
  by (simp add: supported_algs_def memeq_safe key_oid_def ed25519_def ed448_def rsa_def)

lemma pub_key_extract_safe:
  assumes ok: "openssl_ok ssl live" and v: "valid_end raw sz" and f: "fields_ok raw sz f"
    and k: "slot_fits raw f k"
  shows "rsafe (pub_key_extract ssl raw f k w) (\<lambda>(code, k', w').
    extract_post live w k' (code, k', w') \<and>
    (code = CERT_OK \<longrightarrow> alg_idx k' < 3 \<and> key_oid raw f = [ed25519_oid, ed448_oid, rsa_oid] ! unat (alg_idx k')))"
proof -
  have row: "rsafe (extract_key alg raw f (k\<lparr>alg_idx := i\<rparr>) w) (\<lambda>(code, k', w').
      extract_post live w k' (code, k', w') \<and> alg_idx k' = i)"
    if "rsafe (extract_key alg raw f (k\<lparr>alg_idx := i\<rparr>) w) (extract_post live w (k\<lparr>alg_idx := i\<rparr>))"
    for alg i
    using that by (rule safe_mono) (auto simp: extract_post_def)
  note ed = row [of "ed25519 ssl" 0] and ed4 = row [of "ed448 ssl" 1] and rs = row [of "rsa ssl" 2]
  consider "key_oid raw f = ed25519_oid" | "key_oid raw f = ed448_oid"
    | "key_oid raw f = rsa_oid" | "key_oid raw f \<notin> {ed25519_oid, ed448_oid, rsa_oid}" by blast
  then show ?thesis
  proof cases
    case 1
    have "rsafe (extract_key (ed25519 ssl) raw f (k\<lparr>alg_idx := 0\<rparr>) w) (\<lambda>(code, k', w').
      extract_post live w k' (code, k', w') \<and> alg_idx k' = 0)"
      by (rule ed) (simp add: ed25519_def ed25519.extract_safe [OF ok v f])
    then show ?thesis
      unfolding pub_key_extract_def find_alg_valid [OF v f] using 1
      by (simp add: pub_key_extract_def) (erule safe_mono, auto)
  next
    case 2
    have "rsafe (extract_key (ed448 ssl) raw f (k\<lparr>alg_idx := 1\<rparr>) w) (\<lambda>(code, k', w').
      extract_post live w k' (code, k', w') \<and> alg_idx k' = 1)"
      by (rule ed4) (simp add: ed448_def ed448.extract_safe [OF ok v f])
    then show ?thesis
      unfolding pub_key_extract_def find_alg_valid [OF v f] using 2
      by (simp add: ed448_oid_def ed25519_oid_def) (erule safe_mono, auto)
  next
    case 3
    then have "pkey k = Null" using k by (simp add: slot_fits_def)
    then have "rsafe (extract_key (rsa ssl) raw f (k\<lparr>alg_idx := 2\<rparr>) w) (\<lambda>(code, k', w').
      extract_post live w k' (code, k', w') \<and> alg_idx k' = 2)"
      by (intro rs) (simp add: rsa_def rsa.extract_safe [OF ok v f])
    then show ?thesis
      unfolding pub_key_extract_def find_alg_valid [OF v f] using 3
      by (simp add: ed448_oid_def ed25519_oid_def rsa_oid_def) (erule safe_mono, auto)
  next
    case 4
    then show ?thesis
      by (simp add: pub_key_extract_def find_alg_valid [OF v f] extract_post_def)
  qed
qed

lemma alg_of_openssl:
  assumes "alg_idx k < 3"
  obtains alg where "alg_of ssl k = Inr alg" "verify_sig alg = openssl_verify ssl"
    "free_key alg = openssl_free ssl"
proof -
  have "unat (alg_idx k) < 3" using assms by (simp add: word_less_nat_alt)
  then have "unat (alg_idx k) \<in> {0, 1, 2}" by auto
  with that show thesis
    by (auto simp: alg_of_def supported_algs_def ed25519_def ed448_def rsa_def)
qed

lemma pub_key_verify_openssl:
  "alg_idx k < 3 \<Longrightarrow> pub_key_verify ssl k d s w = openssl_verify ssl k d s w"
  by (erule alg_of_openssl [of k ssl]) (auto simp: pub_key_verify_def openssl_verify_def)

lemma pub_key_free_openssl:
  "alg_idx k < 3 \<Longrightarrow> pub_key_free ssl (Some k) w = openssl_free ssl k w"
  by (erule alg_of_openssl [of k ssl]) (auto simp: pub_key_free_def)

section \<open>Self-signed certificates\<close>

text \<open>What \<open>check_self_sign\<close> demands of the fields at time \<open>now\<close>.\<close>

definition self_sign_ok :: "byte list \<Rightarrow> x509Fields \<Rightarrow> int \<Rightarrow> bool" where
  "self_sign_ok raw f now \<longleftrightarrow>
     not_before f \<le> now \<and> now \<le> not_after f \<and> key_cert_sign f \<and>
     (skid_start f = IDX_NONE \<longleftrightarrow> akid_start f = IDX_NONE) \<and>
     (skid_start f \<noteq> IDX_NONE \<longrightarrow>
        slice raw (skid_start f) (skid_end f) = slice raw (akid_start f) (akid_end f)) \<and>
     has_key_usage f \<and> has_ext_key_usage f \<and> key_usage_flags f AND usage_mask = usage_mask"

lemma opt_range_some: "opt_range raw s e \<Longrightarrow> s \<noteq> IDX_NONE \<Longrightarrow> s \<le> e \<and> valid_end raw e"
  by (auto simp: opt_range_def)

lemma check_self_sign_valid:
  assumes v: "valid_end raw sz" and f: "fields_ok raw sz f"
  obtains c where "check_self_sign raw f now = Inr c" "c = CERT_OK \<longleftrightarrow> self_sign_ok raw f now"
proof -
  note r = fields_ok_ranges [OF f v]
  note s = opt_range_some [OF r(16)] and a = opt_range_some [OF r(17)]
  let ?U = "\<not> has_key_usage f \<or> \<not> has_ext_key_usage f \<or> key_usage_flags f AND usage_mask \<noteq> usage_mask"
  consider "not_after f < now" | "now < not_before f" | "\<not> key_cert_sign f"
    | "(skid_start f = IDX_NONE) \<noteq> (akid_start f = IDX_NONE)"
    | (no) "\<not> not_after f < now" "\<not> now < not_before f" "key_cert_sign f"
      "skid_start f = IDX_NONE" "akid_start f = IDX_NONE"
    | (ids) "\<not> not_after f < now" "\<not> now < not_before f" "key_cert_sign f"
      "skid_start f \<noteq> IDX_NONE" "akid_start f \<noteq> IDX_NONE"
    by blast
  then show thesis
  proof cases
    case no
    then show ?thesis
      by (intro that [of "if ?U then INVALID_USAGE else CERT_OK"])
        (simp_all add: check_self_sign_def Let_def self_sign_ok_def)
  next
    case ids
    have "certeq raw (skid_start f) (skid_end f) (akid_start f) (akid_end f)
        = Inr (slice raw (skid_start f) (skid_end f) = slice raw (akid_start f) (akid_end f))"
      by (rule certeq_slices) (use ids s a in auto)
    with ids show ?thesis
      by (intro that [of "if slice raw (skid_start f) (skid_end f) \<noteq> slice raw (akid_start f) (akid_end f)
            then INVALID_SELF_SIGN else if ?U then INVALID_USAGE else CERT_OK"])
        (simp_all add: check_self_sign_def Let_def self_sign_ok_def)
  qed (auto intro!: that [of "if not_after f < now then EXPIRED else if now < not_before f then NOT_BEFORE
        else if \<not> key_cert_sign f then INVALID_USAGE else INVALID_SELF_SIGN"]
      simp: check_self_sign_def Let_def self_sign_ok_def split: if_splits)
qed

text \<open>
  A key the program keeps: its objects are allocated and its index is one of the table. \<open>signed_by\<close>:
  the library has verified the certificate's signature over its signed bytes with this key.
\<close>

definition key_ok :: "('w \<Rightarrow> nat set) \<Rightarrow> 'w \<Rightarrow> PubKey \<Rightarrow> bool" where
  "key_ok live w k \<longleftrightarrow> owns live w k \<and> alg_idx k < 3 \<and> exp_sig_size k \<in> SIG_SIZES"

definition signed_by :: "'w OpenSSL \<Rightarrow> byte list \<Rightarrow> x509Fields \<Rightarrow> PubKey \<Rightarrow> bool" where
  "signed_by ssl raw f k \<longleftrightarrow>
     (\<exists>w w'. openssl_verify ssl k (slice raw (signed_data_start f) (signed_data_end f))
               (slice raw (sig_start f) (sig_end f)) w = Inr (True, w'))"

definition self_sign_post ::
    "'w OpenSSL \<Rightarrow> ('w \<Rightarrow> nat set) \<Rightarrow> byte list \<Rightarrow> x509Fields \<Rightarrow> int \<Rightarrow> 'w \<Rightarrow>
     ExtractCode \<times> PubKey \<times> 'w \<Rightarrow> bool" where
  "self_sign_post ssl live raw f now w = (\<lambda>(code, k, w').
     if code = CERT_OK
     then self_sign_ok raw f now \<and> signed_by ssl raw f k \<and> key_ok live w' k \<and>
       expiry k = not_after f \<and> key_oid raw f = [ed25519_oid, ed448_oid, rsa_oid] ! unat (alg_idx k) \<and>
       of_nat (length (slice raw (sig_start f) (sig_end f))) = exp_sig_size k \<and>
       key_objs k \<inter> live w = {} \<and> live w' = live w \<union> key_objs k
     else live w' = live w \<or> (\<exists>a. a \<notin> live w \<and> live w' = insert a (live w)))"

lemma openssl_verify_expiry [simp]:
  "openssl_verify ssl (k\<lparr>expiry := t\<rparr>) d s w = openssl_verify ssl k d s w"
  by (simp add: openssl_verify_def cong: if_cong)

lemma extract_self_sign_safe:
  assumes ok: "openssl_ok ssl live" and v: "valid_end raw sz" and f: "fields_ok raw sz f"
    and k: "self_sign_ok raw f now \<Longrightarrow> slot_fits raw f k"
  shows "rsafe (extract_self_sign_for_code_sign ssl raw f now k w) (self_sign_post ssl live raw f now w)"
proof (rule check_self_sign_valid [OF v f, of now])
  fix c assume c: "check_self_sign raw f now = Inr c" "c = CERT_OK \<longleftrightarrow> self_sign_ok raw f now"
  note r = fields_ok_ranges [OF f v]
  let ?data = "slice raw (signed_data_start f) (signed_data_end f)"
  let ?sig = "slice raw (sig_start f) (sig_end f)"
  show ?thesis
  proof (cases "c = CERT_OK")
    case False
    with c show ?thesis by (simp add: extract_self_sign_for_code_sign_def self_sign_post_def)
  next
    case True
    have "rsafe (check_ok (pub_key_extract ssl raw f k w) (\<lambda>(code, k, w).
        if code \<noteq> CERT_OK then Inr (code, k, w)
        else check_ok (pub_key_verify ssl k ?data ?sig w) (\<lambda>(valid, w).
          if valid then Inr (CERT_OK, k\<lparr>expiry := not_after f\<rparr>, w)
          else check_ok (pub_key_free ssl (Some k) w) (\<lambda>w. Inr (INVALID_SIG, k, w)))))
      (self_sign_post ssl live raw f now w)"
    proof (rule safe_seq3 [OF pub_key_extract_safe [OF ok v f k]], use c True in simp, rule safe_if, goal_cases)
      case (1 code k1 w1)
      then show ?case by (auto simp: self_sign_post_def extract_post_def)
    next
      case (2 code k1 w1)
      then have k1: "owns live w1 k1" "key_objs k1 \<inter> live w = {}" "live w1 = live w \<union> key_objs k1"
        "exp_sig_size k1 \<in> SIG_SIZES" "alg_idx k1 < 3"
        "key_oid raw f = [ed25519_oid, ed448_oid, rsa_oid] ! unat (alg_idx k1)"
        by (auto simp: extract_post_def)
      show ?case
        unfolding pub_key_verify_openssl [OF k1(5)] pub_key_free_openssl [OF k1(5)]
      proof (rule safe_seq2 [OF openssl_verify_safe [OF ok k1(1)]], goal_cases)
        case (1 b w2)
        show ?case
        proof (cases b)
          case True
          have "signed_by ssl raw f (k1\<lparr>expiry := not_after f\<rparr>)"
            using 1(1) True by (auto simp: signed_by_def)
          with True 1 k1 c \<open>c = CERT_OK\<close> show ?thesis
            by (auto simp: self_sign_post_def key_ok_def owns_def key_objs_def)
        next
          case False
          from 1 k1 have o2: "owns live w2 k1" by (simp add: owns_def)
          have "rsafe (check_ok (openssl_free ssl k1 w2) (\<lambda>w. Inr (INVALID_SIG, k1, w)))
              (self_sign_post ssl live raw f now w)"
            by (rule safe_check_ok [OF openssl_free_safe [OF ok o2]])
              (use 1 k1 in \<open>auto simp: self_sign_post_def\<close>)
          with False show ?thesis by simp
        qed
      qed
    qed
    then show ?thesis
      unfolding extract_self_sign_for_code_sign_def c(1)
      using True by (simp add: rd_bytes_slice r cong: if_cong)
  qed
qed

end
