(* ===== verification/Read_Cert.thy ===== *)
theory Read_Cert
  imports Crypto_Contracts
begin

text \<open>
  \<open>src/read_cert.c\<close>: a certificate file is opened, mapped, parsed and checked, every failure
  has one message, and the descriptor and the mapping are released on every path. The answers of
  the operating system are the input \<open>cert_file\<close>; what the call does to it is a list of
  \<open>file_event\<close>s.
\<close>

section \<open>The operating system\<close>

text \<open>
  \<open>map_result\<close> is \<open>mmap\<close>'s answer: an \<open>errno\<close>, or the bytes of the file.
\<close>

record cert_file =
  open_result :: int
  fstat_result :: int
  file_size :: int
  map_result :: "int + byte list"
  clock_now :: int

datatype file_event =
    Message string string "int list"   \<comment> \<open>\<open>fprintf(stderr, ...)\<close>: the format without its final newline, the path, the numbers\<close>
  | CloseFile int
  | Unmap

definition ENODEV :: int where "ENODEV = 19"

section \<open>Messages\<close>

fun extract_message :: "ExtractCode \<Rightarrow> string option" where
  "extract_message CERT_OK = None"
| "extract_message EXPIRED = Some ''Cerficate has expired (%s)''"
| "extract_message NOT_BEFORE = Some ''Cerficate is dated into the future (%s)''"
| "extract_message INVALID_SELF_SIGN = Some ''Cerficate is not self-signed (%s)''"
| "extract_message INVALID_USAGE = Some
    ''Cerficate has restricted usage, it must explicitly allow code signing and certificate signing (%s)''"
| "extract_message INVALID_PUB_KEY_PARAMS = Some ''Cerficate has invalid public key parameters (%s)''"
| "extract_message INVALID_PUB_KEY = Some ''Cerficate had an invalid public key (%s)''"
| "extract_message UNSUPPORTED_ALG = Some ''Cerficate uses an unsupported public key algorithm (%s)''"
| "extract_message INVALID_SIG = Some ''Cerficate's signature could not be authenticated (%s)''"

fun parse_message :: "ParseCode \<Rightarrow> string option" where
  "parse_message PARSE_OK = None"
| "parse_message UNEXPECTED_END_OF_DATA = Some ''Certificate sequence encoding ended unexpectedly (%s)''"
| "parse_message UNEXPECTED_IDENTIFIER = Some ''Encountered unexpected identifier in certificate (%s)''"
| "parse_message INVALID_LENGTH_FORM = Some ''Encountered invalid encoding length in certificate (%s)''"
| "parse_message TRAILING_DATA = Some ''Certificate encoding had invalid trailing data (%s)''"
| "parse_message INVALID_VERSION = Some ''Only v3 x509 certificates are accepted (%s)''"
| "parse_message INVALID_BOOLEAN = Some ''Encountered invalid boolean value in certificate (%s)''"
| "parse_message INVALID_INTEGER = Some ''Encountered invalid integer value in certificate (%s)''"
| "parse_message INVALID_VALIDITY_TIME = Some ''Encountered invalid certificate validity timestamp (%s)''"
| "parse_message MISMATCHED_SIG_ID = Some ''Certificate signature identifiers did not match (%s)''"
| "parse_message EXCEEDS_MAX_EXTNS = Some ''Certificate contained too many extensions (%s)''"
| "parse_message DUPLICATE_EXTNS = Some ''Certificate contained a duplicate extension (%s)''"
| "parse_message UNRECOGNIZED_CRITICAL_EXTN = Some
    ''Certificate contained an unrecognized critical extension (%s)''"
| "parse_message INVALID_CRITICALITY = Some ''Certificate extension had incorrect criticality (%s)''"
| "parse_message INVALID_BITSTRING = Some ''Encountered invalid bitstring in certificate (%s)''"

definition report :: "string option \<Rightarrow> string \<Rightarrow> file_event list" where
  "report m path = (case m of None \<Rightarrow> [] | Some s \<Rightarrow> [Message s path []])"

section \<open>The certificate of a mapped file\<close>

text \<open>
  Parse, then verify: whether \<open>ret_pub_key\<close> was filled in, the slot and the library as they are
  then, and the messages.
\<close>

definition accept_cert ::
    "'w OpenSSL \<Rightarrow> byte list \<Rightarrow> uinta \<Rightarrow> int \<Rightarrow> string \<Rightarrow> PubKey \<Rightarrow> 'w \<Rightarrow>
     (bool \<times> PubKey \<times> 'w \<times> file_event list) run" where
  "accept_cert ssl raw_cert raw_cert_size now path ret_pub_key w =
    check_ok (catch (parse_x509 raw_cert raw_cert_size zero_fields)) (\<lambda>r.
      case r of
        Inl code \<Rightarrow> Inr (False, ret_pub_key, w, report (parse_message code) path)
      | Inr flds \<Rightarrow>
          check_ok (extract_self_sign_for_code_sign ssl raw_cert flds now ret_pub_key w)
            (\<lambda>(code, ret_pub_key, w).
              Inr (code = CERT_OK, ret_pub_key, w, report (extract_message code) path)))"

section \<open>Reading a file\<close>

text \<open>A single-quoted conversion in a format.\<close>

definition quoted :: "string \<Rightarrow> string" where
  "quoted s = CHR 0x27 # s @ [CHR 0x27]"

definition read_cert ::
    "'w OpenSSL \<Rightarrow> cert_file \<Rightarrow> string \<Rightarrow> PubKey \<Rightarrow> 'w \<Rightarrow>
     (bool \<times> PubKey \<times> 'w \<times> file_event list) run" where
  "read_cert ssl os path ret_pub_key w =
    (let fd = open_result os in
     if fd < 0 then Inr (False, ret_pub_key, w, [Message (''Unable to open input file: '' @ quoted ''%s'') path []])
     else if fstat_result os < 0 then
       Inr (False, ret_pub_key, w,
            [Message (''fstat on file '' @ quoted ''%s'' @ '' failed with err %d'') path [fstat_result os], CloseFile fd])
     else if file_size os \<le> 0 then
       Inr (False, ret_pub_key, w, [Message (quoted ''%s'' @ '' does not contain data'') path [], CloseFile fd])
     else
       case map_result os of
         Inl errno \<Rightarrow>
           Inr (False, ret_pub_key, w,
             [if errno = ENODEV then Message (quoted ''%s'' @ '' is not a file'') path []
              else Message (''mmap of '' @ quoted ''%s'' @ '' failed with errno = %d'') path [errno], CloseFile fd])
       | Inr raw_cert \<Rightarrow>
           check_ok (accept_cert ssl raw_cert (of_int (file_size os)) (clock_now os) path ret_pub_key w)
             (\<lambda>(populated, ret_pub_key, w, out). Inr (populated, ret_pub_key, w, out @ [Unmap, CloseFile fd])))"

section \<open>Correctness\<close>

text \<open>
  What \<open>mmap\<close> and \<open>fstat\<close> promise of a file that is not changed meanwhile: the mapping holds
  \<open>st_size\<close> bytes, and is an object of the process.
\<close>

definition cert_file_ok :: "cert_file \<Rightarrow> bool" where
  "cert_file_ok os \<longleftrightarrow>
     (\<forall>raw. map_result os = Inr raw \<longrightarrow> int (length raw) = file_size os \<and> length raw \<le> PTRDIFF_MAX)"

text \<open>
  A slot fits a file unless the file is a certificate that passes the checks, its key is an RSA key and the slot's
  pointer is not null.
\<close>

definition slot_reads :: "cert_file \<Rightarrow> PubKey \<Rightarrow> bool" where
  "slot_reads os k \<longleftrightarrow>
     (\<forall>raw f. map_result os = Inr raw \<longrightarrow> parse_x509 raw (of_int (file_size os)) zero_fields = Inr f \<longrightarrow>
        self_sign_ok raw f (clock_now os) \<longrightarrow> slot_fits raw f k)"

lemma slot_reads_null: "pkey k = Null \<Longrightarrow> slot_reads os k"
  by (simp add: slot_reads_def slot_fits_def)

lemma file_valid_end:
  assumes "cert_file_ok os" "map_result os = Inr raw"
  shows "valid_end raw (of_int (file_size os))" "slice raw 0 (of_int (file_size os)) = raw"
proof -
  from assms have l: "int (length raw) = file_size os" "length raw \<le> PTRDIFF_MAX"
    by (auto simp: cert_file_ok_def)
  have "of_int (file_size os) = (of_nat (length raw) :: uinta)" by (simp flip: l(1))
  moreover have "unat (of_nat (length raw) :: uinta) = length raw"
    using l(2) by (simp add: unat_of_nat take_bit_nat_eq_self PTRDIFF_MAX_def)
  ultimately show "valid_end raw (of_int (file_size os))" "slice raw 0 (of_int (file_size os)) = raw"
    using l(2) by (simp_all add: valid_end_def object_size_def slice_def)
qed

text \<open>
  An accepted certificate: it parses, its fields pass the checks at the time of the call, and the
  key is the one \<open>extract_self_sign_for_code_sign\<close> fills in.
\<close>

definition accepted_by ::
    "'w OpenSSL \<Rightarrow> ('w \<Rightarrow> nat set) \<Rightarrow> byte list \<Rightarrow> uinta \<Rightarrow> int \<Rightarrow> 'w \<Rightarrow> PubKey \<Rightarrow> 'w \<Rightarrow> bool" where
  "accepted_by ssl live raw sz now w k w' \<longleftrightarrow>
     (\<exists>f k0. parse_x509 raw sz zero_fields = Inr f \<and> fields_ok raw sz f \<and>
        extract_self_sign_for_code_sign ssl raw f now k0 w = Inr (CERT_OK, k, w') \<and>
        self_sign_post ssl live raw f now w (CERT_OK, k, w'))"

definition leak_at_most_one :: "('w \<Rightarrow> nat set) \<Rightarrow> 'w \<Rightarrow> 'w \<Rightarrow> bool" where
  "leak_at_most_one live w w' \<longleftrightarrow> live w' = live w \<or> (\<exists>a. a \<notin> live w \<and> live w' = insert a (live w))"

lemma accept_cert_safe:
  assumes ok: "openssl_ok ssl live" and v: "valid_end raw sz"
    and k: "\<And>f. parse_x509 raw sz zero_fields = Inr f \<Longrightarrow> self_sign_ok raw f now \<Longrightarrow> slot_fits raw f k"
  shows "rsafe (accept_cert ssl raw sz now path k w) (\<lambda>(b, k', w', out).
    (if b then accepted_by ssl live raw sz now w k' w' \<and> out = []
     else leak_at_most_one live w w' \<and> (\<exists>m. out = [Message m path []])))"
  unfolding accept_cert_def
proof (rule safe_check_ok [OF catch_safe [OF parse_x509_safe [OF v]]], goal_cases)
  case (1 r)
  show ?case
  proof (cases r)
    case (Inl c)
    with 1 have "c \<noteq> PARSE_OK" by simp
    then have "\<exists>m. parse_message c = Some m" by (cases c) auto
    with Inl show ?thesis by (auto simp: report_def leak_at_most_one_def)
  next
    case (Inr f)
    with 1 have f: "fields_ok raw sz f" and p: "parse_x509 raw sz zero_fields = Inr f"
      by (auto simp: catch_def split: sum.splits fail.splits)
    note s = k [OF p]
    show ?thesis
      unfolding Inr sum.case
    proof (rule safe_seq3 [OF extract_self_sign_safe [OF ok v f s, unfolded self_sign_post_def]], assumption, goal_cases)
      case (1 code k' w')
      show ?case
      proof (cases "code = CERT_OK")
        case True
        with 1 p f show ?thesis by (auto simp: accepted_by_def self_sign_post_def report_def)
      next
        case False
        then have "\<exists>m. extract_message code = Some m" by (cases code) auto
        with False 1 show ?thesis by (auto simp: report_def leak_at_most_one_def)
      qed
    qed
  qed
qed

text \<open>
  A call releases what it acquired: the descriptor once if it was opened, the mapping if there was
  one. Exactly one message goes with every failure, none with a success.
\<close>

definition read_post ::
    "'w OpenSSL \<Rightarrow> ('w \<Rightarrow> nat set) \<Rightarrow> cert_file \<Rightarrow> 'w \<Rightarrow>
     bool \<times> PubKey \<times> 'w \<times> file_event list \<Rightarrow> bool" where
  "read_post ssl live os w = (\<lambda>(b, k, w', out).
     (if b then (\<exists>raw. map_result os = Inr raw \<and>
          accepted_by ssl live raw (of_int (file_size os)) (clock_now os) w k w')
      else leak_at_most_one live w w') \<and>
     length (filter (\<lambda>e. case e of Message _ _ _ \<Rightarrow> True | _ \<Rightarrow> False) out) = (if b then 0 else 1) \<and>
     filter (\<lambda>e. case e of CloseFile _ \<Rightarrow> True | _ \<Rightarrow> False) out
       = (if open_result os < 0 then [] else [CloseFile (open_result os)]) \<and>
     (Unmap \<in> set out \<longleftrightarrow> 0 \<le> open_result os \<and> 0 \<le> fstat_result os \<and> 0 < file_size os \<and>
        (\<exists>raw. map_result os = Inr raw)))"

lemma read_cert_safe:
  assumes ok: "openssl_ok ssl live" and os: "cert_file_ok os" and k: "slot_reads os k"
  shows "rsafe (read_cert ssl os path k w) (read_post ssl live os w)"
proof (cases "open_result os < 0 \<or> fstat_result os < 0 \<or> file_size os \<le> 0")
  case True
  then show ?thesis
    by (cases "open_result os < 0"; cases "fstat_result os < 0")
      (simp_all add: read_cert_def read_post_def leak_at_most_one_def)
next
  case False
  show ?thesis
  proof (cases "map_result os")
    case (Inl errno)
    with False show ?thesis
      by (cases "errno = ENODEV") (simp_all add: read_cert_def read_post_def leak_at_most_one_def)
  next
    case (Inr raw)
    note v = file_valid_end(1) [OF os Inr]
    have "rsafe (check_ok (accept_cert ssl raw (of_int (file_size os)) (clock_now os) path k w)
        (\<lambda>(b, k, w, out). Inr (b, k, w, out @ [Unmap, CloseFile (open_result os)])))
        (read_post ssl live os w)"
    proof (rule safe_check_ok [OF accept_cert_safe [OF ok v]], use k Inr in \<open>simp add: slot_reads_def\<close>, goal_cases)
      case (1 a)
      then show ?case using False Inr
        by (cases a; cases "fst a") (auto simp: read_post_def)
    qed
    with False Inr show ?thesis by (simp add: read_cert_def)
  qed
qed

end
