(* ===== verification/Exec.thy ===== *)
theory Exec
  imports Prelude
begin

text \<open>
  \<open>src/exec.c\<close>: an authenticated script is fed to \<open>bash\<close> through a pipe. The answers of
  the system calls are inputs, and the result is the list of what the parent does.
\<close>

section \<open>The parent and the child\<close>

text \<open>\<open>write_results\<close> are the answers of the successive \<open>write\<close> calls, as \<open>int\<close>.\<close>

record exec_os =
  pipe_result :: int
  fork_result :: int
  write_results :: "int list"

datatype exec_event =
    ExecMessage string uint32          \<comment> \<open>\<open>fprintf(stderr, ...)\<close> or \<open>printf\<close> and \<open>fflush\<close>\<close>
  | ExecPerror string
  | Fed "byte list"                    \<comment> \<open>bytes the pipe accepts from one \<open>write\<close>\<close>
  | ClosePipe bool                     \<comment> \<open>the read end (\<open>False\<close>) or the write end (\<open>True\<close>)\<close>
  | Reaped int                         \<comment> \<open>\<open>waitpid\<close> has returned for the child\<close>
  | NoAnswer                           \<comment> \<open>a \<open>write\<close> has no answer: it blocks\<close>

text \<open>
  The write loop. A \<open>write\<close> of \<open>script_size - i\<close> bytes that answers \<open>ret \<ge> 0\<close> has put the
  first \<open>ret\<close> of them into the pipe.
\<close>

fun write_loop :: "byte list \<Rightarrow> uinta \<Rightarrow> uinta \<Rightarrow> int list \<Rightarrow> exec_event list run" where
  "write_loop script script_size i [] = Inr (if i < script_size then [NoAnswer] else [])"
| "write_loop script script_size i (ret # rets) =
    (if i < script_size then
       if ret < 0 then Inr [ExecPerror ''write to command pipe failed'']
       else
         check_ok (rd_bytes script i (of_int ret)) (\<lambda>bs.
         check_ok (write_loop script script_size (i + of_int ret) rets) (\<lambda>es. Inr (Fed bs # es)))
     else Inr [])"

definition exec_script :: "byte list \<Rightarrow> uinta \<Rightarrow> uint32 \<Rightarrow> exec_os \<Rightarrow> exec_event list run" where
  "exec_script script script_size script_n os =
    (if pipe_result os < 0 then
       Inr [ExecMessage ''Failed to create a pipe for executing remote bash script #%d'' script_n]
     else if fork_result os < 0 then
       Inr [ExecMessage ''Failed to create a child process for remote bash script #%d'' script_n,
            ClosePipe False, ClosePipe True]
     else
       check_ok (write_loop script script_size 0 (write_results os)) (\<lambda>es.
         Inr (ExecMessage ''Remote bash script #%d received and authenticated, executing now...'' script_n #
              es @ (if NoAnswer \<in> set es then []
                    else [ClosePipe False, ClosePipe True, Reaped (fork_result os)]))))"

text \<open>The child, from the results of \<open>dup2\<close>; \<open>execlp\<close> returns only when it fails.\<close>

datatype child_event = Dup2Stdin | CloseChildPipe bool | ExecBash | ChildPerror string | ChildExit int

definition exec_child :: "int \<Rightarrow> bool \<Rightarrow> child_event list" where
  "exec_child dup2_result exec_fails =
    [Dup2Stdin, CloseChildPipe False, CloseChildPipe True] @
    (if dup2_result < 0 then [ChildPerror ''dup2 pipe to stdin failed'', ChildExit (- 1)]
     else if exec_fails then [ExecBash, ChildPerror ''execlp'', ChildExit (- 1)]
     else [ExecBash])"

section \<open>What bash reads\<close>

definition fed :: "exec_event list \<Rightarrow> byte list" where
  "fed es = concat (map (\<lambda>e. case e of Fed bs \<Rightarrow> bs | _ \<Rightarrow> []) es)"

text \<open>
  The documented answers of \<open>write\<close> on a pipe for \<open>n\<close> bytes, \<open>0 < n\<close>: an error, or a number
  between 1 and \<open>n\<close>.
\<close>

fun write_answers :: "nat \<Rightarrow> int list \<Rightarrow> bool" where
  "write_answers n [] \<longleftrightarrow> True"
| "write_answers n (ret # rets) \<longleftrightarrow>
     n = 0 \<or> ret < 0 \<or> 0 < ret \<and> ret \<le> int n \<and> write_answers (n - nat ret) rets"

lemma fed_simps [simp]:
  "fed [] = []" "fed (Fed bs # es) = bs @ fed es" "fed (ExecPerror m # es) = fed es"
  "fed (ExecMessage m n # es) = fed es" "fed (ClosePipe b # es) = fed es"
  "fed (Reaped p # es) = fed es" "fed (NoAnswer # es) = fed es"
  by (simp_all add: fed_def)

lemma fed_append [simp]: "fed (es @ es') = fed es @ fed es'"
  by (simp add: fed_def)

lemma write_loop_safe:
  assumes v: "valid_end script n" and i: "i \<le> n" and a: "write_answers (unat n - unat i) rets"
    and sz: "unat n < 2 ^ 31"
  shows "safe () (write_loop script n i rets) (\<lambda>es.
     \<exists>j \<ge> i. j \<le> n \<and> fed es = slice script i j \<and>
       (NoAnswer \<notin> set es \<and> (\<forall>m. ExecPerror m \<notin> set es) \<longrightarrow> j = n) \<and>
       (length rets \<ge> unat n - unat i \<longrightarrow> NoAnswer \<notin> set es))"
  using i a
proof (induction rets arbitrary: i)
  case Nil
  show ?case
  proof (cases "i < n")
    case True
    with Nil show ?thesis by (auto simp: word_less_nat_alt intro!: exI [of _ i])
  next
    case False
    with Nil have "i = n" by simp
    then show ?thesis by simp
  qed
next
  case (Cons ret rets)
  show ?case
  proof (cases "i < n \<and> 0 \<le> ret")
    case True
    then have lt: "unat i < unat n" by (simp add: word_less_nat_alt)
    with Cons.prems True have r: "0 < ret" "ret \<le> int (unat n - unat i)"
      "write_answers (unat n - unat i - nat ret) rets" by auto
    let ?r = "of_int ret :: uinta"
    have ur: "unat ?r = nat ret"
    proof -
      have "of_int ret = (of_nat (nat ret) :: uinta)" using r(1) by simp
      moreover have "nat ret \<le> unat n" using r(2) by linarith
      then have "nat ret < 2 ^ 64" using sz by simp
      ultimately show ?thesis by (simp add: unat_of_nat take_bit_nat_eq_self)
    qed
    have room: "nat ret \<le> unat n - unat i" using r(2) by linarith
    then have "unat i + nat ret < 2 ^ 64" using sz lt by simp
    then have ui: "unat (i + ?r) = unat i + nat ret"
      by (simp add: unat_word_ariths(1) ur)
    have le: "i \<le> i + ?r" "i + ?r \<le> n"
      using room lt by (simp_all add: word_le_nat_alt ui)
    have rd: "rd_bytes script i ?r = (Inr (slice script i (i + ?r)) :: byte list run)"
      using rd_bytes_slice [OF valid_end_mono [OF v le(2)] le(1)] by simp
    have a': "write_answers (unat n - unat (i + ?r)) rets" using r(3) by (simp add: ui)
    have "safe () (check_ok (write_loop script n (i + ?r) rets) (\<lambda>es. Inr (Fed (slice script i (i + ?r)) # es)))
      (\<lambda>es. \<exists>j \<ge> i. j \<le> n \<and> fed es = slice script i j \<and>
       (NoAnswer \<notin> set es \<and> (\<forall>m. ExecPerror m \<notin> set es) \<longrightarrow> j = n) \<and>
       (length (ret # rets) \<ge> unat n - unat i \<longrightarrow> NoAnswer \<notin> set es))"
    proof (rule safe_check_ok [OF Cons.IH [OF le(2) a']], goal_cases)
      case (1 es)
      then obtain j where j: "i + ?r \<le> j" "j \<le> n" "fed es = slice script (i + ?r) j"
        "NoAnswer \<notin> set es \<and> (\<forall>m. ExecPerror m \<notin> set es) \<longrightarrow> j = n"
        "length rets \<ge> unat n - unat (i + ?r) \<longrightarrow> NoAnswer \<notin> set es" by blast
      have "length (ret # rets) \<ge> unat n - unat i \<longrightarrow> length rets \<ge> unat n - unat (i + ?r)"
        using r(1) lt by (simp add: ui) linarith
      with j le slice_append [OF le(1) j(1), of script] show ?case
        by (auto intro!: exI [of _ j])
    qed
    with True rd show ?thesis by (simp add: not_less)
  next
    case False
    then show ?thesis using Cons.prems
      by (auto intro!: exI [of _ i] simp: not_less)
  qed
qed


text \<open>
  When pipe and fork succeed, the bytes that reach bash are a prefix of the script, in order; the
  whole script unless a write fails. Then both ends are closed, and only then the child is awaited.
\<close>

lemma exec_script_safe:
  assumes v: "valid_end script n" and sz: "unat n < 2 ^ 31"
    and a: "write_answers (unat n) (write_results os)" and len: "unat n \<le> length (write_results os)"
    and f: "0 \<le> pipe_result os" "0 \<le> fork_result os"
  shows "safe () (exec_script script n k os) (\<lambda>es. \<exists>es'. es =
     ExecMessage ''Remote bash script #%d received and authenticated, executing now...'' k #
     es' @ [ClosePipe False, ClosePipe True, Reaped (fork_result os)] \<and>
     (\<exists>j \<le> n. fed es' = slice script 0 j \<and> ((\<forall>m. ExecPerror m \<notin> set es') \<longrightarrow> j = n)))"
proof -
  have le: "(0 :: uinta) \<le> n" by (simp add: word_le_nat_alt)
  note loop = write_loop_safe [OF v le _ sz, of "write_results os"]
  have "safe () (check_ok (write_loop script n 0 (write_results os)) (\<lambda>es.
     Inr (ExecMessage ''Remote bash script #%d received and authenticated, executing now...'' k #
       es @ (if NoAnswer \<in> set es then [] else [ClosePipe False, ClosePipe True, Reaped (fork_result os)]))))
    (\<lambda>es. \<exists>es'. es =
     ExecMessage ''Remote bash script #%d received and authenticated, executing now...'' k #
     es' @ [ClosePipe False, ClosePipe True, Reaped (fork_result os)] \<and>
     (\<exists>j \<le> n. fed es' = slice script 0 j \<and> ((\<forall>m. ExecPerror m \<notin> set es') \<longrightarrow> j = n)))"
  proof (rule safe_check_ok [OF loop], use a in simp, goal_cases)
    case (1 es)
    then show ?case using len by auto
  qed
  with f show ?thesis by (simp add: exec_script_def)
qed

text \<open>
  Calls that all succeed: enough answers of \<open>write\<close> for \<open>n\<close> bytes, none of them an error. Then the child is
  given the whole script, and awaited.
\<close>

definition writes_all :: "nat \<Rightarrow> exec_os \<Rightarrow> bool" where
  "writes_all n os \<longleftrightarrow> 0 \<le> pipe_result os \<and> 0 \<le> fork_result os \<and> write_answers n (write_results os) \<and>
     n \<le> length (write_results os) \<and> (\<forall>r\<in>set (write_results os). 0 \<le> r)"

lemma write_loop_no_error:
  "write_loop script n i rets = Inr es \<Longrightarrow> \<forall>r\<in>set rets. 0 \<le> r \<Longrightarrow> ExecPerror m \<notin> set es"
  by (induction rets arbitrary: i es) (auto simp: if_fail split: if_splits)

lemma exec_script_all:
  assumes v: "valid_end script n" and sz: "unat n < 2 ^ 31" and a: "writes_all (unat n) os"
    and r: "exec_script script n k os = Inr es"
  shows "fed es = slice script 0 n \<and> Reaped (fork_result os) \<in> set es"
proof -
  from a have w: "write_answers (unat n) (write_results os)" "unat n \<le> length (write_results os)"
    "0 \<le> pipe_result os" "0 \<le> fork_result os" "\<forall>r\<in>set (write_results os). 0 \<le> r" by (auto simp: writes_all_def)
  from r w(3,4) obtain es0 where "write_loop script n 0 (write_results os) = Inr es0"
    "set es \<subseteq> set es0 \<union> {ExecMessage ''Remote bash script #%d received and authenticated, executing now...'' k,
      ClosePipe False, ClosePipe True, Reaped (fork_result os)}"
    by (auto simp: exec_script_def if_fail split: if_splits) blast
  then have "ExecPerror m \<notin> set es" for m using write_loop_no_error [OF _ w(5), of script n 0 es0 m] by auto
  with exec_script_safe [OF v sz w(1-4), of k] r show ?thesis by (fastforce simp: safe_def)
qed

end
