(* ===== verification/Server.thy ===== *)
theory Server
  imports Read_Cert Exec
begin

text \<open>
  \<open>src/main.c\<close>: the state of the server (\<open>Resources\<close>, \<open>Connection\<close>), the operations on
  connections, the loop over the keys, and the handler of each epoll event. What the operating system
  answers is the input of each operation; what the program does to it is a trace of effects.
\<close>

section \<open>State\<close>

definition MAX_SCRIPT_SIZE :: uinta where "MAX_SCRIPT_SIZE = 2 * 2 ^ 30"
definition KILOBYTE :: uinta where "KILOBYTE = 1024"
definition MAX_EPOLL_EVENTS :: nat where "MAX_EPOLL_EVENTS = 8"
definition MAX_CONCURRENCY :: nat where "MAX_CONCURRENCY = 128"
definition MAX_INT32 :: int where "MAX_INT32 = 0x7fffffff"
definition MAX_INT64 :: int where "MAX_INT64 = 0x7fffffffffffffff"

definition EPOLLIN :: uint32 where "EPOLLIN = 0x001"
definition EPOLLERR :: uint32 where "EPOLLERR = 0x008"
definition EPOLLHUP :: uint32 where "EPOLLHUP = 0x010"
definition EPOLLRDHUP :: uint32 where "EPOLLRDHUP = 0x2000"

text \<open>
  \<open>buf\<close> is the null pointer or a block of \<open>buf_cap\<close> bytes; the list holds the bytes of the block
  that have been written since it was allocated, so a read of an uninitialised byte is a fault.
\<close>

record Connection =
  fd :: int
  open_time :: int
  buf_size :: uinta
  buf_cap :: uinta
  buf :: "byte list option"

text \<open>
  \<open>keys\<close> is the null pointer or an array of \<open>keys_cap\<close> elements, of which the first
  \<open>keys_size\<close> are in use.
\<close>

record Resources =
  epoll_fd :: int
  socket_fd :: int
  script_n :: int
  keys :: "PubKey list option"
  keys_size :: uinta
  keys_cap :: uinta
  conns :: "Connection list"
  conns_total :: uinta

text \<open>\<open>Resources resources = {0};\<close>\<close>

definition zero_conn :: Connection where
  "zero_conn = \<lparr>fd = 0, open_time = 0, buf_size = 0, buf_cap = 0, buf = None\<rparr>"

definition zero_resources :: Resources where
  "zero_resources = \<lparr>epoll_fd = 0, socket_fd = 0, script_n = 0, keys = None, keys_size = 0,
     keys_cap = 0, conns = replicate MAX_CONCURRENCY zero_conn, conns_total = 0\<rparr>"

text \<open>What the server does to its environment, in order.\<close>

datatype effect =
    CloseFd int
  | Bind uint16                    \<comment> \<open>\<open>bind\<close> to this port, for any address\<close>
  | Listen int                     \<comment> \<open>\<open>listen\<close> with this backlog\<close>
  | Watch int uint32 int           \<comment> \<open>\<open>epoll_ctl\<close> adds a descriptor, for some events, with its data\<close>
  | FreeKeys                       \<comment> \<open>\<open>free(resources->keys)\<close>\<close>
  | FreeBuf                        \<comment> \<open>\<open>free(conn->buf)\<close>\<close>
  | Perror string
  | Printed string                 \<comment> \<open>\<open>printf\<close> or \<open>fprintf(stderr, ...)\<close>, the format\<close>
  | File file_event                \<comment> \<open>an effect of \<open>read_cert\<close>\<close>
  | Ran "byte list" int "exec_event list"   \<comment> \<open>\<open>exec_script\<close> of a script, its number, what it did\<close>

text \<open>The server's resources, the state of OpenSSL and the effects so far.\<close>

record 'w server =
  res :: Resources
  lib :: 'w
  trace :: "effect list"

definition emit :: "effect list \<Rightarrow> 'w server \<Rightarrow> 'w server" where
  "emit es s = s\<lparr>trace := trace s @ es\<rparr>"

text \<open>Whether the function goes on or returns a value.\<close>

datatype verdict = Continue | Return int

section \<open>Connections\<close>

text \<open>An index into \<open>resources->conns\<close> out of the array is a fault.\<close>

definition conn_at :: "'w server \<Rightarrow> nat \<Rightarrow> Connection run" where
  "conn_at s i = (if i < length (conns (res s)) then Inr (conns (res s) ! i) else Inl (Fault OutOfBounds))"

definition set_conn :: "nat \<Rightarrow> Connection \<Rightarrow> 'w server \<Rightarrow> 'w server" where
  "set_conn i c s = s\<lparr>res := (res s)\<lparr>conns := (conns (res s))[i := c]\<rparr>\<rparr>"

definition free_conn :: "nat \<Rightarrow> 'w server \<Rightarrow> 'w server run" where
  "free_conn i s =
    check_ok (conn_at s i) (\<lambda>conn.
      let s = emit [CloseFd (fd conn)] s;
          s = set_conn i (conn\<lparr>fd := 0, buf_size := 0, open_time := 0\<rparr>) s
      in Inr (s\<lparr>res := (res s)\<lparr>conns_total := conns_total (res s) - 1\<rparr>\<rparr>))"

text \<open>The linear lookup of the oldest open connection: the minimum so far and its index.\<close>

fun oldest_loop :: "Connection list \<Rightarrow> nat \<Rightarrow> int \<Rightarrow> nat option \<Rightarrow> nat option" where
  "oldest_loop [] i min_open_time min_conn = min_conn"
| "oldest_loop (conn # cs) i min_open_time min_conn =
    (if fd conn > 0 \<and> open_time conn < min_open_time
     then oldest_loop cs (i + 1) (open_time conn) (Some i)
     else oldest_loop cs (i + 1) min_open_time min_conn)"

definition evict :: "'w server \<Rightarrow> 'w server run" where
  "evict s =
    (if unat (conns_total (res s)) \<ge> MAX_CONCURRENCY then
       (case oldest_loop (conns (res s)) 0 MAX_INT64 None of
          None \<Rightarrow> Inl (Fault AssertFailed)
        | Some i \<Rightarrow> free_conn i s)
     else Inr s)"

text \<open>The first connection that is not in use.\<close>

fun unused_loop :: "Connection list \<Rightarrow> nat \<Rightarrow> nat option" where
  "unused_loop [] i = None"
| "unused_loop (conn # cs) i = (if fd conn \<le> 0 then Some i else unused_loop cs (i + 1))"

text \<open>Answers of \<open>accept\<close>, of \<open>epoll_ctl\<close> for the new connection, and of \<open>clock\<close>.\<close>

record accept_os =
  accept_result :: int
  add_result :: int
  clock_result :: int

definition open_conn :: "Connection \<Rightarrow> int \<Rightarrow> int \<Rightarrow> Connection" where
  "open_conn conn conn_fd now =
    (let conn = conn\<lparr>fd := conn_fd, open_time := now\<rparr> in
     if buf conn = None then conn\<lparr>buf_cap := KILOBYTE, buf_size := 0, buf := Some []\<rparr> else conn)"

text \<open>
  An event on the listening socket. The assertion \<open>conn_fd == 0\<close> fails when no connection is
  free or \<open>epoll_ctl\<close> has failed.
\<close>

definition accept_conn :: "accept_os \<Rightarrow> 'w server \<Rightarrow> 'w server run" where
  "accept_conn os s =
    check_ok (evict s) (\<lambda>s.
      let conn_fd = accept_result os in
      if conn_fd < 0 then Inr (emit [Perror ''Failed to accept a TCP connection''] s)
      else
        let s = s\<lparr>res := (res s)\<lparr>conns_total := conns_total (res s) + 1\<rparr>\<rparr> in
        case unused_loop (conns (res s)) 0 of
          None \<Rightarrow> check_ok (c_assert (conn_fd = 0)) (\<lambda>_. Inr s)
        | Some i \<Rightarrow>
            let s = emit [Watch conn_fd (EPOLLIN OR EPOLLRDHUP) (int i)] s in
            if add_result os < 0 then
              let s = emit [Perror ''Adding connection to epoll_ctl failed'', CloseFd conn_fd] s in
              check_ok (c_assert (conn_fd = 0)) (\<lambda>_. Inr s)
            else
              check_ok (conn_at s i) (\<lambda>conn. Inr (set_conn i (open_conn conn conn_fd (clock_result os)) s)))"

section \<open>Receiving\<close>

text \<open>
  \<open>recv\<close> with \<open>n\<close> bytes written into the block from \<open>buf_size\<close> on; more than there is room for
  would be a write out of bounds.
\<close>

definition recv_into :: "Connection \<Rightarrow> byte list \<Rightarrow> Connection run" where
  "recv_into conn bs =
    (case buf conn of
       None \<Rightarrow> Inl (Fault BadPointer)
     | Some old \<Rightarrow>
         if length bs \<le> unat (buf_cap conn - buf_size conn) \<and> unat (buf_size conn) \<le> length old
         then Inr (conn\<lparr>buf := Some (take (unat (buf_size conn)) old @ bs @
                                     drop (unat (buf_size conn) + length bs) old),
                        buf_size := buf_size conn + of_nat (length bs)\<rparr>)
         else Inl (Fault OutOfBounds))"

definition EAGAIN :: int where "EAGAIN = 11"

text \<open>
  The loop around \<open>recv\<close>: \<open>chunks\<close> are the successive answers that carry data (an empty one is
  an answer of 0), after which \<open>recv\<close> fails with \<open>errno\<close>. \<open>EWOULDBLOCK\<close> is \<open>EAGAIN\<close> on
  the targets.
\<close>

fun recv_loop :: "nat \<Rightarrow> byte list list \<Rightarrow> int \<Rightarrow> 'w server \<Rightarrow> 'w server run" where
  "recv_loop i [] errno s =
    (if errno \<noteq> EAGAIN then
       free_conn i (emit [Perror ''Failed to receive data from a TCP connection''] s)
     else Inr s)"
| "recv_loop i (bs # chunks) errno s =
    (if bs = [] then Inr s
     else
       check_ok (conn_at s i) (\<lambda>conn.
       check_ok (recv_into conn bs) (\<lambda>conn.
       if buf_size conn \<ge> MAX_SCRIPT_SIZE then
         free_conn i (emit [Printed ''TCP connection exceeded maximum allowed script size''] (set_conn i conn s))
       else
         let conn = (if buf_size conn \<ge> buf_cap conn then conn\<lparr>buf_cap := buf_cap conn * 2\<rparr> else conn) in
         recv_loop i chunks errno (set_conn i conn s))))"

section \<open>Authentication\<close>

text \<open>
  How the loop over the keys ends: no key verifies the script, one does (the script's start in the
  buffer is the index), or the last key has expired.
\<close>

datatype auth_result = Not_Authentic | Authentic uinta | All_Expired

definition swap_keys :: "PubKey list \<Rightarrow> nat \<Rightarrow> nat \<Rightarrow> PubKey list" where
  "swap_keys ks i j = ks[i := ks ! j, j := ks ! i]"

text \<open>
  \<open>bound\<close> is the value \<open>for_each_lt\<close> computed from \<open>keys_size\<close> when the loop began. An expired
  key is exchanged with the last one and the index is tried again.
\<close>

function auth_loop ::
    "'w OpenSSL \<Rightarrow> int \<Rightarrow> byte list \<Rightarrow> uinta \<Rightarrow> nat \<Rightarrow> nat \<Rightarrow> PubKey list \<Rightarrow> nat \<Rightarrow> 'w \<Rightarrow>
     (auth_result \<times> PubKey list \<times> nat \<times> 'w) run" where
  "auth_loop ssl now raw n bound i ks ksz w =
    (if i < bound then
       if i \<ge> length ks \<or> ksz > length ks then Inl (Fault OutOfBounds)
       else
         let pub_key = ks ! i in
         if now > expiry pub_key then
           if ksz > 1 then
             auth_loop ssl now raw n bound i (swap_keys ks i (ksz - 1)) (ksz - 1) w
           else Inr (All_Expired, ks, ksz, w)
         else
           let sig_end = exp_sig_size pub_key;
               script_start = exp_sig_size pub_key + 1
           in
           check_ok (if script_start \<le> n then check_ok (rd raw sig_end) (\<lambda>b. Inr (b = 10)) else Inr False) (\<lambda>sep.
           if sep then
             check_ok (rd_bytes raw script_start (n - script_start)) (\<lambda>script.
             check_ok (rd_bytes raw 0 sig_end) (\<lambda>sig.
             check_ok (pub_key_verify ssl pub_key script sig w) (\<lambda>(valid, w).
             if valid then Inr (Authentic script_start, ks, ksz, w)
             else auth_loop ssl now raw n bound (i + 1) ks ksz w)))
           else auth_loop ssl now raw n bound (i + 1) ks ksz w)
     else Inr (Not_Authentic, ks, ksz, w))"
  by pat_completeness auto
termination
  by (relation "measure (\<lambda>(_, _, _, _, bound, i, _, ksz, _). (bound - i) + ksz)") auto

declare auth_loop.simps [simp del]

text \<open>
  A terminated connection: \<open>now\<close> is the answer of \<open>time\<close>, \<open>xos\<close> those of \<open>exec_script\<close>. If one of its
  calls to \<open>write\<close> never returns, neither does the server.
\<close>

definition authenticate ::
    "'w OpenSSL \<Rightarrow> nat \<Rightarrow> int \<Rightarrow> (uinta \<Rightarrow> exec_os) \<Rightarrow> 'w server \<Rightarrow> (verdict \<times> 'w server) run" where
  "authenticate ssl idx now xos s =
    check_ok (conn_at s idx) (\<lambda>conn.
    case (buf conn, keys (res s)) of
      (Some raw, Some ks) \<Rightarrow>
        check_ok (auth_loop ssl now raw (buf_size conn) (unat (keys_size (res s))) 0 ks
                    (unat (keys_size (res s))) (lib s)) (\<lambda>(r, ks, ksz, w).
        let s = s\<lparr>lib := w, res := (res s)\<lparr>keys := Some ks, keys_size := of_nat ksz\<rparr>\<rparr> in
        case r of
          All_Expired \<Rightarrow> Inr (Return (- 1), emit [Printed ''All certificates have expired, closing server''] s)
        | Authentic script_start \<Rightarrow>
            let n = script_n (res s) + 1;
                s = s\<lparr>res := (res s)\<lparr>script_n := n\<rparr>\<rparr>
            in
            check_ok (rd_bytes raw script_start (buf_size conn - script_start)) (\<lambda>script.
            check_ok (exec_script script (buf_size conn - script_start) (of_int n)
                        (xos (buf_size conn - script_start))) (\<lambda>es.
            if NoAnswer \<in> set es then Inl (Fault Blocked)
            else check_ok (free_conn idx (emit [Ran script n es] s)) (\<lambda>s. Inr (Continue, s))))
        | Not_Authentic \<Rightarrow>
            check_ok (free_conn idx
              (emit [Printed ''Remote bash script could not be authenticated, aborting execution''] s))
              (\<lambda>s. Inr (Continue, s)))
    | _ \<Rightarrow> Inl (Fault BadPointer))"

section \<open>Events\<close>

text \<open>What the calls an event leads to will answer.\<close>

record event_os =
  acc :: accept_os
  recv_chunks :: "byte list list"
  recv_errno :: int
  time_result :: int
  exec_answers :: "uinta \<Rightarrow> exec_os"   \<comment> \<open>to a script of a given size\<close>

record epoll_event =
  data_fd :: int
  events :: uint32

definition handle_conn ::
    "'w OpenSSL \<Rightarrow> nat \<Rightarrow> uint32 \<Rightarrow> event_os \<Rightarrow> 'w server \<Rightarrow> (verdict \<times> 'w server) run" where
  "handle_conn ssl idx evs os s =
    check_ok (conn_at s idx) (\<lambda>conn.
    check_ok (c_assert (fd conn > 0)) (\<lambda>_.
    check_ok (if evs AND EPOLLIN > 0 then recv_loop idx (recv_chunks os) (recv_errno os) s else Inr s) (\<lambda>s.
    check_ok (conn_at s idx) (\<lambda>conn.
    check_ok (if fd conn > 0 \<and> evs AND (EPOLLRDHUP OR EPOLLHUP) > 0
              then authenticate ssl idx (time_result os) (exec_answers os) s else Inr (Continue, s)) (\<lambda>(v, s).
    case v of
      Return c \<Rightarrow> Inr (Return c, s)
    | Continue \<Rightarrow>
        check_ok (conn_at s idx) (\<lambda>conn.
        if fd conn > 0 \<and> evs AND EPOLLERR > 0
        then check_ok (free_conn idx s) (\<lambda>s. Inr (Continue, s))
        else Inr (Continue, s)))))))"

definition handle_event ::
    "'w OpenSSL \<Rightarrow> epoll_event \<Rightarrow> event_os \<Rightarrow> 'w server \<Rightarrow> (verdict \<times> 'w server) run" where
  "handle_event ssl event os s =
    (let idx = data_fd event in
     if idx = MAX_INT32 then check_ok (accept_conn (acc os) s) (\<lambda>s. Inr (Continue, s))
     else if idx < int MAX_CONCURRENCY then
       if idx < 0 then Inl (Fault OutOfBounds)
       else handle_conn ssl (nat idx) (events event) os s
     else Inr (Return (- 1), emit [Printed ''Epoll returned invalid data''] s))"

text \<open>The events of one \<open>epoll_wait\<close>, in order, until a handler returns from the function.\<close>

fun handle_events ::
    "'w OpenSSL \<Rightarrow> (epoll_event \<times> event_os) list \<Rightarrow> 'w server \<Rightarrow> (verdict \<times> 'w server) run" where
  "handle_events ssl [] s = Inr (Continue, s)"
| "handle_events ssl ((event, os) # evs) s =
    check_ok (handle_event ssl event os s) (\<lambda>(v, s).
      case v of Return c \<Rightarrow> Inr (Return c, s) | Continue \<Rightarrow> handle_events ssl evs s)"

text \<open>
  The event loop over the answers of \<open>epoll_wait\<close>: an error (\<open>Inl\<close>), or a batch of events.
\<close>

fun event_loop ::
    "'w OpenSSL \<Rightarrow> (int + (epoll_event \<times> event_os) list) list \<Rightarrow> 'w server \<Rightarrow> (verdict \<times> 'w server) run" where
  "event_loop ssl [] s = Inr (Continue, s)"
| "event_loop ssl (Inl errno # waits) s = Inr (Return (- 1), emit [Perror ''Call to epoll_wait failed''] s)"
| "event_loop ssl (Inr evs # waits) s =
    check_ok (handle_events ssl evs s) (\<lambda>(v, s).
      case v of Return c \<Rightarrow> Inr (Return c, s) | Continue \<Rightarrow> event_loop ssl waits s)"

end
