(* ===== verification/Connections.thy ===== *)
theory Connections
  imports Server "HOL-Library.Multiset"
begin

text \<open>
  The invariant of the table of connections, and the contracts of the operations on it: closing, evicting,
  accepting and receiving.
\<close>

section \<open>Invariants of the connections\<close>

text \<open>
  The open connections of an array, the block behind a connection, and the invariant: 128
  connections, each within its block, and \<open>conns_total\<close> of them open.
\<close>

definition open_conns :: "Connection list \<Rightarrow> nat" where
  "open_conns cs = length (filter (\<lambda>c. fd c > 0) cs)"

definition conn_inv :: "Connection \<Rightarrow> bool" where
  "conn_inv c \<longleftrightarrow>
     open_time c < MAX_INT64 \<and>
     (case buf c of
        None \<Rightarrow> fd c \<le> 0
      | Some bs \<Rightarrow> buf_size c < buf_cap c \<and> unat (buf_size c) \<le> length bs \<and> length bs \<le> unat (buf_cap c) \<and>
          buf_size c < MAX_SCRIPT_SIZE \<and> unat (buf_cap c) < 2 ^ 32)"

definition conns_inv :: "Resources \<Rightarrow> bool" where
  "conns_inv r \<longleftrightarrow>
     length (conns r) = MAX_CONCURRENCY \<and> (\<forall>c\<in>set (conns r). conn_inv c) \<and>
     unat (conns_total r) = open_conns (conns r)"

lemma open_conns_update:
  "i < length cs \<Longrightarrow>
   open_conns (cs[i := c]) + of_bool (fd (cs ! i) > 0) = open_conns cs + of_bool (fd c > 0)"
proof (induction cs arbitrary: i)
  case (Cons x cs)
  then show ?case by (cases i) (auto simp: open_conns_def)
qed simp

lemma open_conns_le: "open_conns cs \<le> length cs"
  by (simp add: open_conns_def)

lemma open_conns_pos: "i < length cs \<Longrightarrow> fd (cs ! i) > 0 \<Longrightarrow> 0 < open_conns cs"
  by (auto simp: open_conns_def filter_empty_conv)

lemma MAX_CONCURRENCY_nat [simp]: "MAX_CONCURRENCY = 128"
  by (simp add: MAX_CONCURRENCY_def)

lemma conns_inv_at: "conns_inv r \<Longrightarrow> i < MAX_CONCURRENCY \<Longrightarrow> i < length (conns r) \<and> conn_inv (conns r ! i)"
  by (simp add: conns_inv_def)

lemma conn_at_valid [simp]: "i < length (conns (res s)) \<Longrightarrow> conn_at s i = Inr (conns (res s) ! i)"
  by (simp add: conn_at_def)

lemma server_simps [simp]:
  "res (emit es s) = res s" "lib (emit es s) = lib s" "trace (emit es s) = trace s @ es"
  "conns (res (set_conn i c s)) = (conns (res s))[i := c]" "lib (set_conn i c s) = lib s"
  "trace (set_conn i c s) = trace s" "conns_total (res (set_conn i c s)) = conns_total (res s)"
  by (simp_all add: emit_def set_conn_def)

text \<open>The part of the state that the handlers of connections do not touch.\<close>

definition same_keys :: "'w server \<Rightarrow> 'w server \<Rightarrow> bool" where
  "same_keys s s' \<longleftrightarrow> keys (res s') = keys (res s) \<and> keys_size (res s') = keys_size (res s) \<and>
     keys_cap (res s') = keys_cap (res s) \<and> lib s' = lib s"

lemma same_keys_simps [simp, intro]:
  "same_keys s s" "same_keys s (emit es s)" "same_keys s (set_conn i c s)"
  by (simp_all add: same_keys_def emit_def set_conn_def)

lemma same_keys_trans: "same_keys s t \<Longrightarrow> same_keys t u \<Longrightarrow> same_keys s u"
  by (simp add: same_keys_def)

lemma conns_inv_emit [simp]: "conns_inv (res (emit es s)) = conns_inv (res s)"
  by simp

text \<open>An update of a connection that leaves it open, or closed.\<close>

lemma conns_inv_set:
  "conns_inv (res s) \<Longrightarrow> i < MAX_CONCURRENCY \<Longrightarrow> conn_inv c \<Longrightarrow>
   (fd c > 0 \<longleftrightarrow> fd (conns (res s) ! i) > 0) \<Longrightarrow> conns_inv (res (set_conn i c s))"
  using open_conns_update [of i "conns (res s)" c]
  by (auto simp: conns_inv_def dest!: set_update_subset_insert [THEN subsetD])

lemma conns_inv_close:
  assumes inv: "conns_inv r" and i: "i < MAX_CONCURRENCY" "fd (conns r ! i) > 0"
    and c: "conn_inv c" "fd c = 0"
  shows "conns_inv (r\<lparr>conns := (conns r)[i := c], conns_total := conns_total r - 1\<rparr>)"
proof -
  note at = conns_inv_at [OF inv i(1)]
  have "open_conns ((conns r)[i := c]) + 1 = open_conns (conns r)"
    using open_conns_update [of i "conns r" c] at i(2) c(2) by simp
  moreover have "0 < unat (conns_total r)"
    using inv open_conns_pos [of i "conns r"] at i(2) by (simp add: conns_inv_def)
  then have "conns_total r \<noteq> 0" by auto
  then have "unat (conns_total r - 1) = unat (conns_total r) - 1" by (rule unat_minus_one)
  ultimately show ?thesis
    using inv c by (auto simp: conns_inv_def dest!: set_update_subset_insert [THEN subsetD])
qed

lemma conn_inv_closed:
  "(\<And>bs. buf c = Some bs \<Longrightarrow> 0 < buf_cap c \<and> length bs \<le> unat (buf_cap c) \<and> unat (buf_cap c) < 2 ^ 32) \<Longrightarrow>
   conn_inv (c\<lparr>fd := 0, buf_size := 0, open_time := 0\<rparr>)"
  by (auto simp: conn_inv_def MAX_INT64_def MAX_SCRIPT_SIZE_def split: option.splits)

text \<open>Closing a connection, also one whose record has just been replaced by \<open>d\<close>.\<close>

lemma free_conn_set:
  assumes inv: "conns_inv (res s)" and i: "i < MAX_CONCURRENCY" "fd (conns (res s) ! i) > 0"
    and d: "conn_inv (d\<lparr>fd := 0, buf_size := 0, open_time := 0\<rparr>)"
  shows "rsafe (free_conn i (emit es (set_conn i d s))) (\<lambda>s'. conns_inv (res s') \<and> same_keys s s' \<and>
     conns (res s') = (conns (res s))[i := d\<lparr>fd := 0, buf_size := 0, open_time := 0\<rparr>] \<and>
     trace s' = trace s @ es @ [CloseFd (fd d)])"
  using conns_inv_at [OF inv i(1)] conns_inv_close [OF inv i d]
  by (simp add: free_conn_def Let_def same_keys_def emit_def set_conn_def)

lemma set_conn_same: "i < length (conns (res s)) \<Longrightarrow> set_conn i (conns (res s) ! i) s = s"
  by (simp add: set_conn_def)

lemma free_conn_safe:
  assumes inv: "conns_inv (res s)" and i: "i < MAX_CONCURRENCY" "fd (conns (res s) ! i) > 0"
  shows "rsafe (free_conn i s) (\<lambda>s'. conns_inv (res s') \<and> same_keys s s' \<and>
     (\<exists>c. conns (res s') = (conns (res s))[i := c] \<and> fd c = 0 \<and> buf c = buf (conns (res s) ! i)) \<and>
     trace s' = trace s @ [CloseFd (fd (conns (res s) ! i))])"
proof -
  let ?c = "conns (res s) ! i"
  note at = conns_inv_at [OF inv i(1)]
  then have "conn_inv (?c\<lparr>fd := 0, buf_size := 0, open_time := 0\<rparr>)"
    by (intro conn_inv_closed) (auto simp: conn_inv_def intro: le_less_trans [OF word_zero_le])
  note free = free_conn_set [OF inv i this, of "[]"]
  have "emit [] s = s" by (simp add: emit_def)
  with free at set_conn_same [of i s] have "rsafe (free_conn i s) (\<lambda>s'. conns_inv (res s') \<and> same_keys s s' \<and>
     conns (res s') = (conns (res s))[i := ?c\<lparr>fd := 0, buf_size := 0, open_time := 0\<rparr>] \<and>
     trace s' = trace s @ [] @ [CloseFd (fd ?c)])" by simp
  then show ?thesis by (rule safe_mono) (auto intro!: exI [of _ "?c\<lparr>fd := 0, buf_size := 0, open_time := 0\<rparr>"])
qed

text \<open>The loop finds a connection that has been open for longest.\<close>

lemma oldest_loop_min:
  "oldest_loop cs i t m = Some j \<Longrightarrow>
   m = Some j \<and> (\<forall>c\<in>set cs. fd c > 0 \<longrightarrow> t \<le> open_time c) \<or>
   i \<le> j \<and> j < i + length cs \<and> fd (cs ! (j - i)) > 0 \<and> open_time (cs ! (j - i)) < t \<and>
   (\<forall>c\<in>set cs. fd c > 0 \<longrightarrow> open_time (cs ! (j - i)) \<le> open_time c)"
proof (induction cs arbitrary: i t m)
  case (Cons c cs)
  show ?case
  proof (cases "fd c > 0 \<and> open_time c < t")
    case True
    with Cons.prems Cons.IH [of "i + 1" "open_time c" "Some i"] show ?thesis
      by (auto simp: nth_Cons')
  next
    case False
    then have "oldest_loop cs (i + 1) t m = Some j" using Cons.prems by auto
    from Cons.IH [OF this] False show ?thesis by (auto simp: nth_Cons')
  qed
qed simp

lemma oldest_loop_some:
  "m \<noteq> None \<or> (\<exists>c\<in>set cs. fd c > 0 \<and> open_time c < t) \<Longrightarrow> oldest_loop cs i t m \<noteq> None"
  by (induction cs i t m rule: oldest_loop.induct) auto

lemma unused_loop_some:
  "unused_loop cs i = Some j \<Longrightarrow> i \<le> j \<and> j < i + length cs \<and> fd (cs ! (j - i)) \<le> 0"
proof (induction cs arbitrary: i)
  case (Cons c cs)
  from Cons.prems Cons.IH [of "i + 1"] show ?case by (auto split: if_splits simp: nth_Cons')
qed simp

lemma unused_loop_none: "unused_loop cs i = None \<Longrightarrow> open_conns cs = length cs"
  by (induction cs i rule: unused_loop.induct) (auto simp: open_conns_def split: if_splits)

text \<open>Effects other than running a script, and states reached with effects of a kind.\<close>

definition quiet :: "effect \<Rightarrow> bool" where
  "quiet e \<longleftrightarrow> (\<forall>script n es. e \<noteq> Ran script n es)"

lemma quiet_simps [simp]:
  "quiet (CloseFd n)" "quiet (Perror m)" "quiet (Printed m)" "quiet (File f)" "quiet FreeKeys" "quiet FreeBuf"
  "quiet (Bind p)" "quiet (Listen k)" "quiet (Watch n evs i)"
  "\<not> quiet (Ran sc n es)"
  by (simp_all add: quiet_def)

definition extends :: "(effect \<Rightarrow> bool) \<Rightarrow> 'w server \<Rightarrow> 'w server \<Rightarrow> bool" where
  "extends P s s' \<longleftrightarrow> (\<exists>es. trace s' = trace s @ es \<and> (\<forall>e\<in>set es. P e))"

lemma extends_refl [simp, intro]: "extends P s s"
  by (simp add: extends_def)

lemma extends_trans: "extends P s t \<Longrightarrow> extends P t u \<Longrightarrow> extends P s u"
  by (fastforce simp: extends_def)

lemma extends_one: "trace s' = trace s @ [e] \<Longrightarrow> P e \<Longrightarrow> extends P s s'"
  by (auto simp: extends_def)

lemma extends_mono: "extends P s t \<Longrightarrow> (\<And>e. P e \<Longrightarrow> Q e) \<Longrightarrow> extends Q s t"
  by (auto simp: extends_def)

lemma extends_simps [simp]:
  "extends P (set_conn i c s) t = extends P s t" "extends P t (set_conn i c s) = extends P t s"
  by (simp_all add: extends_def)

lemma same_keys_set [simp]:
  "same_keys (set_conn i c s) t = same_keys s t" "same_keys (emit es s) t = same_keys s t"
  by (simp_all add: same_keys_def set_conn_def emit_def)

section \<open>Contracts of the handlers\<close>

lemma full_all_open:
  assumes inv: "conns_inv r" and full: "MAX_CONCURRENCY \<le> unat (conns_total r)"
  shows "\<forall>c\<in>set (conns r). fd c > 0" "open_conns (conns r) = length (conns r)"
proof -
  show all: "open_conns (conns r) = length (conns r)"
    using open_conns_le [of "conns r"] inv full by (simp add: conns_inv_def)
  then have "filter (\<lambda>c. fd c > 0) (conns r) = conns r"
    unfolding open_conns_def by (metis length_filter_less filter_id_conv less_irrefl)
  then show "\<forall>c\<in>set (conns r). fd c > 0" by (simp add: filter_id_conv)
qed

lemma evict_safe:
  assumes inv: "conns_inv (res s)"
  shows "rsafe (evict s) (\<lambda>s'. conns_inv (res s') \<and> same_keys s s' \<and>
    unat (conns_total (res s')) < MAX_CONCURRENCY \<and>
    extends quiet s s')"
proof (cases "unat (conns_total (res s)) \<ge> MAX_CONCURRENCY")
  case True
  have len: "length (conns (res s)) = MAX_CONCURRENCY" using inv by (simp add: conns_inv_def)
  note o = full_all_open(1) [OF inv True] and all = full_all_open(2) [OF inv True]
  have c0: "conns (res s) ! 0 \<in> set (conns (res s))" using len by (intro nth_mem) simp
  then have "open_time (conns (res s) ! 0) < MAX_INT64"
    using inv by (auto simp: conns_inv_def conn_inv_def)
  with c0 o have "\<exists>c\<in>set (conns (res s)). fd c > 0 \<and> open_time c < MAX_INT64" by blast
  then obtain j where j: "oldest_loop (conns (res s)) 0 MAX_INT64 None = Some j"
    using oldest_loop_some [of None "conns (res s)" MAX_INT64 0] by blast
  from oldest_loop_min [OF j] len have lt: "j < MAX_CONCURRENCY" "fd (conns (res s) ! j) > 0" by auto
  have "unat (conns_total (res s)) = MAX_CONCURRENCY"
    using inv all len by (simp add: conns_inv_def)
  have "rsafe (free_conn j s) (\<lambda>s'. conns_inv (res s') \<and> same_keys s s' \<and>
    unat (conns_total (res s')) < MAX_CONCURRENCY \<and>
    extends quiet s s')"
  proof (rule safe_mono [OF free_conn_safe [OF inv lt]], goal_cases)
    case (1 s')
    then obtain c where c: "conns (res s') = (conns (res s))[j := c]" "fd c = 0" by blast
    have "open_conns (conns (res s')) + 1 = open_conns (conns (res s))"
      using open_conns_update [of j "conns (res s)" c] c lt len by simp
    with 1 all len show ?case by (auto simp: conns_inv_def intro: extends_one)
  qed
  with True j show ?thesis by (simp add: evict_def)
next
  case False
  with inv show ?thesis by (simp add: evict_def)
qed

text \<open>
  What the kernel promises of a new connection: a positive descriptor, and a success of
  \<open>epoll_ctl\<close> for it. Neither a failure of \<open>epoll_ctl\<close> nor the descriptor 0 is survived.
\<close>

definition accept_ok :: "accept_os \<Rightarrow> bool" where
  "accept_ok os \<longleftrightarrow> accept_result os < 0 \<or> 0 < accept_result os \<and> 0 \<le> add_result os \<and>
     clock_result os < MAX_INT64"

lemma open_conn_inv:
  "conn_inv c \<Longrightarrow> now < MAX_INT64 \<Longrightarrow> conn_inv (open_conn c n now)"
  by (cases "buf c") (auto simp: conn_inv_def open_conn_def Let_def KILOBYTE_def MAX_SCRIPT_SIZE_def)

lemma accept_conn_safe:
  assumes inv: "conns_inv (res s)" and os: "accept_ok os"
  shows "rsafe (accept_conn os s) (\<lambda>s'. conns_inv (res s') \<and> same_keys s s' \<and>
    extends quiet s s')"
  unfolding accept_conn_def Let_def
proof (rule safe_check_ok [OF evict_safe [OF inv]], goal_cases)
  case (1 t)
  then have t: "conns_inv (res t)" "same_keys s t" "unat (conns_total (res t)) < MAX_CONCURRENCY"
    and x: "extends quiet s t" by auto
  have len: "length (conns (res t)) = MAX_CONCURRENCY" using t by (simp add: conns_inv_def)
  show ?case
  proof (cases "accept_result os < 0")
    case True
    then show ?thesis using t x by (auto intro!: same_keys_trans [OF t(2)] extends_trans [OF x] simp: extends_def)
  next
    case False
    let ?t = "t\<lparr>res := (res t)\<lparr>conns_total := conns_total (res t) + 1\<rparr>\<rparr>"
    obtain j where j: "unused_loop (conns (res t)) 0 = Some j"
    proof (cases "unused_loop (conns (res t)) 0")
      case None
      with unused_loop_none [of "conns (res t)" 0] t len show ?thesis by (simp add: conns_inv_def)
    qed blast
    from unused_loop_some [OF j] len have lt: "j < MAX_CONCURRENCY" "fd (conns (res t) ! j) \<le> 0" by auto
    let ?c = "open_conn (conns (res t) ! j) (accept_result os) (clock_result os)"
    have fd: "fd ?c = accept_result os" by (simp add: open_conn_def Let_def)
    have c: "conn_inv ?c"
      using os False conns_inv_at [OF t(1) lt(1)] by (auto simp: accept_ok_def intro: open_conn_inv)
    have tot: "unat (conns_total (res t) + 1) = unat (conns_total (res t)) + 1"
      using t(3) by (simp add: unat_word_ariths(1))
    have "open_conns ((conns (res t))[j := ?c]) = open_conns (conns (res t)) + 1"
      using open_conns_update [of j "conns (res t)" ?c] lt len fd os False by (simp add: accept_ok_def)
    then have "conns_inv ((res t)\<lparr>conns_total := conns_total (res t) + 1, conns := (conns (res t))[j := ?c]\<rparr>)"
      using t(1) c tot by (auto simp: conns_inv_def dest!: set_update_subset_insert [THEN subsetD])
    moreover have "\<not> add_result os < 0" using os False by (auto simp: accept_ok_def)
    ultimately show ?thesis
      using False j len lt t(2) x by (fastforce simp: same_keys_def set_conn_def emit_def extends_def)
  qed
qed

text \<open>\<open>recv\<close> returns at most the number of bytes it was given room for.\<close>

fun recv_fits :: "uinta \<Rightarrow> uinta \<Rightarrow> byte list list \<Rightarrow> bool" where
  "recv_fits cap n [] \<longleftrightarrow> True"
| "recv_fits cap n (bs # chunks) \<longleftrightarrow>
     bs = [] \<or>
     length bs \<le> unat (cap - n) \<and>
     (n + of_nat (length bs) \<ge> MAX_SCRIPT_SIZE \<or>
      recv_fits (if n + of_nat (length bs) \<ge> cap then cap * 2 else cap) (n + of_nat (length bs)) chunks)"

lemma recv_into_inv:
  assumes c: "conn_inv c" "fd c > 0" and l: "length bs \<le> unat (buf_cap c - buf_size c)"
  obtains d where "recv_into c bs = Inr d" "fd d = fd c" "open_time d = open_time c"
    "buf_cap d = buf_cap c" "buf_size d = buf_size c + of_nat (length bs)"
    "unat (buf_size d) = unat (buf_size c) + length bs" "buf_size d \<le> buf_cap d"
    "\<exists>b. buf d = Some b \<and> unat (buf_size d) \<le> length b \<and> length b \<le> unat (buf_cap d)"
proof -
  from c obtain old where old: "buf c = Some old" "buf_size c < buf_cap c"
    "unat (buf_size c) \<le> length old" "length old \<le> unat (buf_cap c)" "unat (buf_cap c) < 2 ^ 32"
    by (auto simp: conn_inv_def split: option.splits)
  have room: "unat (buf_size c) + length bs \<le> unat (buf_cap c)"
    using l old(2) by (simp add: unat_sub order_less_imp_le word_less_nat_alt)
  then have lt: "length bs < 2 ^ 64" "unat (buf_size c) + length bs < 2 ^ 64" using old(5) by simp_all
  have "unat (of_nat (length bs) :: uinta) = length bs"
    using lt(1) by (simp add: unat_of_nat take_bit_nat_eq_self)
  then have u: "unat (buf_size c + of_nat (length bs)) = unat (buf_size c) + length bs"
    using lt(2) by (simp add: unat_word_ariths(1))
  show thesis
    by (rule that [of "c\<lparr>buf := Some (take (unat (buf_size c)) old @ bs @
        drop (unat (buf_size c) + length bs) old), buf_size := buf_size c + of_nat (length bs)\<rparr>"])
      (use l old room u in \<open>auto simp: recv_into_def word_le_nat_alt\<close>)
qed


lemma grown_inv:
  assumes d: "fd d > 0" "open_time d < MAX_INT64" "buf d = Some b" "unat (buf_size d) \<le> length b"
    "length b \<le> unat (buf_cap d)" "buf_size d \<le> buf_cap d" "buf_size d < MAX_SCRIPT_SIZE"
    "unat (buf_cap d) < 2 ^ 32" "0 < unat (buf_cap d)"
  shows "conn_inv (if buf_size d \<ge> buf_cap d then d\<lparr>buf_cap := buf_cap d * 2\<rparr> else d)"
proof (cases "buf_size d \<ge> buf_cap d")
  case True
  with d have n: "buf_size d = buf_cap d" by auto
  have lt: "unat (buf_cap d) < 2 ^ 31" using d(7) n by (simp add: MAX_SCRIPT_SIZE_def word_less_nat_alt)
  then have "unat (buf_cap d * 2) = unat (buf_cap d) * 2" by (simp add: unat_word_ariths(2))
  with d n lt show ?thesis by (auto simp: conn_inv_def word_less_nat_alt)
next
  case False
  with d show ?thesis by (auto simp: conn_inv_def)
qed

text \<open>The bytes a connection has received.\<close>

definition conn_data :: "Connection \<Rightarrow> byte list" where
  "conn_data c = (case buf c of None \<Rightarrow> [] | Some bs \<Rightarrow> take (unat (buf_size c)) bs)"

text \<open>
  After the loop the connection is closed, or it has received the chunks up to the first empty one.
\<close>

definition recv_post :: "nat \<Rightarrow> byte list list \<Rightarrow> 'w server \<Rightarrow> 'w server \<Rightarrow> bool" where
  "recv_post i chunks s s' \<longleftrightarrow>
     conns_inv (res s') \<and> same_keys s s' \<and> extends quiet s s' \<and>
     (fd (conns (res s') ! i) = 0 \<or>
      fd (conns (res s') ! i) > 0 \<and>
      conn_data (conns (res s') ! i) = conn_data (conns (res s) ! i) @ concat (takeWhile (\<lambda>b. b \<noteq> []) chunks))"

lemma free_recv_post:
  assumes inv: "conns_inv (res s)" and i: "i < MAX_CONCURRENCY" "fd (conns (res s) ! i) > 0"
    and x: "extends quiet s0 s" "same_keys s0 s"
  shows "rsafe (free_conn i s) (recv_post i chunks s0)"
proof (rule safe_mono [OF free_conn_safe [OF inv i]], goal_cases)
  case (1 s')
  have "length (conns (res s)) = MAX_CONCURRENCY" using inv by (simp add: conns_inv_def)
  with 1 i have "fd (conns (res s') ! i) = 0" by auto
  moreover have "extends quiet s s'" using 1 by (auto intro: extends_one)
  ultimately show ?case using 1 x by (auto simp: recv_post_def intro: extends_trans same_keys_trans)
qed

lemma recv_loop_safe:
  assumes "conns_inv (res s)" "i < MAX_CONCURRENCY" "fd (conns (res s) ! i) > 0"
    and "recv_fits (buf_cap (conns (res s) ! i)) (buf_size (conns (res s) ! i)) chunks"
  shows "rsafe (recv_loop i chunks errno s) (recv_post i chunks s)"
  using assms
proof (induction chunks arbitrary: s)
  case Nil
  show ?case
  proof (cases "errno = EAGAIN")
    case True
    then show ?thesis using Nil by (simp add: recv_post_def)
  next
    case False
    have "rsafe (free_conn i (emit [Perror ''Failed to receive data from a TCP connection''] s)) (recv_post i [] s)"
      by (rule free_recv_post) (use Nil in \<open>auto intro: extends_one\<close>)
    with False show ?thesis by simp
  qed
next
  case (Cons bs chunks)
  let ?c = "conns (res s) ! i"
  have at: "i < length (conns (res s))" and c: "conn_inv ?c"
    using conns_inv_at [OF Cons.prems(1,2)] by auto
  show ?case
  proof (cases "bs = []")
    case True
    then show ?thesis using Cons.prems by (simp add: recv_post_def)
  next
    case bs: False
    then have room: "length bs \<le> unat (buf_cap ?c - buf_size ?c)" using Cons.prems(4) by simp
    obtain d b where d: "recv_into ?c bs = Inr d" "fd d = fd ?c" "open_time d = open_time ?c"
      "buf_cap d = buf_cap ?c" "buf_size d = buf_size ?c + of_nat (length bs)"
      "unat (buf_size d) = unat (buf_size ?c) + length bs" "buf_size d \<le> buf_cap d"
      "buf d = Some b" "unat (buf_size d) \<le> length b" "length b \<le> unat (buf_cap d)"
      using recv_into_inv [OF c Cons.prems(3) room] by metis
    from c Cons.prems(3) obtain old where old: "buf ?c = Some old" "unat (buf_size ?c) \<le> length old"
      "0 < unat (buf_cap ?c)" "unat (buf_cap ?c) < 2 ^ 32" "open_time ?c < MAX_INT64"
      by (auto simp: conn_inv_def word_less_nat_alt split: option.splits)
    show ?thesis
    proof (cases "buf_size d \<ge> MAX_SCRIPT_SIZE")
      case True
      have dc: "conn_inv (d\<lparr>fd := 0, buf_size := 0, open_time := 0\<rparr>)"
        by (rule conn_inv_closed) (use d old in \<open>auto simp: word_less_nat_alt\<close>)
      have "rsafe (free_conn i (emit [Printed ''TCP connection exceeded maximum allowed script size'']
          (set_conn i d s))) (recv_post i (bs # chunks) s)"
        by (rule safe_mono [OF free_conn_set [OF Cons.prems(1-3) dc]])
          (use at in \<open>auto simp: recv_post_def extends_def\<close>)
      with True bs d(1) at show ?thesis by simp
    next
      case False
      let ?d = "if buf_size d \<ge> buf_cap d then d\<lparr>buf_cap := buf_cap d * 2\<rparr> else d"
      have inv: "conn_inv ?d" by (rule grown_inv) (use d old Cons.prems(3) False in \<open>simp_all add: not_le\<close>)
      have si: "conns (res (set_conn i ?d s)) ! i = ?d" using at by simp
      have fdd: "fd ?d = fd ?c" "buf_size ?d = buf_size d" "buf ?d = buf d" using d(2) by auto
      have data: "conn_data ?d = conn_data ?c @ bs"
        using d(1,6) old by (auto simp: conn_data_def recv_into_def split: if_splits)
      have "rsafe (recv_loop i chunks errno (set_conn i ?d s)) (recv_post i chunks (set_conn i ?d s))"
      proof (rule Cons.IH)
        show "conns_inv (res (set_conn i ?d s))"
          by (rule conns_inv_set) (use Cons.prems inv fdd in auto)
        show "fd (conns (res (set_conn i ?d s)) ! i) > 0" unfolding si fdd by (rule Cons.prems(3))
        have "recv_fits (if buf_size d \<ge> buf_cap ?c then buf_cap ?c * 2 else buf_cap ?c) (buf_size d) chunks"
          using Cons.prems(4) bs False unfolding d(5) recv_fits.simps by blast
        moreover have "buf_cap ?d = (if buf_size d \<ge> buf_cap ?c then buf_cap ?c * 2 else buf_cap ?c)"
          using d(4) by simp
        ultimately show "recv_fits (buf_cap (conns (res (set_conn i ?d s)) ! i))
            (buf_size (conns (res (set_conn i ?d s)) ! i)) chunks"
          unfolding si fdd by (simp only:)
      qed (rule Cons.prems(2))
      then have "rsafe (recv_loop i chunks errno (set_conn i ?d s)) (recv_post i (bs # chunks) s)"
        by (rule safe_mono) (use bs data at in \<open>auto simp: recv_post_def\<close>)
      with bs False d(1) at show ?thesis by (simp add: Let_def)
    qed
  qed
qed

end
