(* ===== verification/Authentication.thy ===== *)
theory Authentication
  imports Connections
begin

text \<open>
  The keys the server holds, and the contract of the loop over them: a script that it finds is authenticated
  by one of the keys, which are only permuted.
\<close>

text \<open>The OpenSSL objects of a key, and an array of keys that share none.\<close>

definition ptr_addr :: "ptr \<Rightarrow> nat list" where
  "ptr_addr p = (case p of Addr a \<Rightarrow> [a] | _ \<Rightarrow> [])"

definition key_addrs :: "PubKey \<Rightarrow> nat list" where
  "key_addrs k = ptr_addr (pkey k) @ ptr_addr (md_ctx k)"

lemma set_key_addrs: "set (key_addrs k) = key_objs k"
  by (auto simp: key_addrs_def key_objs_def ptr_addr_def split: ptr.splits)

definition keys_held :: "('w \<Rightarrow> nat set) \<Rightarrow> 'w \<Rightarrow> PubKey list \<Rightarrow> bool" where
  "keys_held live w ks \<longleftrightarrow> (\<forall>k\<in>set ks. key_ok live w k) \<and> distinct (concat (map key_addrs ks))"

lemma key_ok_live: "key_ok live w k \<Longrightarrow> live w' = live w \<Longrightarrow> key_ok live w' k"
  by (simp add: key_ok_def owns_def)

lemma keys_held_live: "keys_held live w ks \<Longrightarrow> live w' = live w \<Longrightarrow> keys_held live w' ks"
  by (auto simp: keys_held_def intro: key_ok_live)

lemma keys_held_mset:
  assumes "keys_held live w ks" "mset ks' = mset ks"
  shows "keys_held live w ks'"
proof -
  have "mset (concat (map key_addrs ks')) = mset (concat (map key_addrs ks))"
    using assms(2) by (metis (no_types, lifting) mset_concat mset_map map_map sum_mset_sum_list)
  then have "distinct (concat (map key_addrs ks')) = distinct (concat (map key_addrs ks))"
    by (rule mset_eq_imp_distinct_iff)
  moreover have "set ks' = set ks" using assms(2) by (rule mset_eq_setD)
  ultimately show ?thesis using assms(1) by (simp add: keys_held_def)
qed

lemma swap_keys_take:
  assumes "i < N" "j < N" "N \<le> length ks"
  shows "mset (take N (swap_keys ks i j)) = mset (take N ks)" "length (swap_keys ks i j) = length ks"
proof -
  have "take N (swap_keys ks i j) = (take N ks)[i := take N ks ! j, j := take N ks ! i]"
    using assms by (simp add: swap_keys_def take_update_swap)
  also have "mset \<dots> = mset (take N ks)" using assms by (intro mset_swap) auto
  finally show "mset (take N (swap_keys ks i j)) = mset (take N ks)" .
qed (simp add: swap_keys_def)

text \<open>
  A buffer that a key authenticates at time \<open>now\<close>: signature, newline, script, and the library has
  verified the signature of the script with the key.
\<close>

definition authentic ::
    "'w OpenSSL \<Rightarrow> int \<Rightarrow> byte list \<Rightarrow> PubKey \<Rightarrow> byte list \<Rightarrow> bool" where
  "authentic ssl now input k script \<longleftrightarrow>
     now \<le> expiry k \<and>
     (\<exists>sig w w'. input = sig @ 10 # script \<and> of_nat (length sig) = exp_sig_size k \<and>
        openssl_verify ssl k script sig w = Inr (True, w'))"

definition auth_post ::
    "'w OpenSSL \<Rightarrow> ('w \<Rightarrow> nat set) \<Rightarrow> int \<Rightarrow> byte list \<Rightarrow> uinta \<Rightarrow> nat \<Rightarrow> PubKey list \<Rightarrow> nat \<Rightarrow> 'w \<Rightarrow>
     auth_result \<times> PubKey list \<times> nat \<times> 'w \<Rightarrow> bool" where
  "auth_post ssl live now raw n N ks ksz w = (\<lambda>(r, ks', ksz', w').
     live w' = live w \<and> length ks' = length ks \<and> mset (take N ks') = mset (take N ks) \<and>
     1 \<le> ksz' \<and> ksz' \<le> ksz \<and>
     (case r of
        Authentic start \<Rightarrow> start \<le> n \<and> 0 < start \<and>
          (\<exists>k\<in>set (take N ks). authentic ssl now (slice raw 0 n) k (slice raw start n))
      | _ \<Rightarrow> True))"

lemma sig_sizes_small: "n \<in> SIG_SIZES \<Longrightarrow> unat (n + 1) = unat n + 1 \<and> n < n + 1"
  by (auto simp: SIG_SIZES_def)

lemma auth_key_parts:
  assumes v: "valid_end raw n" and k: "exp_sig_size k \<in> SIG_SIZES" and le: "exp_sig_size k + 1 \<le> n"
  shows "rd raw (exp_sig_size k) = (Inr (raw ! unat (exp_sig_size k)) :: byte run)"
    "rd_bytes raw (exp_sig_size k + 1) (n - (exp_sig_size k + 1)) = (Inr (slice raw (exp_sig_size k + 1) n) :: byte list run)"
    "rd_bytes raw 0 (exp_sig_size k) = (Inr (slice raw 0 (exp_sig_size k)) :: byte list run)"
    "slice raw 0 n = slice raw 0 (exp_sig_size k) @ raw ! unat (exp_sig_size k) # slice raw (exp_sig_size k + 1) n"
    "of_nat (length (slice raw 0 (exp_sig_size k))) = exp_sig_size k"
proof -
  note sm = sig_sizes_small [OF k]
  with le have lt: "exp_sig_size k < n" by auto
  show "rd raw (exp_sig_size k) = (Inr (raw ! unat (exp_sig_size k)) :: byte run)" by (rule rd_valid [OF v lt])
  show "rd_bytes raw (exp_sig_size k + 1) (n - (exp_sig_size k + 1)) = (Inr (slice raw (exp_sig_size k + 1) n) :: byte list run)"
    by (rule rd_bytes_slice [OF v le])
  have ve: "valid_end raw (exp_sig_size k)" using v lt by (auto intro: valid_end_mono)
  have z: "0 \<le> exp_sig_size k" by simp
  show "rd_bytes raw 0 (exp_sig_size k) = (Inr (slice raw 0 (exp_sig_size k)) :: byte list run)"
    using rd_bytes_slice [OF ve z] by simp
  have "slice raw 0 n = slice raw 0 (exp_sig_size k) @ slice raw (exp_sig_size k) n"
    by (rule slice_append) (use lt in auto)
  then show "slice raw 0 n = slice raw 0 (exp_sig_size k) @ raw ! unat (exp_sig_size k) # slice raw (exp_sig_size k + 1) n"
    by (simp add: slice_Cons [OF v lt])
  show "of_nat (length (slice raw 0 (exp_sig_size k))) = exp_sig_size k"
    by (simp add: length_slice [OF ve])
qed

lemma auth_post_trans:
  "auth_post ssl live now raw n N ks' ksz' w' r \<Longrightarrow> live w' = live w \<Longrightarrow> length ks' = length ks \<Longrightarrow>
   mset (take N ks') = mset (take N ks) \<Longrightarrow> ksz' \<le> ksz \<Longrightarrow> auth_post ssl live now raw n N ks ksz w r"
  by (frule mset_eq_setD [of "take N ks'"]) (auto simp: auth_post_def split: auth_result.splits)

lemma auth_loop_safe:
  assumes ok: "openssl_ok ssl live" and v: "valid_end raw n"
  shows "N \<le> length ks \<Longrightarrow> bound \<le> N \<Longrightarrow> 1 \<le> ksz \<Longrightarrow> ksz \<le> N \<Longrightarrow> \<forall>k\<in>set (take N ks). key_ok live w k \<Longrightarrow>
    rsafe (auth_loop ssl now raw n bound i ks ksz w) (auth_post ssl live now raw n N ks ksz w)"
proof (induction "(bound - i) + ksz" arbitrary: i ks ksz w rule: less_induct)
  case less
  show ?case
  proof (cases "i < bound")
    case False
    then show ?thesis using less.prems by (subst auth_loop.simps) (simp add: auth_post_def)
  next
    case True
    let ?k = "ks ! i"
    have len: "i < length ks" "i < N" "ksz \<le> length ks" using True less.prems by auto
    have kin: "?k \<in> set (take N ks)" using len by (auto simp: in_set_conv_nth intro!: exI [of _ i])
    then have kok: "key_ok live w ?k" using less.prems by blast
    have next_key: "rsafe (auth_loop ssl now raw n bound (i + 1) ks ksz w') (auth_post ssl live now raw n N ks ksz w)"
      if w': "live w' = live w" for w'
    proof (rule safe_mono [OF less.hyps], goal_cases)
      case 6
      then show ?case using less.prems w' by (auto intro: key_ok_live)
    next
      case (7 r)
      show ?case by (rule auth_post_trans [OF 7(2)]) (use w' in simp_all)
    qed (use True less.prems in auto)
    show ?thesis
    proof (cases "now > expiry ?k")
      case expired: True
      show ?thesis
      proof (cases "ksz > 1")
        case True
        let ?ks = "swap_keys ks i (ksz - 1)"
        have sw: "mset (take N ?ks) = mset (take N ks)" "length ?ks = length ks"
          using swap_keys_take [of i N "ksz - 1" ks] len less.prems True by auto
        have "rsafe (auth_loop ssl now raw n bound i ?ks (ksz - 1) w) (auth_post ssl live now raw n N ks ksz w)"
        proof (rule safe_mono [OF less.hyps], goal_cases)
          case 6
          then show ?case using less.prems mset_eq_setD [OF sw(1)] by simp
        next
          case (7 r)
          show ?case by (rule auth_post_trans [OF 7(2)]) (use sw in simp_all)
        qed (use True sw less.prems in auto)
        with True expired \<open>i < bound\<close> len show ?thesis
          by (subst auth_loop.simps) (simp add: Let_def)
      next
        case False
        with expired \<open>i < bound\<close> len less.prems show ?thesis
          by (subst auth_loop.simps) (simp add: Let_def auth_post_def)
      qed
    next
      case valid: False
      let ?sz = "exp_sig_size ?k"
      have sz: "?sz \<in> SIG_SIZES" and idx: "alg_idx ?k < 3" and own: "owns live w ?k"
        using kok by (auto simp: key_ok_def)
      show ?thesis
      proof (cases "?sz + 1 \<le> n \<and> raw ! unat ?sz = 10")
        case False
        have "check_ok (if ?sz + 1 \<le> n then check_ok (rd raw ?sz) (\<lambda>b. Inr (b = 10)) else Inr False) f
            = (f False :: (auth_result \<times> PubKey list \<times> nat \<times> 'a) run)" for f
          using False auth_key_parts(1) [OF v sz] by (cases "?sz + 1 \<le> n") auto
        with next_key [of w] valid True len show ?thesis
          by (subst auth_loop.simps) (simp add: Let_def)
      next
        case sep: True
        note parts = auth_key_parts [OF v sz conjunct1 [OF sep]]
        let ?script = "slice raw (?sz + 1) n" and ?sig = "slice raw 0 ?sz"
        have "rsafe (check_ok (openssl_verify ssl ?k ?script ?sig w) (\<lambda>(valid, w).
            if valid then Inr (Authentic (?sz + 1), ks, ksz, w)
            else auth_loop ssl now raw n bound (i + 1) ks ksz w)) (auth_post ssl live now raw n N ks ksz w)"
        proof (rule safe_seq2 [OF openssl_verify_safe [OF ok own]], goal_cases)
          case (1 b w')
          show ?case
          proof (cases b)
            case True
            have "slice raw 0 n = ?sig @ 10 # ?script" using parts(4) sep by simp
            then have "authentic ssl now (slice raw 0 n) ?k ?script"
              unfolding authentic_def using 1(1) True valid parts(5)
              by (intro conjI exI [of _ ?sig] exI [of _ w] exI [of _ w']) auto
            moreover have "0 < ?sz + 1" using sig_sizes_small [OF sz] by (auto intro: le_less_trans [OF word_zero_le])
            ultimately show ?thesis using True 1 kin sep less.prems by (auto simp: auth_post_def)
          next
            case False
            then show ?thesis using next_key 1 by simp
          qed
        qed
        with sep valid True len parts(1-3) show ?thesis
          by (subst auth_loop.simps) (simp add: Let_def pub_key_verify_openssl [OF idx])
      qed
    qed
  qed
qed

end
