(* ===== verification/Events.thy ===== *)
theory Events
  imports Authentication
begin

text \<open>
  The contracts of the event handlers, the runs of events, and when an event has a script run.
\<close>

section \<open>The event handlers\<close>

text \<open>
  The keys the program holds: the first \<open>N\<close> elements of the array, of which \<open>keys_size\<close> are still
  in use; expired keys are moved behind those but stay allocated. \<open>K\<close> is the set of all of them.
\<close>

definition keys_inv :: "('w \<Rightarrow> nat set) \<Rightarrow> PubKey set \<Rightarrow> Resources \<Rightarrow> 'w \<Rightarrow> bool" where
  "keys_inv live K r w \<longleftrightarrow>
     (\<exists>ks N. keys r = Some ks \<and> length ks = unat (keys_cap r) \<and> 1 \<le> unat (keys_size r) \<and>
        unat (keys_size r) \<le> N \<and> N \<le> length ks \<and> keys_held live w (take N ks) \<and> set (take N ks) = K)"

definition server_inv :: "('w \<Rightarrow> nat set) \<Rightarrow> PubKey set \<Rightarrow> 'w server \<Rightarrow> bool" where
  "server_inv live K s \<longleftrightarrow> conns_inv (res s) \<and> keys_inv live K (res s) (lib s)"

text \<open>
  A script that is run has been authenticated by one of the keys at one of the times, and what \<open>bash\<close>
  is given to read is a part of it from its start.
\<close>

definition authorised :: "'w OpenSSL \<Rightarrow> PubKey set \<Rightarrow> int set \<Rightarrow> effect \<Rightarrow> bool" where
  "authorised ssl K T e \<longleftrightarrow>
     (\<forall>script n es. e = Ran script n es \<longrightarrow> (\<exists>j. fed es = take j script) \<and>
        (\<exists>k\<in>K. \<exists>now\<in>T. \<exists>input. authentic ssl now input k script))"

lemma quiet_authorised: "quiet e \<Longrightarrow> authorised ssl K T e"
  by (auto simp: quiet_def authorised_def)

lemma authorised_simps [simp]:
  "authorised ssl K T (CloseFd n)" "authorised ssl K T (Perror m)" "authorised ssl K T (Printed m)"
  by (simp_all add: authorised_def)

lemma keys_inv_same: "same_keys s s' \<Longrightarrow> keys_inv live K (res s') (lib s') = keys_inv live K (res s) (lib s)"
  by (simp add: same_keys_def keys_inv_def)

lemma server_inv_same:
  "server_inv live K s \<Longrightarrow> same_keys s s' \<Longrightarrow> conns_inv (res s') \<Longrightarrow> server_inv live K s'"
  by (simp add: server_inv_def keys_inv_same)

lemma server_inv_frame [simp]:
  "server_inv live K (emit es s) = server_inv live K s"
  "server_inv live K (s\<lparr>res := (res s)\<lparr>script_n := n\<rparr>\<rparr>) = server_inv live K s"
  by (simp_all add: server_inv_def keys_inv_def conns_inv_def)

lemma free_conn_server:
  assumes inv: "server_inv live K s" and i: "i < MAX_CONCURRENCY" "fd (conns (res s) ! i) > 0"
  shows "rsafe (free_conn i s) (\<lambda>s'. server_inv live K s' \<and> extends (authorised ssl K T) s s' \<and>
    fd (conns (res s') ! i) = 0)"
proof -
  have c: "conns_inv (res s)" using inv by (simp add: server_inv_def)
  have len: "i < length (conns (res s))" using conns_inv_at [OF c i(1)] by simp
  show ?thesis
    by (rule safe_mono [OF free_conn_safe [OF c i]])
      (use inv len in \<open>auto intro: server_inv_same simp: extends_def\<close>)
qed

text \<open>
  What the kernel promises of \<open>write\<close>: it takes no more than it is given, and it returns as long as there is
  something left to write.
\<close>

definition write_returns :: "nat \<Rightarrow> exec_os \<Rightarrow> bool" where
  "write_returns n os \<longleftrightarrow> write_answers n (write_results os) \<and>
     (0 \<le> pipe_result os \<and> 0 \<le> fork_result os \<longrightarrow> n \<le> length (write_results os))"

definition writes_ok :: "(uinta \<Rightarrow> exec_os) \<Rightarrow> bool" where
  "writes_ok xos \<longleftrightarrow> (\<forall>n. write_returns (unat n) (xos n))"

lemma exec_script_runs:
  assumes v: "valid_end script n" and sz: "unat n < 2 ^ 31" and a: "write_returns (unat n) os"
  shows "rsafe (exec_script script n k os) (\<lambda>es. (\<exists>j. fed es = take j script) \<and> NoAnswer \<notin> set es)"
proof -
  have le: "(0 :: uinta) \<le> n" by simp
  have "write_answers (unat n - unat (0 :: uinta)) (write_results os)" using a by (simp add: write_returns_def)
  note loop = write_loop_safe [OF v le this sz]
  have "rsafe (write_loop script n 0 (write_results os)) (\<lambda>es. (\<exists>j. fed es = take j script) \<and>
      (unat n \<le> length (write_results os) \<longrightarrow> NoAnswer \<notin> set es))"
    by (rule safe_mono [OF loop]) (auto simp: slice_def)
  then show ?thesis
    using a by (auto simp: exec_script_def write_returns_def intro: exI [of _ 0] safe_check_ok)
qed

text \<open>Every call of a run of \<open>exec_script\<close> succeeds, whatever the size of the script.\<close>

definition all_written :: "(uinta \<Rightarrow> exec_os) \<Rightarrow> bool" where
  "all_written xos \<longleftrightarrow> (\<forall>n. writes_all (unat n) (xos n))"

lemma all_written_ok: "all_written xos \<Longrightarrow> writes_ok xos"
  by (simp add: all_written_def writes_ok_def writes_all_def write_returns_def)

lemma authenticate_safe:
  assumes ok: "openssl_ok ssl live" and inv: "server_inv live K s"
    and i: "i < MAX_CONCURRENCY" "fd (conns (res s) ! i) > 0" and xos: "writes_ok xos" and now: "now \<in> T"
  shows "rsafe (authenticate ssl i now xos s) (\<lambda>(v, s'). server_inv live K s' \<and>
    extends (authorised ssl K T) s s' \<and> (v = Continue \<longrightarrow> fd (conns (res s') ! i) = 0))"
proof -
  let ?c = "conns (res s) ! i"
  have c: "conns_inv (res s)" and k: "keys_inv live K (res s) (lib s)" using inv by (auto simp: server_inv_def)
  note at = conns_inv_at [OF c i(1)]
  then obtain raw where raw: "buf ?c = Some raw" "unat (buf_size ?c) \<le> length raw"
    "buf_size ?c < MAX_SCRIPT_SIZE" using i(2) by (auto simp: conn_inv_def split: option.splits)
  then have n: "unat (buf_size ?c) < 2 ^ 31" by (simp add: MAX_SCRIPT_SIZE_def word_less_nat_alt)
  with raw have v: "valid_end raw (buf_size ?c)" by (simp add: valid_end_def object_size_def PTRDIFF_MAX_def)
  from k obtain ks N where ks: "keys (res s) = Some ks" "length ks = unat (keys_cap (res s))"
    "1 \<le> unat (keys_size (res s))" "unat (keys_size (res s)) \<le> N" "N \<le> length ks"
    and held: "keys_held live (lib s) (take N ks)" "set (take N ks) = K" by (auto simp: keys_inv_def)
  let ?m = "unat (keys_size (res s))"
  have all: "\<forall>k\<in>set (take N ks). key_ok live (lib s) k" using held by (simp add: keys_held_def)
  note loop = auth_loop_safe [OF ok v ks(5) ks(4) ks(3) ks(4) all]
  let ?upd = "\<lambda>ks' m w. s\<lparr>lib := w, res := (res s)\<lparr>keys := Some ks', keys_size := of_nat m\<rparr>\<rparr>"
  have upd: "server_inv live K (?upd ks' m w)"
    if "auth_post ssl live now raw (buf_size ?c) N ks ?m (lib s) (r, ks', m, w)" for r ks' m w
  proof -
    from that have p: "live w = live (lib s)" "length ks' = length ks" "mset (take N ks') = mset (take N ks)"
      "1 \<le> m" "m \<le> ?m" by (auto simp: auth_post_def)
    then have "m < 2 ^ 64" using unsigned_less [of "keys_size (res s)", where 'a = nat] by simp
    then have "unat (of_nat m :: uinta) = m" by (simp add: unat_of_nat take_bit_nat_eq_self)
    moreover have "keys_held live w (take N ks')"
      by (rule keys_held_live [OF keys_held_mset [OF held(1) p(3)] p(1)])
    moreover have "set (take N ks') = K" using mset_eq_setD [OF p(3)] held(2) by simp
    ultimately show ?thesis using p c ks
      by (auto simp: server_inv_def keys_inv_def conns_inv_def intro!: exI [of _ N])
  qed
  show ?thesis
    unfolding authenticate_def conn_at_valid [OF conjunct1 [OF at]] check_ok_simps ks(1) raw(1)
      prod.case option.case
  proof (rule safe_check_ok [OF loop], goal_cases)
    case (1 a)
    obtain r ks' m w where a: "a = (r, ks', m, w)" by (cases a)
    let ?s = "?upd ks' m w"
    have s: "server_inv live K ?s" using upd 1 a by blast
    have ci: "conns (res ?s) ! i = ?c" "fd (conns (res ?s) ! i) > 0" using i by simp_all
    show ?case
    proof (cases r)
      case All_Expired
      with s show ?thesis
        by (auto simp: a Let_def intro!: server_inv_same [OF s] extends_one simp: server_inv_def)
    next
      case Not_Authentic
      let ?e = "emit [Printed ''Remote bash script could not be authenticated, aborting execution''] ?s"
      have "server_inv live K ?e" "fd (conns (res ?e) ! i) > 0"
        using s ci by (simp_all add: server_inv_def)
      note fr = free_conn_server [OF this(1) i(1) this(2), of ssl]
      have x: "extends (authorised ssl K T) s ?e" by (auto simp: extends_def)
      show ?thesis
        unfolding a Not_Authentic Let_def split_conv auth_result.case
        by (rule safe_check_ok [OF fr]) (auto intro: extends_trans [OF x])
    next
      case (Authentic start)
      with 1 a obtain k where st: "start \<le> buf_size ?c" and k: "k \<in> K"
        "authentic ssl now (slice raw 0 (buf_size ?c)) k (slice raw start (buf_size ?c))"
        using held(2) by (auto simp: auth_post_def)
      let ?n = "buf_size ?c - start" and ?script = "slice raw start (buf_size ?c)"
      have un: "unat ?n = length ?script" using st by (simp add: length_slice [OF v] unat_sub)
      also have "\<dots> \<le> unat (buf_size ?c)" by (simp add: length_slice [OF v])
      finally have nn: "unat ?n < 2 ^ 31" using n by simp
      have vs: "valid_end ?script ?n"
        using nn un by (simp add: valid_end_def object_size_def PTRDIFF_MAX_def)
      have wa: "write_returns (unat ?n) (xos ?n)" using xos by (simp add: writes_ok_def)
      let ?num = "script_n (res ?s) + 1"
      let ?t = "?s\<lparr>res := (res ?s)\<lparr>script_n := ?num\<rparr>\<rparr>"
      have fin: "rsafe (check_ok (free_conn i (emit [Ran ?script ?num es] ?t)) (\<lambda>s. Inr (Continue, s)))
        (\<lambda>(v, s'). server_inv live K s' \<and> extends (authorised ssl K T) s s' \<and>
           (v = Continue \<longrightarrow> fd (conns (res s') ! i) = 0))" if es: "\<exists>j. fed es = take j ?script" for es
      proof -
        let ?e = "emit [Ran ?script ?num es] ?t"
        have "server_inv live K ?e" "fd (conns (res ?e) ! i) > 0"
          unfolding server_inv_frame using s ci by simp_all
        note fr = free_conn_server [OF this(1) i(1) this(2), of ssl]
        have x: "extends (authorised ssl K T) s ?e"
          using k es now by (intro extends_one) (auto simp: authorised_def)
        show ?thesis by (rule safe_check_ok [OF fr]) (auto intro: extends_trans [OF x])
      qed
      have "rsafe (check_ok (exec_script ?script ?n (of_int ?num) (xos ?n)) (\<lambda>es.
          if NoAnswer \<in> set es then Inl (Fault Blocked) else check_ok (free_conn i (emit [Ran ?script ?num es] ?t)) (\<lambda>s. Inr (Continue, s))))
        (\<lambda>(v, s'). server_inv live K s' \<and> extends (authorised ssl K T) s s' \<and>
           (v = Continue \<longrightarrow> fd (conns (res s') ! i) = 0))"
        by (rule safe_check_ok [OF exec_script_runs [OF vs nn wa]]) (use fin in simp)
      then show ?thesis
        unfolding a Authentic Let_def split_conv auth_result.case rd_bytes_slice [OF v st] check_ok_simps .
    qed
  qed
qed


text \<open>
  Events that the program survives: of a connection that is in use, with an accepted descriptor and a
  successful \<open>epoll_ctl\<close>, and calls that answer as documented. An event whose connection
  has been closed since \<open>epoll_wait\<close> is not among them.
\<close>

definition event_valid :: "epoll_event \<times> event_os \<Rightarrow> 'w server \<Rightarrow> bool" where
  "event_valid = (\<lambda>(event, os) s.
     if data_fd event = MAX_INT32 then accept_ok (acc os)
     else 0 \<le> data_fd event \<and>
       (data_fd event < int MAX_CONCURRENCY \<longrightarrow>
          (let c = conns (res s) ! nat (data_fd event) in
           fd c > 0 \<and> (events event AND EPOLLIN > 0 \<longrightarrow> recv_fits (buf_cap c) (buf_size c) (recv_chunks os)) \<and>
           writes_ok (exec_answers os))))"

lemma recv_or_not:
  assumes inv: "server_inv live K s" and i: "i < MAX_CONCURRENCY" "fd (conns (res s) ! i) > 0"
    and r: "b \<longrightarrow> recv_fits (buf_cap (conns (res s) ! i)) (buf_size (conns (res s) ! i)) chunks"
  shows "rsafe (if b then recv_loop i chunks errno s else Inr s) (\<lambda>s'. server_inv live K s' \<and>
    extends (authorised ssl K T) s s')"
proof -
  have c: "conns_inv (res s)" using inv by (simp add: server_inv_def)
  have "rsafe (recv_loop i chunks errno s) (\<lambda>s'. server_inv live K s' \<and> extends (authorised ssl K T) s s')" if b
    by (rule safe_mono [OF recv_loop_safe [OF c i mp [OF r that]]])
      (use inv in \<open>auto simp: recv_post_def intro: server_inv_same extends_mono quiet_authorised\<close>)
  then show ?thesis using inv by simp
qed

lemma handle_conn_safe:
  assumes ok: "openssl_ok ssl live" and inv: "server_inv live K s"
    and i: "i < MAX_CONCURRENCY" "fd (conns (res s) ! i) > 0"
    and r: "evs AND EPOLLIN > 0 \<longrightarrow> recv_fits (buf_cap (conns (res s) ! i)) (buf_size (conns (res s) ! i)) (recv_chunks os)"
    and x: "writes_ok (exec_answers os)" "time_result os \<in> T"
  shows "rsafe (handle_conn ssl i evs os s) (\<lambda>(v, s'). server_inv live K s' \<and> extends (authorised ssl K T) s s')"
proof -
  have at: "i < length (conns (res t))" if "server_inv live K t" for t
    using conns_inv_at [OF _ i(1)] that by (simp add: server_inv_def)
  let ?Q = "\<lambda>(v, s'). server_inv live K s' \<and> extends (authorised ssl K T) s s'"
  have err: "rsafe (if fd (conns (res t) ! i) > 0 \<and> evs AND EPOLLERR > 0
      then check_ok (free_conn i t) (\<lambda>s. Inr (Continue, s)) else Inr (Continue, t)) ?Q"
    if t: "server_inv live K t" "extends (authorised ssl K T) s t" for t
  proof (rule safe_if)
    assume "fd (conns (res t) ! i) > 0 \<and> evs AND EPOLLERR > 0"
    then show "rsafe (check_ok (free_conn i t) (\<lambda>s. Inr (Continue, s))) ?Q"
      by (intro safe_check_ok [OF free_conn_server [OF t(1) i(1), of ssl]])
        (auto intro: extends_trans [OF t(2)])
  qed (use t in simp)
  have auth: "rsafe (if fd (conns (res t) ! i) > 0 \<and> evs AND (EPOLLRDHUP OR EPOLLHUP) > 0
      then authenticate ssl i (time_result os) (exec_answers os) t else Inr (Continue, t)) ?Q"
    if t: "server_inv live K t" "extends (authorised ssl K T) s t" for t
  proof (rule safe_if)
    assume "fd (conns (res t) ! i) > 0 \<and> evs AND (EPOLLRDHUP OR EPOLLHUP) > 0"
    then show "rsafe (authenticate ssl i (time_result os) (exec_answers os) t) ?Q"
      by (intro safe_mono [OF authenticate_safe [OF ok t(1) i(1) _ x]])
        (auto intro: extends_trans [OF t(2)])
  qed (use t in simp)
  show ?thesis
    unfolding handle_conn_def conn_at_valid [OF at [OF inv]] check_ok_simps
  proof (rule safe_check_ok [OF safe_assert [OF i(2)]],
      rule safe_check_ok [OF recv_or_not [OF inv i r, where ssl = ssl and T = T]], goal_cases)
    case (1 u t)
    then have t: "server_inv live K t" "extends (authorised ssl K T) s t" by auto
    show ?case
      unfolding conn_at_valid [OF at [OF t(1)]] check_ok_simps
    proof (rule safe_seq2 [OF auth [OF t]], goal_cases)
      case (1 v t')
      then show ?case
        by (cases v) (simp_all only: verdict.case conn_at_valid [OF at] check_ok_simps err safe_Inr split_conv simp_thms)
    qed
  qed
qed

lemma handle_event_safe:
  assumes ok: "openssl_ok ssl live" and inv: "server_inv live K s" and v: "event_valid (event, os) s"
    and t: "time_result os \<in> T"
  shows "rsafe (handle_event ssl event os s) (\<lambda>(v, s'). server_inv live K s' \<and> extends (authorised ssl K T) s s')"
proof -
  have c: "conns_inv (res s)" using inv by (simp add: server_inv_def)
  consider (acc) "data_fd event = MAX_INT32" | (conn) "data_fd event \<noteq> MAX_INT32" "data_fd event < int MAX_CONCURRENCY"
    | (bad) "data_fd event \<noteq> MAX_INT32" "\<not> data_fd event < int MAX_CONCURRENCY" by blast
  then show ?thesis
  proof cases
    case acc
    then have a: "accept_ok (acc os)" using v by (simp add: event_valid_def)
    have "rsafe (check_ok (accept_conn (acc os) s) (\<lambda>s. Inr (Continue, s)))
        (\<lambda>(v, s'). server_inv live K s' \<and> extends (authorised ssl K T) s s')"
      by (rule safe_check_ok [OF accept_conn_safe [OF c a]])
        (use inv in \<open>auto intro: server_inv_same extends_mono quiet_authorised\<close>)
    with acc show ?thesis by (simp add: handle_event_def)
  next
    case conn
    then have nn: "0 \<le> data_fd event" and lt: "nat (data_fd event) < MAX_CONCURRENCY"
      and o: "fd (conns (res s) ! nat (data_fd event)) > 0" "writes_ok (exec_answers os)"
        "events event AND EPOLLIN > 0 \<longrightarrow> recv_fits (buf_cap (conns (res s) ! nat (data_fd event)))
           (buf_size (conns (res s) ! nat (data_fd event))) (recv_chunks os)"
      using v by (auto simp: event_valid_def Let_def)
    from handle_conn_safe [OF ok inv lt o(1,3,2) t] conn nn show ?thesis
      by (simp add: handle_event_def)
  next
    case bad
    then show ?thesis using inv
      by (auto simp: handle_event_def server_inv_def extends_def)
  qed
qed

section \<open>Runs of events\<close>

text \<open>
  A list of inputs that are handled one after the other until one makes the function return. The
  batch of an \<open>epoll_wait\<close> is one, the event loop over batches another.
\<close>

locale event_run =
  fixes handle :: "'e \<Rightarrow> 'w server \<Rightarrow> (verdict \<times> 'w server) run"
    and run_all :: "'e list \<Rightarrow> 'w server \<Rightarrow> (verdict \<times> 'w server) run"
    and valid :: "'e \<Rightarrow> 'w server \<Rightarrow> bool"
    and valid_all :: "'e list \<Rightarrow> 'w server \<Rightarrow> bool"
    and inv :: "'w server \<Rightarrow> bool"
    and eff :: "effect \<Rightarrow> bool"
  assumes run_Nil: "run_all [] s = Inr (Continue, s)"
    and run_Cons: "run_all (e # es) s = check_ok (handle e s) (\<lambda>(v, s).
      case v of Return c \<Rightarrow> Inr (Return c, s) | Continue \<Rightarrow> run_all es s)"
    and valid_Cons: "valid_all (e # es) s \<Longrightarrow>
      valid e s \<and> (\<forall>s'. handle e s = Inr (Continue, s') \<longrightarrow> valid_all es s')"
    and handle_safe: "inv s \<Longrightarrow> valid e s \<Longrightarrow> rsafe (handle e s) (\<lambda>(v, s'). inv s' \<and> extends eff s s')"
begin

lemma run_safe:
  "inv s \<Longrightarrow> valid_all es s \<Longrightarrow> rsafe (run_all es s) (\<lambda>(v, s'). inv s' \<and> extends eff s s')"
proof (induction es arbitrary: s)
  case Nil
  then show ?case by (simp add: run_Nil)
next
  case (Cons e es)
  note v = valid_Cons [OF Cons.prems(2)]
  show ?case
    unfolding run_Cons
  proof (rule safe_seq2 [OF handle_safe [OF Cons.prems(1) conjunct1 [OF v]]], goal_cases)
    case (1 vd t)
    then have t: "inv t" "extends eff s t" by auto
    show ?case
    proof (cases vd)
      case Continue
      with 1 v have "valid_all es t" by blast
      from Cons.IH [OF t(1) this] have "rsafe (run_all es t) (\<lambda>(v, s'). inv s' \<and> extends eff s s')"
        by (rule safe_mono) (auto intro: extends_trans [OF t(2)])
      with Continue show ?thesis by simp
    next
      case (Return c)
      with t show ?thesis by simp
    qed
  qed
qed

end

fun events_valid :: "'w OpenSSL \<Rightarrow> (epoll_event \<times> event_os) list \<Rightarrow> 'w server \<Rightarrow> bool" where
  "events_valid ssl [] s \<longleftrightarrow> True"
| "events_valid ssl (e # es) s \<longleftrightarrow> event_valid e s \<and>
     (case handle_event ssl (fst e) (snd e) s of Inr (Continue, s') \<Rightarrow> events_valid ssl es s' | _ \<Rightarrow> True)"

definition handle_wait ::
    "'w OpenSSL \<Rightarrow> int + (epoll_event \<times> event_os) list \<Rightarrow> 'w server \<Rightarrow> (verdict \<times> 'w server) run" where
  "handle_wait ssl wait s =
    (case wait of
       Inl errno \<Rightarrow> Inr (Return (- 1), emit [Perror ''Call to epoll_wait failed''] s)
     | Inr evs \<Rightarrow> handle_events ssl evs s)"

definition wait_valid :: "'w OpenSSL \<Rightarrow> int + (epoll_event \<times> event_os) list \<Rightarrow> 'w server \<Rightarrow> bool" where
  "wait_valid ssl wait s = (case wait of Inl errno \<Rightarrow> True | Inr evs \<Rightarrow> events_valid ssl evs s)"

fun waits_valid :: "'w OpenSSL \<Rightarrow> (int + (epoll_event \<times> event_os) list) list \<Rightarrow> 'w server \<Rightarrow> bool" where
  "waits_valid ssl [] s \<longleftrightarrow> True"
| "waits_valid ssl (x # xs) s \<longleftrightarrow> wait_valid ssl x s \<and>
     (case handle_wait ssl x s of Inr (Continue, s') \<Rightarrow> waits_valid ssl xs s' | _ \<Rightarrow> True)"

text \<open>The answers of \<open>time\<close> in a batch of events, and in all of them.\<close>

definition batch_times :: "(epoll_event \<times> event_os) list \<Rightarrow> int set" where
  "batch_times evs = (\<lambda>e. time_result (snd e)) ` set evs"

definition wait_times :: "int + (epoll_event \<times> event_os) list \<Rightarrow> int set" where
  "wait_times wait = (case wait of Inl errno \<Rightarrow> {} | Inr evs \<Rightarrow> batch_times evs)"

definition clock_times :: "(int + (epoll_event \<times> event_os) list) list \<Rightarrow> int set" where
  "clock_times waits = (\<Union>wait\<in>set waits. wait_times wait)"

interpretation batch: event_run "\<lambda>e. handle_event ssl (fst e) (snd e)" "handle_events ssl"
  "\<lambda>e s. event_valid e s \<and> time_result (snd e) \<in> T" "\<lambda>es s. events_valid ssl es s \<and> batch_times es \<subseteq> T"
  "\<lambda>s. openssl_ok ssl live \<and> server_inv live K s" "authorised ssl K T" for ssl live K T
proof (unfold_locales, goal_cases)
  case (2 e es s)
  show ?case by (cases e) simp
next
  case (4 s e)
  then show ?case
    using handle_event_safe [of ssl live K s "fst e" "snd e" T] by (auto elim: safe_mono)
qed (auto simp: batch_times_def)

interpretation looping: event_run "handle_wait ssl" "event_loop ssl"
  "\<lambda>x s. wait_valid ssl x s \<and> wait_times x \<subseteq> T" "\<lambda>xs s. waits_valid ssl xs s \<and> clock_times xs \<subseteq> T"
  "\<lambda>s. openssl_ok ssl live \<and> server_inv live K s" "authorised ssl K T" for ssl live K T
proof (unfold_locales, goal_cases)
  case (2 x xs s)
  show ?case by (cases x) (simp_all add: handle_wait_def)
next
  case (4 s x)
  then show ?case
    using batch.run_safe [of ssl live K s _ T]
    by (cases x) (auto simp: handle_wait_def wait_valid_def wait_times_def extends_def)
qed (auto simp: clock_times_def)

text \<open>
  A library that verifies the signature of the script in every state in which \<open>V\<close> holds, and stays in
  such states, makes the loop find it, when no key has expired.
\<close>

definition verifies ::
    "'w OpenSSL \<Rightarrow> ('w \<Rightarrow> bool) \<Rightarrow> PubKey \<Rightarrow> byte list \<Rightarrow> byte list \<Rightarrow> bool" where
  "verifies ssl V k sig script \<longleftrightarrow>
     (\<forall>v. V v \<longrightarrow> (\<exists>v'. openssl_verify ssl k script sig v = Inr (True, v')))"

definition verify_keeps :: "'w OpenSSL \<Rightarrow> ('w \<Rightarrow> bool) \<Rightarrow> PubKey \<Rightarrow> bool" where
  "verify_keeps ssl V k \<longleftrightarrow>
     (\<forall>v script sig. V v \<longrightarrow> rsafe (openssl_verify ssl k script sig v) (\<lambda>(b, v'). V v'))"

lemma auth_loop_complete:
  assumes v: "valid_end raw n"
    and ks: "\<forall>k\<in>set (take m ks). exp_sig_size k \<in> SIG_SIZES \<and> alg_idx k < 3 \<and> now \<le> expiry k \<and> verify_keeps ssl V k" and m: "m \<le> length ks"
    and j: "i \<le> j" "j < m" "exp_sig_size (ks ! j) + 1 \<le> n"
    "raw ! unat (exp_sig_size (ks ! j)) = 10"
    and w: "V w" and ver: "verifies ssl V (ks ! j) (slice raw 0 (exp_sig_size (ks ! j)))
      (slice raw (exp_sig_size (ks ! j) + 1) n)"
  shows "\<exists>start w'. auth_loop ssl now raw n m i ks m w = Inr (Authentic start, ks, m, w')"
  using w j(1)
proof (induction "j - i" arbitrary: i w)
  case 0
  then have i: "i = j" by simp
  let ?k = "ks ! j"
  have "?k \<in> set (take m ks)" using j(2) m by (auto simp: in_set_conv_nth)
  then have k: "now \<le> expiry ?k" and sz: "exp_sig_size ?k \<in> SIG_SIZES" "alg_idx ?k < 3" using ks by auto
  note parts = auth_key_parts [OF v sz(1) j(3)]
  obtain v' where "openssl_verify ssl ?k (slice raw (exp_sig_size ?k + 1) n) (slice raw 0 (exp_sig_size ?k)) w = Inr (True, v')"
    using 0(2) ver by (auto simp: verifies_def)
  with parts(1-3) j k i m show ?case
    by (subst auth_loop.simps) (simp add: Let_def pub_key_verify_openssl [OF sz(2)])
next
  case (Suc d)
  then have lt: "i < j" "i < m" "i < length ks" using j(2) m by auto
  let ?k = "ks ! i"
  have "?k \<in> set (take m ks)" using lt by (auto simp: in_set_conv_nth)
  then have k: "now \<le> expiry ?k" "verify_keeps ssl V ?k" and sz: "exp_sig_size ?k \<in> SIG_SIZES" "alg_idx ?k < 3"
    using ks by auto
  have next_key: "\<exists>start w'. auth_loop ssl now raw n m (i + 1) ks m u =
      Inr (Authentic start, ks, m, w')" if u: "V u" for u
    by (rule Suc(1)) (use Suc lt u in auto)
  show ?case
  proof (cases "exp_sig_size ?k + 1 \<le> n \<and> raw ! unat (exp_sig_size ?k) = 10")
    case False
    have "check_ok (if exp_sig_size ?k + 1 \<le> n then check_ok (rd raw (exp_sig_size ?k)) (\<lambda>b. Inr (b = 10))
        else Inr False) f = (f False :: (auth_result \<times> PubKey list \<times> nat \<times> 'a) run)" for f
      using False auth_key_parts(1) [OF v sz(1)] by (cases "exp_sig_size ?k + 1 \<le> n") auto
    with next_key [OF Suc(3)] k lt m show ?thesis by (subst auth_loop.simps) (simp add: Let_def)
  next
    case True
    note parts = auth_key_parts [OF v sz(1) conjunct1 [OF True]]
    have "rsafe (openssl_verify ssl ?k (slice raw (exp_sig_size ?k + 1) n) (slice raw 0 (exp_sig_size ?k)) w)
       (\<lambda>(b, w'). V w')" using k(2) Suc(3) unfolding verify_keeps_def by blast
    then obtain b u where b: "openssl_verify ssl ?k (slice raw (exp_sig_size ?k + 1) n) (slice raw 0 (exp_sig_size ?k)) w
        = Inr (b, u)" "V u" by (auto simp: run_safe_iff)
    show ?thesis
    proof (cases b)
      case False
      with next_key [OF b(2)] True k lt m parts(1-3) b(1) show ?thesis
        by (subst auth_loop.simps) (simp add: Let_def pub_key_verify_openssl [OF sz(2)])
    next
      case b: True
      with True k lt m parts(1-3) \<open>openssl_verify _ _ _ _ _ = _\<close> show ?thesis
        by (subst auth_loop.simps) (simp add: Let_def pub_key_verify_openssl [OF sz(2)])
    qed
  qed
qed

text \<open>
  With an expired key behind a valid one, a connection that the valid key does not authenticate ends
  the loop with the verdict that all keys have expired: the bound of the loop is the number of keys
  before the removal, so the removed key is looked at again.
\<close>

lemma auth_loop_revisits:
  assumes "now \<le> expiry a" "expiry b < now" "n < exp_sig_size a + 1"
  shows "auth_loop ssl now raw n 2 0 [a, b] 2 w = Inr (All_Expired, [a, b], 1, w)"
proof -
  have "\<not> exp_sig_size a + 1 \<le> n" using assms(3) by simp
  then have "auth_loop ssl now raw n 2 0 [a, b] 2 w = auth_loop ssl now raw n 2 1 [a, b] 2 w"
    using assms(1) by (subst auth_loop.simps) (simp add: Let_def)
  also have "\<dots> = auth_loop ssl now raw n 2 1 [a, b] 1 w"
    using assms(2) by (subst auth_loop.simps) (simp add: Let_def swap_keys_def)
  also have "\<dots> = Inr (All_Expired, [a, b], 1, w)"
    using assms(2) by (subst auth_loop.simps) (simp add: Let_def)
  finally show ?thesis .
qed

lemma accept_conn_add_fails:
  assumes inv: "conns_inv (res s)" and r: "unat (conns_total (res s)) < MAX_CONCURRENCY"
    and os: "0 < accept_result os" "add_result os < 0"
  shows "accept_conn os s = Inl (Fault AssertFailed)"
proof -
  have "unused_loop (conns (res s)) 0 \<noteq> None"
    using unused_loop_none [of "conns (res s)" 0] inv r by (auto simp: conns_inv_def)
  then show ?thesis using r os
    by (auto simp: accept_conn_def evict_def Let_def c_assert_def)
qed

lemma handle_event_stale:
  "i < length (conns (res s)) \<Longrightarrow> i < MAX_CONCURRENCY \<Longrightarrow> fd (conns (res s) ! i) \<le> 0 \<Longrightarrow>
   data_fd event = int i \<Longrightarrow> handle_event ssl event os s = Inl (Fault AssertFailed)"
  by (simp add: handle_event_def handle_conn_def MAX_INT32_def c_assert_def)

text \<open>The parts of the input of a connection that starts with a signature of the size of a key.\<close>

lemma input_parts:
  assumes v: "valid_end raw n" and k: "exp_sig_size k \<in> SIG_SIZES"
    and s: "slice raw 0 n = sig @ 10 # script" and l: "of_nat (length sig) = exp_sig_size k"
  shows "exp_sig_size k + 1 \<le> n" "raw ! unat (exp_sig_size k) = 10"
    "slice raw 0 (exp_sig_size k) = sig" "slice raw (exp_sig_size k + 1) n = script"
proof -
  have n: "unat n = length sig + Suc (length script)"
    using length_slice [OF v, of 0] s by simp
  have "length sig < 2 ^ 64" using n unsigned_less [of n, where 'a = nat] by simp
  then have u: "unat (exp_sig_size k) = length sig"
    using l [symmetric] by (simp add: unat_of_nat_small)
  then show le: "exp_sig_size k + 1 \<le> n"
    using n sig_sizes_small [OF k] by (simp add: word_le_nat_alt)
  note parts = auth_key_parts [OF v k le]
  have "exp_sig_size k \<le> n" using le sig_sizes_small [OF k] by auto
  then have "length (slice raw 0 (exp_sig_size k)) = length sig"
    using length_slice [OF valid_end_mono [OF v], of "exp_sig_size k" 0] u by simp
  with parts(4) s show "slice raw 0 (exp_sig_size k) = sig" "raw ! unat (exp_sig_size k) = 10"
    "slice raw (exp_sig_size k + 1) n = script" by auto
qed

text \<open>The connection that evict closes.\<close>

lemma evict_oldest:
  assumes inv: "conns_inv (res s)" and full: "MAX_CONCURRENCY \<le> unat (conns_total (res s))"
  obtains i where "evict s = free_conn i s" "i < MAX_CONCURRENCY" "fd (conns (res s) ! i) > 0"
    "\<forall>c\<in>set (conns (res s)). fd c > 0 \<longrightarrow> open_time (conns (res s) ! i) \<le> open_time c"
proof -
  let ?cs = "conns (res s)"
  have "0 < open_conns ?cs" using inv full by (simp add: conns_inv_def)
  then obtain c where "c \<in> set ?cs" "fd c > 0" unfolding open_conns_def
    by (auto simp: length_greater_0_conv filter_empty_conv)
  then have "oldest_loop ?cs 0 MAX_INT64 None \<noteq> None"
    using inv by (intro oldest_loop_some) (auto simp: conns_inv_def conn_inv_def)
  then obtain i where i: "oldest_loop ?cs 0 MAX_INT64 None = Some i" by auto
  from oldest_loop_min [OF i] have "i < length ?cs \<and> fd (?cs ! i) > 0 \<and>
    (\<forall>c\<in>set ?cs. fd c > 0 \<longrightarrow> open_time (?cs ! i) \<le> open_time c)" by auto
  moreover have "evict s = free_conn i s" using full i by (simp add: evict_def)
  ultimately show ?thesis using inv that by (simp add: conns_inv_def)
qed

text \<open>A terminated connection whose bytes the keys authenticate has its script run, and is closed.\<close>

lemma authenticate_authentic:
  assumes ok: "openssl_ok ssl live" and inv: "server_inv live K s"
    and i: "i < MAX_CONCURRENCY" "fd (conns (res s) ! i) > 0" and xos: "writes_ok xos"
    and ks: "keys (res s) = Some ks" and raw: "buf (conns (res s) ! i) = Some raw"
    and loop: "auth_loop ssl now raw (buf_size (conns (res s) ! i)) (unat (keys_size (res s))) 0 ks
      (unat (keys_size (res s))) (lib s) = Inr (Authentic start, ks', ksz, w')"
  shows "\<exists>s' es. authenticate ssl i now xos s = Inr (Continue, s') \<and> fd (conns (res s') ! i) = 0 \<and>
    (all_written xos \<longrightarrow> fed es = slice raw start (buf_size (conns (res s) ! i)) \<and> (\<exists>p. Reaped p \<in> set es)) \<and>
    trace s' = trace s @ [Ran (slice raw start (buf_size (conns (res s) ! i))) (script_n (res s) + 1) es,
      CloseFd (fd (conns (res s) ! i))]"
proof -
  let ?c = "conns (res s) ! i" and ?m = "unat (keys_size (res s))"
  have c: "conns_inv (res s)" and k: "keys_inv live K (res s) (lib s)" using inv by (auto simp: server_inv_def)
  note at = conns_inv_at [OF c i(1)]
  then have b: "unat (buf_size ?c) \<le> length raw" "buf_size ?c < MAX_SCRIPT_SIZE"
    using raw by (auto simp: conn_inv_def)
  then have n: "unat (buf_size ?c) < 2 ^ 31" by (simp add: MAX_SCRIPT_SIZE_def word_less_nat_alt)
  with b have v: "valid_end raw (buf_size ?c)" by (simp add: valid_end_def object_size_def PTRDIFF_MAX_def)
  from k ks obtain N where N: "N \<le> length ks" "?m \<le> N" "1 \<le> ?m" "\<forall>k\<in>set (take N ks). key_ok live (lib s) k"
    by (auto simp: keys_inv_def keys_held_def)
  from safe_InrD [OF auth_loop_safe [OF ok v N(1,2,3,2,4)] loop] have st: "start \<le> buf_size ?c"
    by (simp add: auth_post_def)
  let ?n = "buf_size ?c - start" and ?script = "slice raw start (buf_size ?c)"
  have rd: "rd_bytes raw start ?n = (Inr ?script :: byte list run)" by (rule rd_bytes_slice [OF v st])
  have un: "unat ?n = length ?script" using st by (simp add: length_slice [OF v] unat_sub)
  also have "\<dots> \<le> unat (buf_size ?c)" by (simp add: length_slice [OF v])
  finally have nn: "unat ?n < 2 ^ 31" using n by simp
  have vs: "valid_end ?script ?n" using nn un by (simp add: valid_end_def object_size_def PTRDIFF_MAX_def)
  have "write_returns (unat ?n) (xos ?n)" using xos by (simp add: writes_ok_def)
  from exec_script_runs [OF vs nn this] obtain es where
    es: "exec_script ?script ?n (of_int (script_n (res s) + 1)) (xos ?n) = Inr es" "NoAnswer \<notin> set es"
    unfolding run_safe_iff by blast
  have "slice ?script 0 ?n = ?script" unfolding slice_def [of ?script] un by simp
  then have fed: "fed es = ?script \<and> (\<exists>p. Reaped p \<in> set es)" if "all_written xos"
    using exec_script_all [OF vs nn _ es(1)] that by (auto simp: all_written_def)
  let ?t = "s\<lparr>lib := w', res := (res s)\<lparr>keys := Some ks', keys_size := of_nat ksz, script_n := script_n (res s) + 1\<rparr>\<rparr>"
  have "conn_at (emit [Ran ?script (script_n (res s) + 1) es] ?t) i = Inr ?c" using at by simp
  then show ?thesis
    unfolding authenticate_def conn_at_valid [OF conjunct1 [OF at]] check_ok_simps ks raw
      prod.case option.case loop
    using at fed by (simp add: Let_def rd es free_conn_def del: of_int_add)
qed

text \<open>While there is room for all that is received, the connection stays open and nothing is reported.\<close>

lemma recv_loop_stays:
  assumes "recv_loop i chunks EAGAIN s = Inr t" "i < length (conns (res s))"
    and "unat (buf_size (conns (res s) ! i)) + length (concat (takeWhile (\<lambda>b. b \<noteq> []) chunks)) < unat MAX_SCRIPT_SIZE"
  shows "fd (conns (res t) ! i) = fd (conns (res s) ! i) \<and> trace t = trace s \<and> script_n (res t) = script_n (res s)"
  using assms
proof (induction chunks arbitrary: s)
  case (Cons bs chunks)
  let ?c = "conns (res s) ! i"
  show ?case
  proof (cases "bs = []")
    case False
    with Cons.prems obtain d where d: "recv_into ?c bs = Inr d"
      by (auto simp del: recv_loop.simps) (auto simp: recv_loop.simps(2))
    then have f: "fd d = fd ?c" "buf_size d = buf_size ?c + of_nat (length bs)"
      by (auto simp: recv_into_def split: option.splits if_splits)
    have sum: "unat (buf_size ?c) + length bs + length (concat (takeWhile (\<lambda>b. b \<noteq> []) chunks)) < 2 ^ 31"
      using Cons.prems(3) False by (simp add: MAX_SCRIPT_SIZE_def)
    then have "unat (of_nat (length bs) :: uinta) = length bs" by (intro unat_of_nat_small) simp
    then have u: "unat (buf_size d) = unat (buf_size ?c) + length bs"
      using sum by (simp add: f(2) unat_word_ariths(1))
    then have small: "\<not> buf_size d \<ge> MAX_SCRIPT_SIZE"
      using sum by (simp add: MAX_SCRIPT_SIZE_def word_le_nat_alt)
    let ?d = "if buf_size d \<ge> buf_cap d then d\<lparr>buf_cap := buf_cap d * 2\<rparr> else d"
    have "recv_loop i chunks EAGAIN (set_conn i ?d s) = Inr t"
      using Cons.prems(1,2) False d small by (simp add: Let_def)
    from Cons.IH [OF this] Cons.prems(2) f(1) u sum show ?thesis
      by (simp add: MAX_SCRIPT_SIZE_def set_conn_def split: if_splits)
  qed (use Cons.prems in simp)
qed simp

text \<open>One event: what was still to be received arrives, the peer has closed the connection, and the keys authenticate it.\<close>

lemma handle_event_authentic:
  assumes ok: "openssl_ok ssl live" and inv: "server_inv live K s" and v: "event_valid (event, os) s"
    and e: "data_fd event = int i" "i < MAX_CONCURRENCY" "events event AND EPOLLIN > 0"
      "events event AND (EPOLLRDHUP OR EPOLLHUP) > 0" "recv_errno os = EAGAIN"
    and ks: "keys (res s) = Some ks"
    and data: "conn_data (conns (res s) ! i) @ concat (takeWhile (\<lambda>b. b \<noteq> []) (recv_chunks os)) = input"
    and sz: "length input < unat MAX_SCRIPT_SIZE"
    and auth: "\<And>raw n. valid_end raw n \<Longrightarrow> slice raw 0 n = input \<Longrightarrow>
      \<exists>start ks' ksz w'. auth_loop ssl (time_result os) raw n (unat (keys_size (res s))) 0 ks
        (unat (keys_size (res s))) (lib s) = Inr (Authentic start, ks', ksz, w') \<and> Q (slice raw start n)"
  shows "\<exists>s' script es. handle_event ssl event os s = Inr (Continue, s') \<and> Q script \<and>
    (all_written (exec_answers os) \<longrightarrow> fed es = script \<and> (\<exists>p. Reaped p \<in> set es)) \<and>
    trace s' = trace s @ [Ran script (script_n (res s) + 1) es, CloseFd (fd (conns (res s) ! i))]"
proof -
  let ?c = "conns (res s) ! i"
  have c: "conns_inv (res s)" using inv by (simp add: server_inv_def)
  have ne: "data_fd event \<noteq> MAX_INT32" using e(1,2) by (simp add: MAX_INT32_def)
  then have o: "fd ?c > 0" "recv_fits (buf_cap ?c) (buf_size ?c) (recv_chunks os)" "writes_ok (exec_answers os)"
    using v e(1-3) by (auto simp: event_valid_def Let_def)
  note at = conns_inv_at [OF c e(2)]
  from recv_loop_safe [OF c e(2) o(1,2), of "recv_errno os"] obtain t where
    t: "recv_loop i (recv_chunks os) (recv_errno os) s = Inr t" "recv_post i (recv_chunks os) s t"
    unfolding run_safe_iff by blast
  from at o(1) have "unat (buf_size ?c) = length (conn_data ?c)"
    by (auto simp: conn_inv_def conn_data_def split: option.splits)
  then have "unat (buf_size ?c) + length (concat (takeWhile (\<lambda>b. b \<noteq> []) (recv_chunks os))) < unat MAX_SCRIPT_SIZE"
    using sz by (simp flip: data)
  from recv_loop_stays [OF t(1) [unfolded e(5)] conjunct1 [OF at] this]
  have st: "fd (conns (res t) ! i) = fd ?c" "trace t = trace s" "script_n (res t) = script_n (res s)" by auto
  from t(2) st(1) o(1) have tt: "conns_inv (res t)" "same_keys s t" "conn_data (conns (res t) ! i) = input"
    unfolding data [symmetric] by (auto simp: recv_post_def)
  have ti: "server_inv live K t" by (rule server_inv_same [OF inv tt(2,1)])
  have tk: "keys (res t) = Some ks" "keys_size (res t) = keys_size (res s)" "lib t = lib s"
    using tt(2) ks by (auto simp: same_keys_def)
  note at' = conns_inv_at [OF tt(1) e(2)]
  let ?d = "conns (res t) ! i"
  from at' st(1) o(1) obtain raw where raw: "buf ?d = Some raw" "unat (buf_size ?d) \<le> length raw"
    "buf_size ?d < MAX_SCRIPT_SIZE" by (auto simp: conn_inv_def split: option.splits)
  then have "unat (buf_size ?d) < 2 ^ 31" by (simp add: MAX_SCRIPT_SIZE_def word_less_nat_alt)
  with raw have ve: "valid_end raw (buf_size ?d)" by (simp add: valid_end_def object_size_def PTRDIFF_MAX_def)
  have "slice raw 0 (buf_size ?d) = input" using tt(3) raw(1) by (simp add: conn_data_def slice_def)
  from auth [OF ve this] obtain start ks' ksz w' where
    l: "auth_loop ssl (time_result os) raw (buf_size ?d) (unat (keys_size (res t))) 0 ks (unat (keys_size (res t)))
          (lib t) = Inr (Authentic start, ks', ksz, w')" "Q (slice raw start (buf_size ?d))"
    unfolding tk by blast
  from authenticate_authentic [OF ok ti e(2) _ o(3) tk(1) raw(1) l(1)] st o(1) obtain u es where
    u: "authenticate ssl i (time_result os) (exec_answers os) t = Inr (Continue, u)" "fd (conns (res u) ! i) = 0"
      "all_written (exec_answers os) \<longrightarrow> fed es = slice raw start (buf_size ?d) \<and> (\<exists>p. Reaped p \<in> set es)"
      "trace u = trace s @ [Ran (slice raw start (buf_size ?d)) (script_n (res s) + 1) es, CloseFd (fd ?c)]"
    by auto
  have "server_inv live K u"
    using safe_InrD [OF authenticate_safe [OF ok ti e(2) _ o(3), where T = UNIV] u(1)] st o(1) by simp
  then have "i < length (conns (res u))" using conns_inv_at [OF _ e(2)] by (simp add: server_inv_def)
  with at at' e t(1) u o(1) st(1) have "handle_conn ssl i (events event) os s = Inr (Continue, u)"
    by (simp add: handle_conn_def c_assert_def)
  then have "handle_event ssl event os s = Inr (Continue, u)"
    using ne e(1,2) by (simp add: handle_event_def)
  with u(3,4) l(2) show ?thesis by blast
qed

end
