(* ===== verification/Survival.thy ===== *)
theory Survival
  imports Events
begin

text \<open>
  What a run that does not fault says of its events: those that the program does not survive are exactly
  the ones that \<open>event_valid\<close> excludes, as long as the kernel answers as it is documented to. So what holds
  of valid events holds of every run that returns. That every \<open>write\<close> returns is not assumed: the answers a
  run that returns has used may be followed by any others.
\<close>

section \<open>The answers of the kernel\<close>

text \<open>
  The documented answers, whatever the state of the server: \<open>accept\<close> does not return the descriptor of the
  standard input, the clock has not reached the last time it can tell, and \<open>write\<close>, if it returns, has written no
  more than it was given. \<open>epoll_ctl\<close> may fail, \<open>write\<close> may block for ever, \<open>recv\<close> may return any chunks, and any
  data may come back from \<open>epoll_wait\<close>.
\<close>

definition writes_fit :: "(uinta \<Rightarrow> exec_os) \<Rightarrow> bool" where
  "writes_fit xos \<longleftrightarrow> (\<forall>n. write_answers (unat n) (write_results (xos n)))"

lemma writes_ok_fit: "writes_ok xos \<Longrightarrow> writes_fit xos"
  by (simp add: writes_ok_def writes_fit_def write_returns_def)

definition kernel_ok :: "event_os \<Rightarrow> bool" where
  "kernel_ok os \<longleftrightarrow> accept_result (acc os) \<noteq> 0 \<and> clock_result (acc os) < MAX_INT64 \<and> writes_fit (exec_answers os)"

definition kernel_wait_ok :: "int + (epoll_event \<times> event_os) list \<Rightarrow> bool" where
  "kernel_wait_ok wait = (case wait of Inl errno \<Rightarrow> True | Inr evs \<Rightarrow> \<forall>e\<in>set evs. kernel_ok (snd e))"

section \<open>Answers that are not used\<close>

text \<open>An error behind the answers of \<open>write\<close>, for a loop that would wait for another one.\<close>

definition pad_writes :: "(uinta \<Rightarrow> exec_os) \<Rightarrow> uinta \<Rightarrow> exec_os" where
  "pad_writes xos = (\<lambda>n. (xos n)\<lparr>write_results := write_results (xos n) @ replicate (unat n) (- 1)\<rparr>)"

definition pad :: "event_os \<Rightarrow> event_os" where
  "pad os = os\<lparr>exec_answers := pad_writes (exec_answers os)\<rparr>"

lemma pad_simps [simp]:
  "acc (pad os) = acc os" "recv_chunks (pad os) = recv_chunks os" "recv_errno (pad os) = recv_errno os"
  "time_result (pad os) = time_result os" "exec_answers (pad os) = pad_writes (exec_answers os)"
  by (simp_all add: pad_def)

lemma write_answers_append: "write_answers n rets \<Longrightarrow> write_answers n (rets @ replicate k (- 1))"
proof (induction n rets rule: write_answers.induct)
  case (1 n)
  then show ?case by (cases k) simp_all
qed auto

lemma pad_writes_ok: "writes_fit xos \<Longrightarrow> writes_ok (pad_writes xos)"
  by (simp add: writes_fit_def writes_ok_def write_returns_def pad_writes_def write_answers_append)

text \<open>A loop that has not blocked does not look at the answers behind, and one that has only blocked is the same.\<close>

lemma write_loop_append:
  "write_loop script n i rets = Inr es \<Longrightarrow> NoAnswer \<notin> set es \<Longrightarrow> write_loop script n i (rets @ xs) = Inr es"
proof (induction rets arbitrary: i es)
  case Nil
  then show ?case by (cases xs) (auto split: if_splits)
next
  case (Cons ret rets)
  then show ?case by (auto simp: if_fail split: if_splits)
qed

lemma write_loop_cut:
  "write_loop script n i (rets @ xs) = Inr es' \<Longrightarrow>
   \<exists>es. write_loop script n i rets = Inr es \<and> (NoAnswer \<in> set es \<or> es = es')"
proof (induction rets arbitrary: i es')
  case Nil
  then show ?case by (cases xs) (auto split: if_splits)
next
  case (Cons ret rets)
  show ?case
  proof (cases "i < n \<and> 0 \<le> ret")
    case True
    with Cons.prems obtain bs es0 where b: "rd_bytes script i (of_int ret) = (Inr bs :: byte list run)"
      "write_loop script n (i + of_int ret) (rets @ xs) = Inr es0" "es' = Fed bs # es0" by (auto simp: if_fail)
    from Cons.IH [OF b(2)] True b(1,3) show ?thesis by auto
  next
    case False
    with Cons.prems show ?thesis by (auto split: if_splits)
  qed
qed

lemma exec_script_pad:
  assumes "exec_script script n k (xos n) = Inr es" "NoAnswer \<notin> set es"
  shows "exec_script script n k (pad_writes xos n) = Inr es"
  using assms write_loop_append [of script n 0 "write_results (xos n)"]
  by (auto simp: exec_script_def pad_writes_def if_fail split: if_splits)

lemma exec_script_cut:
  assumes "exec_script script n k (pad_writes xos n) = Inr es'"
  shows "\<exists>es. exec_script script n k (xos n) = Inr es \<and> (NoAnswer \<in> set es \<or> es = es')"
  using assms write_loop_cut [of script n 0 "write_results (xos n)"]
  by (fastforce simp: exec_script_def pad_writes_def if_fail split: if_splits)

section \<open>What is survived is valid\<close>

lemma recv_loop_survives:
  "recv_loop i chunks errno s = Inr t \<Longrightarrow> i < length (conns (res s)) \<Longrightarrow>
   recv_fits (buf_cap (conns (res s) ! i)) (buf_size (conns (res s) ! i)) chunks"
proof (induction chunks arbitrary: s)
  case (Cons bs chunks)
  let ?c = "conns (res s) ! i"
  show ?case
  proof (cases "bs = []")
    case False
    with Cons.prems obtain d where d: "recv_into ?c bs = Inr d"
      by (cases "recv_into ?c bs") auto
    then have f: "buf_cap d = buf_cap ?c" "buf_size d = buf_size ?c + of_nat (length bs)"
      "length bs \<le> unat (buf_cap ?c - buf_size ?c)"
      by (auto simp: recv_into_def split: option.splits if_splits)
    show ?thesis
    proof (cases "buf_size d \<ge> MAX_SCRIPT_SIZE")
      case True
      then show ?thesis using f by simp
    next
      case small: False
      let ?d = "if buf_size d \<ge> buf_cap d then d\<lparr>buf_cap := buf_cap d * 2\<rparr> else d"
      have "recv_loop i chunks errno (set_conn i ?d s) = Inr t"
        using Cons.prems(1,2) False d small by (simp add: Let_def)
      from Cons.IH [OF this] Cons.prems(2) f show ?thesis
        by (simp split: if_splits)
    qed
  qed simp
qed simp

lemma accept_conn_survives:
  assumes "accept_conn os s = Inr t" "accept_result os \<noteq> 0" "clock_result os < MAX_INT64"
  shows "accept_ok os"
proof (cases "accept_result os < 0")
  case False
  with assms obtain u i where "\<not> add_result os < 0"
    by (cases "evict s") (auto simp: accept_conn_def c_assert_def Let_def split: option.splits if_splits)
  with False assms show ?thesis by (simp add: accept_ok_def)
qed (simp add: accept_ok_def)

text \<open>The padded event goes the same way.\<close>

lemma authenticate_pad:
  assumes "authenticate ssl i now xos s = Inr r"
  shows "authenticate ssl i now (pad_writes xos) s = Inr r"
proof (cases "\<exists>conn raw ks start ks' ksz w. conn_at s i = Inr conn \<and> buf conn = Some raw \<and> keys (res s) = Some ks \<and>
    auth_loop ssl now raw (buf_size conn) (unat (keys_size (res s))) 0 ks (unat (keys_size (res s))) (lib s) =
      Inr (Authentic start, ks', ksz, w)")
  case True
  then obtain conn raw ks start ks' ksz w where l: "conn_at s i = Inr conn" "buf conn = Some raw" "keys (res s) = Some ks"
    "auth_loop ssl now raw (buf_size conn) (unat (keys_size (res s))) 0 ks (unat (keys_size (res s))) (lib s) =
      Inr (Authentic start, ks', ksz, w)" by blast
  from assms show ?thesis by (auto simp: authenticate_def l Let_def if_fail exec_script_pad)
next
  case False
  with assms show ?thesis by (auto simp: authenticate_def Let_def split: option.splits auth_result.splits)
qed

lemma authenticate_cut:
  assumes "authenticate ssl i now (pad_writes xos) s = Inr r"
  shows "authenticate ssl i now xos s = Inr r \<or> authenticate ssl i now xos s = Inl (Fault Blocked)"
proof (cases "\<exists>conn raw ks start ks' ksz w. conn_at s i = Inr conn \<and> buf conn = Some raw \<and> keys (res s) = Some ks \<and>
    auth_loop ssl now raw (buf_size conn) (unat (keys_size (res s))) 0 ks (unat (keys_size (res s))) (lib s) =
      Inr (Authentic start, ks', ksz, w)")
  case True
  then obtain conn raw ks start ks' ksz w where l: "conn_at s i = Inr conn" "buf conn = Some raw" "keys (res s) = Some ks"
    "auth_loop ssl now raw (buf_size conn) (unat (keys_size (res s))) 0 ks (unat (keys_size (res s))) (lib s) =
      Inr (Authentic start, ks', ksz, w)" by blast
  from assms show ?thesis by (auto simp: authenticate_def l Let_def if_fail dest!: exec_script_cut)
next
  case False
  with assms show ?thesis by (auto simp: authenticate_def Let_def split: option.splits auth_result.splits)
qed

lemma handle_conn_pad:
  "handle_conn ssl i evs os s = Inr r \<Longrightarrow> handle_conn ssl i evs (pad os) s = Inr r"
  unfolding handle_conn_def check_ok_Inr
  by (elim exE conjE) (auto intro!: exI dest: authenticate_pad split: if_splits)

lemma handle_event_pad: "handle_event ssl event os s = Inr r \<Longrightarrow> handle_event ssl event (pad os) s = Inr r"
  by (auto simp: handle_event_def Let_def dest: handle_conn_pad split: if_splits)

lemma handle_event_survives:
  assumes c: "conns_inv (res s)" and os: "kernel_ok os" and run: "handle_event ssl event os s = Inr r"
  shows "event_valid (event, pad os) s"
proof -
  consider (acc) "data_fd event = MAX_INT32"
    | (conn) "data_fd event \<noteq> MAX_INT32" "0 \<le> data_fd event" "data_fd event < int MAX_CONCURRENCY"
    | (bad) "data_fd event \<noteq> MAX_INT32" "0 \<le> data_fd event" "\<not> data_fd event < int MAX_CONCURRENCY"
    using run by (force simp: handle_event_def Let_def split: if_splits)
  then show ?thesis
  proof cases
    case acc
    with run obtain t where "accept_conn (acc os) s = Inr t"
      by (cases "accept_conn (acc os) s") (auto simp: handle_event_def)
    from accept_conn_survives [OF this] os acc show ?thesis by (simp add: event_valid_def kernel_ok_def)
  next
    case conn
    let ?i = "nat (data_fd event)"
    have i: "?i < length (conns (res s))" using conns_inv_at [OF c, of ?i] conn by simp
    from conn run have h: "handle_conn ssl ?i (events event) os s = Inr r" by (simp add: handle_event_def)
    then have fd: "fd (conns (res s) ! ?i) > 0"
      by (auto simp: handle_conn_def conn_at_valid [OF i] c_assert_def split: if_splits)
    have "recv_fits (buf_cap (conns (res s) ! ?i)) (buf_size (conns (res s) ! ?i)) (recv_chunks os)"
      if "events event AND EPOLLIN > 0"
    proof -
      from h that fd obtain t where "recv_loop ?i (recv_chunks os) (recv_errno os) s = Inr t"
        by (cases "recv_loop ?i (recv_chunks os) (recv_errno os) s") (auto simp: handle_conn_def conn_at_valid [OF i] c_assert_def)
      from recv_loop_survives [OF this i] show ?thesis .
    qed
    with conn fd os show ?thesis by (simp add: event_valid_def kernel_ok_def pad_writes_ok Let_def)
  next
    case bad
    then show ?thesis by (simp add: event_valid_def)
  qed
qed

text \<open>And the event blocks at most where the padded one returns.\<close>

lemma handle_conn_cut:
  assumes "handle_conn ssl i evs (pad os) s = Inr r"
  shows "handle_conn ssl i evs os s = Inr r \<or> handle_conn ssl i evs os s = Inl (Fault Blocked)"
proof -
  from assms obtain conn u t conn' where c: "conn_at s i = Inr conn" "c_assert (fd conn > 0) = (Inr u :: unit run)"
    "(if evs AND EPOLLIN > 0 then recv_loop i (recv_chunks os) (recv_errno os) s else Inr s) = Inr t" "conn_at t i = Inr conn'"
    unfolding handle_conn_def check_ok_Inr pad_simps by (elim exE conjE) blast
  show ?thesis
  proof (cases "fd conn' > 0 \<and> evs AND (EPOLLRDHUP OR EPOLLHUP) > 0")
    case True
    with assms obtain vd u where a: "authenticate ssl i (time_result os) (pad_writes (exec_answers os)) t = Inr (vd, u)"
      unfolding handle_conn_def pad_simps c check_ok_simps by (auto simp del: c_assert_simps)
    from authenticate_cut [OF a] assms a True show ?thesis unfolding handle_conn_def pad_simps c check_ok_simps by auto
  next
    case False
    show ?thesis
      using assms unfolding handle_conn_def pad_simps c check_ok_simps if_not_P [OF False] by (rule disjI1)
  qed
qed

lemma handle_event_cut:
  "handle_event ssl event (pad os) s = Inr r \<Longrightarrow>
   handle_event ssl event os s = Inr r \<or> handle_event ssl event os s = Inl (Fault Blocked)"
  by (auto simp: handle_event_def Let_def dest!: handle_conn_cut split: if_splits)

section \<open>Runs that do not fault\<close>

text \<open>A run of events in which validity, of the padded event, is what surviving a benign event shows.\<close>

locale surviving_run = event_run +
  fixes benign :: "'a \<Rightarrow> bool" and padded :: "'a \<Rightarrow> 'a"
  assumes valid_Nil: "valid_all [] s"
    and valid_all_Cons: "valid (padded e) s \<Longrightarrow> \<forall>e\<in>set es. benign e \<Longrightarrow>
      (\<And>s'. handle (padded e) s = Inr (Continue, s') \<Longrightarrow> valid_all (map padded es) s') \<Longrightarrow> valid_all (map padded (e # es)) s"
    and survives: "inv s \<Longrightarrow> benign e \<Longrightarrow> handle e s = Inr r \<Longrightarrow> valid (padded e) s \<and> handle (padded e) s = Inr r"
begin

lemma run_survives:
  "inv s \<Longrightarrow> \<forall>e\<in>set es. benign e \<Longrightarrow> run_all es s = Inr r \<Longrightarrow>
   valid_all (map padded es) s \<and> run_all (map padded es) s = Inr r"
proof (induction es arbitrary: s)
  case Nil
  then show ?case by (simp add: valid_Nil)
next
  case (Cons e es)
  then obtain v t where h: "handle e s = Inr (v, t)" by (cases "handle e s") (auto simp: run_Cons)
  have p: "valid (padded e) s" "handle (padded e) s = Inr (v, t)" using survives [OF _ _ h] Cons.prems by simp_all
  from safe_InrD [OF handle_safe [OF Cons.prems(1) p(1)] p(2)] have "inv t" by simp
  with Cons.IH [of t] Cons.prems(2,3) h
  have rest: "v = Continue \<Longrightarrow> valid_all (map padded es) t \<and> run_all (map padded es) t = Inr r" by (simp add: run_Cons)
  have "valid_all (map padded (e # es)) s"
    by (rule valid_all_Cons [OF p(1)]) (use Cons.prems(2) p(2) rest in auto)
  moreover have "run_all (map padded (e # es)) s = Inr r"
    using Cons.prems(3) h p(2) rest by (cases v) (auto simp: run_Cons)
  ultimately show ?case ..
qed

end

definition pad_event :: "epoll_event \<times> event_os \<Rightarrow> epoll_event \<times> event_os" where
  "pad_event = apsnd pad"

definition pad_wait :: "int + (epoll_event \<times> event_os) list \<Rightarrow> int + (epoll_event \<times> event_os) list" where
  "pad_wait = map_sum id (map pad_event)"

lemma pad_event_simps [simp]: "fst (pad_event e) = fst e" "snd (pad_event e) = pad (snd e)" "pad_event (x, os) = (x, pad os)"
  by (simp_all add: pad_event_def)

lemma pad_times [simp]: "batch_times (map pad_event es) = batch_times es" "wait_times (pad_wait x) = wait_times x"
  "clock_times (map pad_wait xs) = clock_times xs"
proof -
  show b: "batch_times (map pad_event es) = batch_times es" for es by (simp add: batch_times_def image_image)
  then show w: "wait_times (pad_wait x) = wait_times x" for x by (cases x) (simp_all add: wait_times_def pad_wait_def)
  show "clock_times (map pad_wait xs) = clock_times xs" by (simp add: clock_times_def w)
qed

interpretation batch_survives: surviving_run "\<lambda>e. handle_event ssl (fst e) (snd e)" "handle_events ssl"
  "\<lambda>e s. event_valid e s \<and> time_result (snd e) \<in> T" "\<lambda>es s. events_valid ssl es s \<and> batch_times es \<subseteq> T"
  "\<lambda>s. openssl_ok ssl live \<and> server_inv live K s" "authorised ssl K T"
  "\<lambda>e. kernel_ok (snd e) \<and> time_result (snd e) \<in> T" pad_event for ssl live K T
proof (unfold_locales, goal_cases)
  case (3 s e r)
  then show ?case
    using handle_event_survives [of s "snd e" ssl "fst e" r] handle_event_pad [of ssl "fst e" "snd e" s r]
    by (cases e) (simp add: server_inv_def)
next
  case (2 e s es)
  then have "batch_times es \<subseteq> T" by (auto simp: batch_times_def)
  with 2 show ?case by (cases e) (auto simp: batch_times_def image_image split: sum.splits verdict.splits)
qed (auto simp: batch_times_def)

interpretation looping_survives: surviving_run "handle_wait ssl" "event_loop ssl"
  "\<lambda>x s. wait_valid ssl x s \<and> wait_times x \<subseteq> T" "\<lambda>xs s. waits_valid ssl xs s \<and> clock_times xs \<subseteq> T"
  "\<lambda>s. openssl_ok ssl live \<and> server_inv live K s" "authorised ssl K T"
  "\<lambda>x. kernel_wait_ok x \<and> wait_times x \<subseteq> T" pad_wait for ssl live K T
proof (unfold_locales, goal_cases)
  case (3 s x r)
  then show ?case
  proof (cases x)
    case (Inr evs)
    then have "\<forall>e\<in>set evs. kernel_ok (snd e) \<and> time_result (snd e) \<in> T" "handle_events ssl evs s = Inr r"
      using 3 by (auto simp: kernel_wait_ok_def wait_times_def batch_times_def handle_wait_def)
    with batch_survives.run_survives [of ssl live K s evs T r] 3 Inr show ?thesis
      by (simp add: wait_valid_def wait_times_def handle_wait_def pad_wait_def)
  qed (simp add: wait_valid_def wait_times_def handle_wait_def pad_wait_def)
next
  case (2 x s xs)
  then have "clock_times xs \<subseteq> T" by (auto simp: clock_times_def)
  with 2 show ?case by (auto simp: clock_times_def split: sum.splits verdict.splits)
qed (auto simp: clock_times_def)

lemma event_loop_survives:
  assumes "openssl_ok ssl live" "server_inv live K s" "\<forall>x\<in>set waits. kernel_wait_ok x" "event_loop ssl waits s = Inr r"
  shows "waits_valid ssl (map pad_wait waits) s \<and> event_loop ssl (map pad_wait waits) s = Inr r"
  using looping_survives.run_survives [of ssl live K s waits "clock_times waits" r] assms
  by (auto simp: clock_times_def)

section \<open>The server as a transition system\<close>

text \<open>The states the server goes through while it keeps running, the kernel answering as documented and the
  clock one of the given times.\<close>

inductive reachable :: "'w OpenSSL \<Rightarrow> int set \<Rightarrow> 'w server \<Rightarrow> 'w server \<Rightarrow> bool" for ssl T s0 where
  started: "reachable ssl T s0 s0"
| handled: "reachable ssl T s0 s \<Longrightarrow> kernel_ok os \<Longrightarrow> time_result os \<in> T \<Longrightarrow>
    handle_event ssl event os s = Inr (Continue, s') \<Longrightarrow> reachable ssl T s0 s'"

inductive_cases reachableE: "reachable ssl T s0 s"

lemma survived_event_valid:
  "server_inv live K s \<Longrightarrow> kernel_ok os \<Longrightarrow> handle_event ssl event os s = Inr r \<Longrightarrow>
   event_valid (event, pad os) s \<and> handle_event ssl event (pad os) s = Inr r"
  using handle_event_survives [of s os ssl event r] handle_event_pad [of ssl event os s r] by (simp add: server_inv_def)

lemma reachable_inv:
  assumes "reachable ssl T s0 s" "openssl_ok ssl live" "server_inv live K s0"
  shows "server_inv live K s \<and> extends (authorised ssl K T) s0 s"
  using assms(1)
proof induction
  case started
  then show ?case using assms by simp
next
  case (handled s os event s')
  then have inv: "server_inv live K s" and x: "extends (authorised ssl K T) s0 s" by auto
  note p = survived_event_valid [OF inv handled(2,4)]
  from safe_InrD [OF handle_event_safe [OF assms(2) inv conjunct1 [OF p]] conjunct2 [OF p]] handled(3)
  show ?case by (auto intro: extends_trans [OF x])
qed

end
