(* ===== verification/Startup.thy ===== *)
theory Startup
  imports Survival
begin

text \<open>
  The rest of \<open>src/main.c\<close>: the sockets, the trusted certificates of a file or a directory,
  \<open>main_protected\<close>, \<open>free_all\<close> and \<open>main\<close>.
\<close>

section \<open>Release\<close>

fun free_keys :: "'w OpenSSL \<Rightarrow> PubKey list \<Rightarrow> 'w \<Rightarrow> 'w run" where
  "free_keys ssl [] w = Inr w"
| "free_keys ssl (k # ks) w = check_ok (pub_key_free ssl (Some k) w) (\<lambda>w. free_keys ssl ks w)"

definition conn_release :: "Connection \<Rightarrow> effect list" where
  "conn_release conn =
    (if fd conn > 0 then [CloseFd (fd conn)] else []) @ (if buf conn \<noteq> None then [FreeBuf] else [])"

definition free_all :: "'w OpenSSL \<Rightarrow> 'w server \<Rightarrow> 'w server run" where
  "free_all ssl s =
    (let r = res s;
         s = emit ((if epoll_fd r > 0 then [CloseFd (epoll_fd r)] else []) @
                   (if socket_fd r > 0 then [CloseFd (socket_fd r)] else [])) s
     in
     check_ok
       (case keys r of
          None \<Rightarrow> Inr s
        | Some ks \<Rightarrow>
            if unat (keys_size r) > length ks then Inl (Fault OutOfBounds)
            else check_ok (free_keys ssl (take (unat (keys_size r)) ks) (lib s)) (\<lambda>w.
              Inr (emit [FreeKeys] (s\<lparr>lib := w\<rparr>)))) (\<lambda>s.
     Inr ((emit (concat (map conn_release (conns r))) s)\<lparr>res := zero_resources\<rparr>)))"

section \<open>Sockets\<close>

record socket_os =
  socket_result :: int
  bind_result :: int
  listen_result :: int
  epoll_create_result :: int
  epoll_ctl_result :: int

text \<open>The message ends in a newline, and is that of \<open>listen\<close> too.\<close>

definition bind_message :: string where "bind_message = ''Failed to bind a TCP socket'' @ [CHR 0x0A]"
definition TCP_BACKLOG :: int where "TCP_BACKLOG = 16"
definition DEFAULT_PORT :: uint16 where "DEFAULT_PORT = 56544"

definition open_sockets :: "socket_os \<Rightarrow> 'w server \<Rightarrow> verdict \<times> 'w server" where
  "open_sockets os s =
    (let s = s\<lparr>res := (res s)\<lparr>socket_fd := socket_result os\<rparr>\<rparr> in
     if socket_result os < 0 then (Return (- 1), emit [Perror ''Failed to open a TCP socket''] s)
     else
       let s = emit [Bind DEFAULT_PORT] s in
       if bind_result os < 0 then (Return (- 1), emit [Perror bind_message] s)
       else
         let s = emit [Listen TCP_BACKLOG] s in
         if listen_result os < 0 then (Return (- 1), emit [Perror bind_message] s)
         else
           let s = s\<lparr>res := (res s)\<lparr>epoll_fd := epoll_create_result os\<rparr>\<rparr> in
           if epoll_create_result os < 0 then (Return (- 1), emit [Perror ''Call to epoll_create1 failed''] s)
           else
             let s = emit [Watch (socket_result os) EPOLLIN MAX_INT32] s in
             if epoll_ctl_result os < 0 then (Return (- 1), emit [Perror ''Call to epoll_ctl failed''] s)
             else (Continue, s))"

section \<open>Trusted certificates\<close>

text \<open>\<open>fresh\<close> is what an element of an array from \<open>malloc\<close> or \<open>realloc\<close> holds.\<close>

definition alloc_keys :: "PubKey \<Rightarrow> 'w server \<Rightarrow> 'w server" where
  "alloc_keys fresh s = s\<lparr>res := (res s)\<lparr>keys := Some (replicate 4 fresh), keys_cap := 4\<rparr>\<rparr>"

definition grow_keys :: "PubKey \<Rightarrow> Resources \<Rightarrow> Resources" where
  "grow_keys fresh r =
    (if keys_size r \<ge> keys_cap r then
       let cap = keys_cap r * 2 in
       r\<lparr>keys_cap := cap,
         keys := map_option (\<lambda>ks. take (unat cap) ks @ replicate (unat cap - length ks) fresh) (keys r)\<rparr>
     else r)"

text \<open>\<open>read_cert\<close> into the element at an index of the array.\<close>

definition read_key ::
    "'w OpenSSL \<Rightarrow> cert_file \<Rightarrow> string \<Rightarrow> nat \<Rightarrow> 'w server \<Rightarrow> (bool \<times> 'w server) run" where
  "read_key ssl os path i s =
    (case keys (res s) of
       None \<Rightarrow> Inl (Fault BadPointer)
     | Some ks \<Rightarrow>
         if i \<ge> length ks then Inl (Fault OutOfBounds)
         else
           check_ok (read_cert ssl os path (ks ! i) (lib s)) (\<lambda>(ok, k, w, out).
             let s = emit (map File out) (s\<lparr>lib := w\<rparr>);
                 r = (res s)\<lparr>keys := Some (ks[i := k])\<rparr>
             in
             Inr (ok, s\<lparr>res := if ok then r\<lparr>keys_size := keys_size r + 1\<rparr> else r\<rparr>)))"

text \<open>
  The path of an entry: the buffer grows to \<open>total_size\<close>, and \<open>sprintf\<close> writes the path and its
  final zero, out of bounds if that is more.
\<close>

definition entry_path :: "string \<Rightarrow> string \<Rightarrow> uinta \<Rightarrow> (string \<times> uinta) run" where
  "entry_path path d_name full_file_path_cap =
    (let total_size = of_nat (length path) + 1 + of_nat (length d_name) + 1;
         cap = (if total_size > full_file_path_cap then total_size else full_file_path_cap);
         full = (if last path = CHR 0x2F then path @ d_name else path @ CHR 0x2F # d_name)
     in
     if length full + 1 \<le> unat cap then Inr (full, cap) else Inl (Fault OutOfBounds))"

fun load_entries ::
    "'w OpenSSL \<Rightarrow> PubKey \<Rightarrow> string \<Rightarrow> (string \<times> cert_file) list \<Rightarrow> uinta \<Rightarrow> uinta \<Rightarrow> 'w server \<Rightarrow>
     (uinta \<times> 'w server) run" where
  "load_entries ssl fresh path [] cap attempts s = Inr (attempts, s)"
| "load_entries ssl fresh path ((d_name, os) # entries) cap attempts s =
    (if d_name = ''.'' \<or> d_name = ''..'' then load_entries ssl fresh path entries cap attempts s
     else
       let s = s\<lparr>res := grow_keys fresh (res s)\<rparr> in
       check_ok (entry_path path d_name cap) (\<lambda>(full, cap).
       check_ok (read_key ssl os full (unat (keys_size (res s))) s) (\<lambda>(_, s).
         load_entries ssl fresh path entries cap (attempts + 1) s)))"

text \<open>\<open>dir\<close> is the answer of \<open>opendir\<close> and \<open>readdir\<close>.\<close>

definition load_dir ::
    "'w OpenSSL \<Rightarrow> PubKey \<Rightarrow> string \<Rightarrow> (string \<times> cert_file) list option \<Rightarrow> 'w server \<Rightarrow>
     (verdict \<times> 'w server) run" where
  "load_dir ssl fresh path dir s =
    (case dir of
       None \<Rightarrow> Inr (Return (- 1), emit [Printed ''Could not open certificate directory''] s)
     | Some entries \<Rightarrow>
         check_ok (c_assert (length path > 1)) (\<lambda>_.
         check_ok (load_entries ssl fresh path entries KILOBYTE 0 s) (\<lambda>(attempts, s).
         if keys_size (res s) = 0
         then Inr (Return (- 1), emit [Printed ''Could not find a valid certificate''] s)
         else if attempts \<noteq> keys_size (res s)
         then Inr (Continue, emit [Printed ''proceeding with just the valid certificates''] s)
         else Inr (Continue, s))))"

text \<open>What \<open>stat\<close> says of the path: nothing, a directory, or a file.\<close>

datatype path_os = NoStat | Directory "(string \<times> cert_file) list option" | Single cert_file

definition load_certs ::
    "'w OpenSSL \<Rightarrow> PubKey \<Rightarrow> string \<Rightarrow> path_os \<Rightarrow> 'w server \<Rightarrow> (verdict \<times> 'w server) run" where
  "load_certs ssl fresh path os s =
    (case os of
       NoStat \<Rightarrow> Inr (Return (- 1), emit [Printed ''Unable to retrieve file stats''] s)
     | Directory dir \<Rightarrow> load_dir ssl fresh path dir (alloc_keys fresh s)
     | Single file \<Rightarrow>
         let s = alloc_keys fresh s in
         check_ok (c_assert (keys_cap (res s) > 0)) (\<lambda>_.
         check_ok (read_key ssl file path 0 s) (\<lambda>(ok, s).
           Inr (if ok then Continue else Return (- 1), s))))"

section \<open>The program\<close>

record main_os =
  sockets :: socket_os
  certs :: path_os
  waits :: "(int + (epoll_event \<times> event_os) list) list"

definition main_protected ::
    "'w OpenSSL \<Rightarrow> PubKey \<Rightarrow> string list \<Rightarrow> main_os \<Rightarrow> 'w server \<Rightarrow> (verdict \<times> 'w server) run" where
  "main_protected ssl fresh argv os s =
    (if length argv < 2 then Inr (Return (- 1), emit [Printed ''Missing file or directory of trusted x509 certificates''] s)
     else
       case open_sockets (sockets os) s of (v, s) \<Rightarrow>
       (case v of
          Return c \<Rightarrow> Inr (Return c, s)
        | Continue \<Rightarrow>
            check_ok (load_certs ssl fresh (argv ! 1) (certs os) s) (\<lambda>(v, s).
            case v of
              Return c \<Rightarrow> Inr (Return c, s)
            | Continue \<Rightarrow> event_loop ssl (waits os) s)))"

text \<open>
  \<open>main\<close>: \<open>Continue\<close> is a server still waiting when the given events are over; otherwise
  everything is released.
\<close>

definition main :: "'w OpenSSL \<Rightarrow> PubKey \<Rightarrow> string list \<Rightarrow> main_os \<Rightarrow> 'w \<Rightarrow> (verdict \<times> 'w server) run" where
  "main ssl fresh argv os w =
    check_ok (main_protected ssl fresh argv os \<lparr>res = zero_resources, lib = w, trace = []\<rparr>) (\<lambda>(v, s).
      case v of
        Continue \<Rightarrow> Inr (Continue, s)
      | Return c \<Rightarrow> check_ok (free_all ssl s) (\<lambda>s. Inr (Return c, s)))"

section \<open>Loading\<close>

text \<open>
  While certificates are loaded: the array is allocated, the elements in use hold keys whose
  objects are allocated and that \<open>T\<close> holds of.
\<close>

definition loading_inv :: "(PubKey \<Rightarrow> bool) \<Rightarrow> ('w \<Rightarrow> nat set) \<Rightarrow> 'w server \<Rightarrow> bool" where
  "loading_inv T live s \<longleftrightarrow> conns_inv (res s) \<and>
     (\<exists>ks. keys (res s) = Some ks \<and> length ks = unat (keys_cap (res s)) \<and> 0 < length ks \<and>
        unat (keys_size (res s)) \<le> length ks \<and> keys_held live (lib s) (take (unat (keys_size (res s))) ks) \<and>
        (\<forall>k\<in>set (take (unat (keys_size (res s))) ks). T k))"

definition loaded_keys :: "'w server \<Rightarrow> PubKey set" where
  "loaded_keys s = (case keys (res s) of None \<Rightarrow> {} | Some ks \<Rightarrow> set (take (unat (keys_size (res s))) ks))"

lemma loading_server_inv:
  assumes "loading_inv T live s"
  shows "keys_size (res s) \<noteq> 0 \<Longrightarrow> server_inv live (loaded_keys s) s" "k \<in> loaded_keys s \<Longrightarrow> T k"
  using assms
  by (auto simp: loading_inv_def server_inv_def keys_inv_def loaded_keys_def word_unat_eq_iff
      intro!: exI [of _ "unat (keys_size (res s))"])

lemma keys_held_mono: "keys_held live w ks \<Longrightarrow> live w \<subseteq> live w' \<Longrightarrow> keys_held live w' ks"
  by (fastforce simp: keys_held_def key_ok_def owns_def)

lemma key_objs_live: "key_ok live w k \<Longrightarrow> key_objs k \<subseteq> live w"
  by (auto simp: key_ok_def owns_def key_objs_def)

lemma distinct_key_addrs: "key_ok live w k \<Longrightarrow> distinct (key_addrs k)"
  by (auto simp: key_ok_def owns_def key_addrs_def ptr_addr_def)

lemma keys_held_snoc:
  assumes "keys_held live w ks" "key_ok live w' k" "key_objs k \<inter> live w = {}" "live w \<subseteq> live w'"
  shows "keys_held live w' (ks @ [k])"
proof -
  have "set (concat (map key_addrs ks)) \<subseteq> live w"
    using assms(1) key_objs_live by (fastforce simp: keys_held_def set_key_addrs)
  then have "set (concat (map key_addrs ks)) \<inter> set (key_addrs k) = {}"
    using assms(3) by (auto simp: set_key_addrs)
  with keys_held_mono [OF assms(1,4)] assms(2) distinct_key_addrs [OF assms(2)] show ?thesis
    by (auto simp: keys_held_def)
qed

text \<open>Every key that a file gives satisfies \<open>T\<close>.\<close>

definition gives :: "'w OpenSSL \<Rightarrow> ('w \<Rightarrow> nat set) \<Rightarrow> (PubKey \<Rightarrow> bool) \<Rightarrow> cert_file \<Rightarrow> bool" where
  "gives ssl live T os \<longleftrightarrow>
     (\<forall>raw w k w'. cert_file_ok os \<longrightarrow> map_result os = Inr raw \<longrightarrow>
        accepted_by ssl live raw (of_int (file_size os)) (clock_now os) w k w' \<longrightarrow> T k)"

text \<open>The state behind \<open>read_key\<close>: one key more, or the same keys.\<close>

lemma read_key_safe:
  assumes ok: "openssl_ok ssl live" and inv: "loading_inv T live s" and os: "cert_file_ok os" "gives ssl live T os"
    and lt: "unat (keys_size (res s)) < unat (keys_cap (res s))"
    and slot: "\<And>ks. keys (res s) = Some ks \<Longrightarrow> slot_reads os (ks ! unat (keys_size (res s)))"
  shows "rsafe (read_key ssl os path (unat (keys_size (res s))) s) (\<lambda>(ok, s'). loading_inv T live s' \<and>
     extends quiet s s' \<and> keys_cap (res s') = keys_cap (res s) \<and>
     keys_size (res s') = (if ok then keys_size (res s) + 1 else keys_size (res s)))"
proof -
  let ?n = "unat (keys_size (res s))"
  from inv obtain ks where c: "conns_inv (res s)" and ks: "keys (res s) = Some ks"
    "length ks = unat (keys_cap (res s))" "keys_held live (lib s) (take ?n ks)"
    "\<forall>k\<in>set (take ?n ks). T k"
    by (auto simp: loading_inv_def)
  have n: "?n < length ks" using lt ks by simp
  have un: "unat (keys_size (res s) + 1) = ?n + 1"
    using lt by (intro unat_add1 [where e = "keys_cap (res s)"]) (simp add: word_less_nat_alt)
  have "rsafe (check_ok (read_cert ssl os path (ks ! ?n) (lib s)) (\<lambda>(ok, k, w, out).
      let t = emit (map File out) (s\<lparr>lib := w\<rparr>);
          r = (res t)\<lparr>keys := Some (ks[?n := k])\<rparr>
      in Inr (ok, t\<lparr>res := if ok then r\<lparr>keys_size := keys_size r + 1\<rparr> else r\<rparr>)))
    (\<lambda>(ok, s'). loading_inv T live s' \<and>
     extends quiet s s' \<and> keys_cap (res s') = keys_cap (res s) \<and>
     keys_size (res s') = (if ok then keys_size (res s) + 1 else keys_size (res s)))"
  proof (rule safe_check_ok [OF read_cert_safe [OF ok os(1) slot [OF ks(1)]]], goal_cases)
    case (1 a)
    obtain b k w out where a: "a = (b, k, w, out)" by (cases a)
    have post: "read_post ssl live os (lib s) (b, k, w, out)" using 1 a by simp
    show ?case
    proof (cases b)
      case True
      with post have "key_ok live w k" "key_objs k \<inter> live (lib s) = {}" "live w = live (lib s) \<union> key_objs k"
        by (auto simp: read_post_def accepted_by_def self_sign_post_def)
      moreover have "T k" using post True os by (auto simp: read_post_def gives_def)
      ultimately have "keys_held live w (take ?n ks @ [k])" "\<forall>k\<in>set (take ?n ks @ [k]). T k"
        using ks(4) by (auto intro: keys_held_snoc [OF ks(3)])
      moreover have "take (?n + 1) (ks[?n := k]) = take ?n ks @ [k]"
        using n by (simp add: take_Suc_conv_app_nth)
      ultimately show ?thesis
        using True c ks n un by (auto simp: a loading_inv_def extends_def emit_def conns_inv_def Let_def)
    next
      case False
      with post have "live (lib s) \<subseteq> live w" by (auto simp: read_post_def leak_at_most_one_def)
      then have "keys_held live w (take ?n ks)" by (rule keys_held_mono [OF ks(3)])
      with False c ks n show ?thesis
        by (auto simp: a loading_inv_def extends_def emit_def conns_inv_def Let_def)
    qed
  qed
  with ks n show ?thesis by (simp add: read_key_def not_le Let_def cong: if_cong)
qed

lemma grow_keys_inv:
  assumes inv: "loading_inv T live s" and b: "unat (keys_cap (res s)) \<le> 2 ^ 33" "unat (keys_size (res s)) \<le> 2 ^ 32"
  shows "loading_inv T live (s\<lparr>res := grow_keys fresh (res s)\<rparr>)"
    "keys_size (grow_keys fresh (res s)) = keys_size (res s)"
    "unat (keys_size (res s)) < unat (keys_cap (grow_keys fresh (res s)))"
    "unat (keys_cap (grow_keys fresh (res s))) \<le> 2 ^ 33"
proof -
  from inv obtain ks where ks: "conns_inv (res s)" "keys (res s) = Some ks" "length ks = unat (keys_cap (res s))"
    "0 < length ks" "unat (keys_size (res s)) \<le> length ks"
    "keys_held live (lib s) (take (unat (keys_size (res s))) ks)"
    "\<forall>k\<in>set (take (unat (keys_size (res s))) ks). T k"
    unfolding loading_inv_def by blast
  show "keys_size (grow_keys fresh (res s)) = keys_size (res s)" by (simp add: grow_keys_def Let_def)
  have u: "unat (keys_cap (res s) * 2) = unat (keys_cap (res s)) * 2"
    using b(1) by (simp add: unat_word_ariths(2))
  show lt: "unat (keys_size (res s)) < unat (keys_cap (grow_keys fresh (res s)))"
    "unat (keys_cap (grow_keys fresh (res s))) \<le> 2 ^ 33"
    using ks b u by (auto simp: grow_keys_def Let_def word_le_nat_alt)
  show "loading_inv T live (s\<lparr>res := grow_keys fresh (res s)\<rparr>)"
    using ks lt u by (auto simp: loading_inv_def grow_keys_def Let_def conns_inv_def)
qed

lemma entry_path_safe:
  assumes "length path < 2 ^ 32" "length d_name < 2 ^ 32"
  shows "rsafe (entry_path path d_name cap) (\<lambda>(full, cap').
    full = (if last path = CHR 0x2F then path @ d_name else path @ CHR 0x2F # d_name))"
proof -
  let ?t = "of_nat (length path) + 1 + of_nat (length d_name) + 1 :: uinta"
  have "?t = of_nat (length path + 1 + length d_name + 1)" by simp
  moreover have "length path + 1 + length d_name + 1 < 2 ^ 64" using assms by simp
  ultimately have "unat ?t = length path + 1 + length d_name + 1"
    by (simp only: unat_of_nat_small)
  then show ?thesis by (auto simp: entry_path_def Let_def word_less_nat_alt)
qed

definition entry_ok :: "string \<times> cert_file \<Rightarrow> bool" where
  "entry_ok = (\<lambda>(d_name, os). length d_name < 2 ^ 32 \<and> cert_file_ok os)"

text \<open>
  An RSA key is made in place of the pointer that the element of the array holds. That element is in memory
  from \<open>malloc\<close>, or an earlier certificate of the directory has been rejected after its key was made in it. The
  following says, along the loading of the certificates, that no RSA certificate is read into an element whose
  pointer is not null: of such a call of \<open>EVP_PKEY_fromdata\<close> nothing is known.
\<close>

definition slot_null :: "cert_file \<Rightarrow> 'w server \<Rightarrow> bool" where
  "slot_null os s =
    (case keys (res s) of None \<Rightarrow> True | Some ks \<Rightarrow> slot_reads os (ks ! unat (keys_size (res s))))"

fun entries_null ::
    "'w OpenSSL \<Rightarrow> PubKey \<Rightarrow> string \<Rightarrow> (string \<times> cert_file) list \<Rightarrow> uinta \<Rightarrow> 'w server \<Rightarrow> bool" where
  "entries_null ssl fresh path [] cap s = True"
| "entries_null ssl fresh path ((d_name, os) # entries) cap s =
    (if d_name = ''.'' \<or> d_name = ''..'' then entries_null ssl fresh path entries cap s
     else
       let s = s\<lparr>res := grow_keys fresh (res s)\<rparr> in
       slot_null os s \<and>
       (case entry_path path d_name cap of
          Inl _ \<Rightarrow> True
        | Inr (full, cap) \<Rightarrow>
            (case read_key ssl os full (unat (keys_size (res s))) s of
               Inl _ \<Rightarrow> True | Inr (_, s) \<Rightarrow> entries_null ssl fresh path entries cap s)))"

definition null_slots :: "'w OpenSSL \<Rightarrow> PubKey \<Rightarrow> string \<Rightarrow> path_os \<Rightarrow> 'w server \<Rightarrow> bool" where
  "null_slots ssl fresh path os s =
    (case os of
       NoStat \<Rightarrow> True
     | Directory None \<Rightarrow> True
     | Directory (Some entries) \<Rightarrow> entries_null ssl fresh path entries KILOBYTE (alloc_keys fresh s)
     | Single crt \<Rightarrow> slot_null crt (alloc_keys fresh s))"

text \<open>So it is if no certificate has an RSA key, and for a single one if the memory from \<open>malloc\<close> is zero.\<close>

lemma entries_null_other:
  "\<forall>e\<in>set entries. \<forall>k. slot_reads (snd e) k \<Longrightarrow> entries_null ssl fresh path entries cap s"
  by (induction entries arbitrary: cap s)
    (auto simp: Let_def slot_null_def split: option.splits sum.splits prod.splits)

lemma null_slots_single: "pkey fresh = Null \<Longrightarrow> keys_size (res s) = 0 \<Longrightarrow> null_slots ssl fresh path (Single crt) s"
  by (simp add: null_slots_def slot_null_def alloc_keys_def slot_reads_null)

lemma load_entries_safe:
  assumes ok: "openssl_ok ssl live" and p: "length path < 2 ^ 32"
  shows "loading_inv T live s \<Longrightarrow> unat (keys_cap (res s)) \<le> 2 ^ 33 \<Longrightarrow>
    unat (keys_size (res s)) + length entries \<le> 2 ^ 32 \<Longrightarrow> \<forall>e\<in>set entries. entry_ok e \<Longrightarrow> \<forall>e\<in>set entries. gives ssl live T (snd e) \<Longrightarrow>
    entries_null ssl fresh path entries cap s \<Longrightarrow>
    rsafe (load_entries ssl fresh path entries cap attempts s)
      (\<lambda>(n, s'). loading_inv T live s' \<and> extends quiet s s')"
proof (induction entries arbitrary: cap attempts s)
  case (Cons e entries)
  obtain d os where e: "e = (d, os)" by (cases e)
  have entry: "length d < 2 ^ 32" "cert_file_ok os" "gives ssl live T os"
    using Cons.prems(4,5) by (auto simp: e entry_ok_def)
  show ?case
  proof (cases "d = ''.'' \<or> d = ''..''")
    case True
    then show ?thesis using Cons.IH [OF Cons.prems(1,2)] Cons.prems(3-6) by (auto simp: e)
  next
    case False
    let ?s = "s\<lparr>res := grow_keys fresh (res s)\<rparr>"
    have sz: "unat (keys_size (res s)) \<le> 2 ^ 32" using Cons.prems(3) by simp
    note g = grow_keys_inv [OF Cons.prems(1,2) sz, of fresh]
    have lt: "unat (keys_size (res ?s)) < unat (keys_cap (res ?s))" using g(2,3) by simp
    have null: "slot_null os ?s" "entry_path path d cap = Inr (full, cap') \<Longrightarrow>
        read_key ssl os full (unat (keys_size (res ?s))) ?s = Inr (b, t) \<Longrightarrow> entries_null ssl fresh path entries cap' t" for full cap' b t
      using Cons.prems(6) False by (auto simp: e Let_def)
    have slot: "\<And>ks. keys (res ?s) = Some ks \<Longrightarrow> slot_reads os (ks ! unat (keys_size (res ?s)))"
      using null(1) by (simp add: slot_null_def)
    have "rsafe (check_ok (entry_path path d cap) (\<lambda>(full, cap).
        check_ok (read_key ssl os full (unat (keys_size (res ?s))) ?s) (\<lambda>(_, s).
          load_entries ssl fresh path entries cap (attempts + 1) s)))
      (\<lambda>(n, s'). loading_inv T live s' \<and> extends quiet s s')"
    proof (rule safe_seq2 [OF entry_path_safe [OF p entry(1)]],
        rule safe_seq2 [OF read_key_safe [OF ok g(1) entry(2,3) lt slot]], assumption, goal_cases)
      case (1 full cap' b t)
      then have t: "loading_inv T live t" "extends quiet ?s t" "keys_cap (res t) = keys_cap (res ?s)"
        "keys_size (res t) = (if b then keys_size (res s) + 1 else keys_size (res s))"
        using g(2) by auto
      have "unat (keys_size (res s) + 1) = unat (keys_size (res s)) + 1"
        using sz by (simp add: unat_word_ariths(1))
      then have "unat (keys_size (res t)) + length entries \<le> 2 ^ 32" using Cons.prems(3) t(4) by auto
      moreover have "unat (keys_cap (res t)) \<le> 2 ^ 33" using t(3) g(4) by simp
      ultimately have "rsafe (load_entries ssl fresh path entries cap' (attempts + 1) t)
          (\<lambda>(n, s'). loading_inv T live s' \<and> extends quiet t s')"
        using Cons.IH [OF t(1)] Cons.prems(4,5) null(2) [OF 1(1,3)] by simp
      moreover have "extends quiet s t" using t(2) by (simp add: extends_def)
      ultimately show ?case by (auto elim!: safe_mono intro: extends_trans)
    qed
    with False show ?thesis by (simp add: e)
  qed
qed simp


text \<open>
  What \<open>stat\<close> and \<open>readdir\<close> may answer: files as \<open>mmap\<close> promises, and neither \<open>2 ^ 32\<close> entries nor a path of
  that length.
\<close>

definition certs_ok :: "string \<Rightarrow> path_os \<Rightarrow> bool" where
  "certs_ok path os \<longleftrightarrow>
     (case os of
        NoStat \<Rightarrow> True
      | Directory None \<Rightarrow> True
      | Directory (Some entries) \<Rightarrow> length path < 2 ^ 32 \<and> length entries \<le> 2 ^ 32 \<and>
          (\<forall>e\<in>set entries. entry_ok e)
      | Single crt \<Rightarrow> cert_file_ok crt)"

text \<open>The assertion on the path of a directory, which may not have one character only.\<close>

definition path_ok :: "string \<Rightarrow> path_os \<Rightarrow> bool" where
  "path_ok path os = (case os of Directory (Some entries) \<Rightarrow> 1 < length path | _ \<Rightarrow> True)"

definition certs_valid :: "'w OpenSSL \<Rightarrow> PubKey \<Rightarrow> string \<Rightarrow> path_os \<Rightarrow> 'w server \<Rightarrow> bool" where
  "certs_valid ssl fresh path os s \<longleftrightarrow> certs_ok path os \<and> path_ok path os \<and> null_slots ssl fresh path os s"

definition cert_files :: "path_os \<Rightarrow> cert_file set" where
  "cert_files os =
     (case os of NoStat \<Rightarrow> {} | Directory None \<Rightarrow> {} | Directory (Some entries) \<Rightarrow> snd ` set entries
      | Single crt \<Rightarrow> {crt})"

definition no_keys :: "'w server \<Rightarrow> bool" where
  "no_keys s \<longleftrightarrow> conns_inv (res s) \<and> keys (res s) = None \<and> keys_size (res s) = 0"

lemma alloc_keys_inv: "no_keys s \<Longrightarrow> loading_inv T live (alloc_keys fresh s)"
  by (auto simp: no_keys_def loading_inv_def alloc_keys_def keys_held_def conns_inv_def)

text \<open>
  After the certificates are loaded the server runs on at least one key, or the program returns.
\<close>

definition loaded :: "(PubKey \<Rightarrow> bool) \<Rightarrow> ('w \<Rightarrow> nat set) \<Rightarrow> verdict \<times> 'w server \<Rightarrow> bool" where
  "loaded T live = (\<lambda>(v, s).
     case v of Continue \<Rightarrow> server_inv live (loaded_keys s) s \<and> (\<forall>k\<in>loaded_keys s. T k) | Return c \<Rightarrow> no_keys s \<or> loading_inv T live s)"

lemma loaded_keys_emit [simp]: "loaded_keys (emit es s) = loaded_keys s"
  by (simp add: loaded_keys_def cong: option.case_cong)

lemma loading_emit [simp]:
  "loading_inv T live (emit es s) = loading_inv T live s"
  "no_keys (emit es s) = no_keys s" "loaded T live (v, emit es s) = loaded T live (v, s)"
  by (simp_all add: loading_inv_def no_keys_def loaded_def split: verdict.split)

lemma extends_emit: "extends P s t \<Longrightarrow> \<forall>e\<in>set es. P e \<Longrightarrow> extends P s (emit es t)"
  by (auto simp: extends_def)

text \<open>The program aborts on a directory whose path has one character, such as \<open>.\<close> or \<open>/\<close>.\<close>

lemma directory_with_short_name_aborts:
  "length path \<le> 1 \<Longrightarrow> load_certs ssl fresh path (Directory (Some entries)) s = Inl (Fault AssertFailed)"
  by (simp add: load_certs_def load_dir_def c_assert_def)

lemma load_dir_safe:
  assumes ok: "openssl_ok ssl live" and s: "no_keys s"
    and p: "case dir of None \<Rightarrow> True | Some entries \<Rightarrow>
      1 < length path \<and> length path < 2 ^ 32 \<and> length entries \<le> 2 ^ 32 \<and> (\<forall>e\<in>set entries. entry_ok e) \<and>
      entries_null ssl fresh path entries KILOBYTE (alloc_keys fresh s)"
    and g: "\<And>os. os \<in> cert_files (Directory dir) \<Longrightarrow> gives ssl live T os"
  shows "rsafe (load_dir ssl fresh path dir (alloc_keys fresh s)) (\<lambda>(v, s'). loaded T live (v, s') \<and> extends quiet s s')"
proof (cases dir)
  case None
  have "extends quiet s (alloc_keys fresh s)" by (simp add: extends_def alloc_keys_def)
  with None alloc_keys_inv [OF s, of T live fresh] show ?thesis
    by (simp add: load_dir_def loaded_def extends_emit)
next
  case (Some entries)
  with p have p': "1 < length path" "length path < 2 ^ 32" "length entries \<le> 2 ^ 32" "\<forall>e\<in>set entries. entry_ok e"
    "entries_null ssl fresh path entries KILOBYTE (alloc_keys fresh s)"
    by auto
  have "rsafe (load_entries ssl fresh path entries KILOBYTE 0 (alloc_keys fresh s))
      (\<lambda>(n, s'). loading_inv T live s' \<and> extends quiet (alloc_keys fresh s) s')"
    by (rule load_entries_safe [OF ok p'(2) alloc_keys_inv [OF s]])
      (use s p' g Some in \<open>auto simp: alloc_keys_def no_keys_def cert_files_def\<close>)
  moreover have "extends quiet s t" if "extends quiet (alloc_keys fresh s) t" for t
    using that by (simp add: extends_def alloc_keys_def)
  ultimately show ?thesis
    unfolding load_dir_def Some option.case
    by (intro safe_check_ok [OF safe_assert [OF p'(1)]], elim safe_check_ok)
      (auto simp: loaded_def extends_emit intro: loading_server_inv)
qed

lemma load_certs_safe:
  assumes ok: "openssl_ok ssl live" and s: "no_keys s" and p: "certs_valid ssl fresh path os s"
    and g: "\<And>os'. os' \<in> cert_files os \<Longrightarrow> gives ssl live T os'"
  shows "rsafe (load_certs ssl fresh path os s) (\<lambda>(v, s'). loaded T live (v, s') \<and> extends quiet s s')"
proof (cases os)
  case NoStat
  then show ?thesis using s by (simp add: load_certs_def loaded_def extends_emit)
next
  case (Directory dir)
  have "rsafe (load_dir ssl fresh path dir (alloc_keys fresh s)) (\<lambda>(v, s'). loaded T live (v, s') \<and> extends quiet s s')"
    by (rule load_dir_safe [OF ok s]) (use p g Directory in \<open>simp_all add: certs_valid_def certs_ok_def path_ok_def null_slots_def split: option.splits\<close>)
  then show ?thesis by (simp add: load_certs_def Directory)
next
  case (Single crt)
  let ?t = "alloc_keys fresh s"
  have sz: "keys_size (res ?t) = 0" "unat (keys_cap (res ?t)) = 4" "keys (res ?t) = Some (replicate 4 fresh)"
    using s by (simp_all add: alloc_keys_def no_keys_def)
  have "rsafe (read_key ssl crt path (unat (keys_size (res ?t))) ?t) (\<lambda>(ok, s'). loading_inv T live s' \<and>
     extends quiet ?t s' \<and> keys_cap (res s') = keys_cap (res ?t) \<and>
     keys_size (res s') = (if ok then keys_size (res ?t) + 1 else keys_size (res ?t)))"
    by (rule read_key_safe [OF ok alloc_keys_inv [OF s]]) (use p g sz Single in \<open>auto simp: certs_valid_def certs_ok_def null_slots_def slot_null_def cert_files_def\<close>)
  moreover have "extends quiet s t" if "extends quiet ?t t" for t
    using that by (simp add: extends_def alloc_keys_def)
  moreover have "keys_cap (res ?t) > 0" by (simp add: alloc_keys_def)
  moreover have "server_inv live (loaded_keys t) t \<and> (\<forall>k\<in>loaded_keys t. T k)"
    if "loading_inv T live t" "keys_size (res t) = 1" for t
    using loading_server_inv [OF that(1)] that(2) by simp
  ultimately show ?thesis
    unfolding load_certs_def Single path_os.case Let_def
    by (intro safe_check_ok [OF safe_assert]) (auto simp: loaded_def sz elim!: safe_check_ok)
qed

section \<open>Release\<close>

lemma free_keys_safe:
  assumes ok: "openssl_ok ssl live"
  shows "keys_held live w ks \<Longrightarrow>
    rsafe (free_keys ssl ks w) (\<lambda>w'. live w' = live w - (\<Union>k\<in>set ks. key_objs k))"
proof (induction ks arbitrary: w)
  case (Cons k ks)
  then have k: "key_ok live w k" "alg_idx k < 3" "owns live w k"
    and d: "key_objs k \<inter> (\<Union>k\<in>set ks. key_objs k) = {}"
    and rest: "keys_held live w ks"
    by (auto simp: keys_held_def key_ok_def set_key_addrs)
  show ?case
    unfolding free_keys.simps pub_key_free_openssl [OF k(2)]
  proof (rule safe_check_ok [OF openssl_free_safe [OF ok k(3)]], goal_cases)
    case (1 w1)
    have "key_ok live w1 x" if x: "x \<in> set ks" for x
    proof -
      have "key_ok live w x" "key_objs x \<subseteq> live w1"
        using rest x d 1 key_objs_live [of live w x] by (auto simp: keys_held_def)
      then show ?thesis by (auto simp: key_ok_def owns_def key_objs_def)
    qed
    then have "keys_held live w1 ks" using rest by (simp add: keys_held_def)
    from Cons.IH [OF this] show ?case by (rule safe_mono) (use 1 in auto)
  qed
qed simp

text \<open>The keys in use, and what \<open>free_all\<close> closes and frees, in its order.\<close>

definition keys_ready :: "('w \<Rightarrow> nat set) \<Rightarrow> 'w server \<Rightarrow> bool" where
  "keys_ready live s \<longleftrightarrow>
     (case keys (res s) of None \<Rightarrow> True
      | Some ks \<Rightarrow> unat (keys_size (res s)) \<le> length ks \<and>
          keys_held live (lib s) (take (unat (keys_size (res s))) ks))"

definition released :: "Resources \<Rightarrow> effect list" where
  "released r =
     (if epoll_fd r > 0 then [CloseFd (epoll_fd r)] else []) @
     (if socket_fd r > 0 then [CloseFd (socket_fd r)] else []) @
     (if keys r \<noteq> None then [FreeKeys] else []) @ concat (map conn_release (conns r))"

lemma free_all_safe:
  assumes ok: "openssl_ok ssl live" and k: "keys_ready live s"
  shows "rsafe (free_all ssl s) (\<lambda>s'. res s' = zero_resources \<and> trace s' = trace s @ released (res s) \<and>
    live (lib s') = live (lib s) - (\<Union>k\<in>loaded_keys s. key_objs k))"
proof (cases "keys (res s)")
  case None
  then show ?thesis by (simp add: free_all_def released_def loaded_keys_def Let_def emit_def)
next
  case (Some ks)
  with k have n: "\<not> unat (keys_size (res s)) > length ks"
    and held: "keys_held live (lib s) (take (unat (keys_size (res s))) ks)" by (auto simp: keys_ready_def)
  have lk: "loaded_keys s = set (take (unat (keys_size (res s))) ks)" using Some by (simp add: loaded_keys_def)
  show ?thesis
    unfolding free_all_def Let_def Some option.case if_not_P [OF n] check_ok_assoc
      server_simps
    by (rule safe_check_ok [OF free_keys_safe [OF ok held]])
      (simp add: released_def Some lk emit_def)
qed

lemma keys_held_take:
  assumes "keys_held live w (take N ks)" "n \<le> N"
  shows "keys_held live w (take n ks)"
proof -
  have t: "take n ks = take n (take N ks)" using assms(2) by simp
  have "take N ks = take n (take N ks) @ drop n (take N ks)"
    by (simp only: append_take_drop_id)
  then have "keys_held live w (take n (take N ks) @ drop n (take N ks))" using assms(1) by simp
  then show ?thesis unfolding t by (auto simp: keys_held_def)
qed

lemma keys_ready_cases:
  "server_inv live K s \<Longrightarrow> keys_ready live s" "loading_inv T live s \<Longrightarrow> keys_ready live s"
  "no_keys s \<Longrightarrow> keys_ready live s"
  by (auto simp: server_inv_def keys_inv_def keys_ready_def loading_inv_def no_keys_def
      intro: keys_held_take)

section \<open>The program\<close>

lemma zero_no_keys: "no_keys \<lparr>res = zero_resources, lib = w, trace = t\<rparr>"
  by (simp add: no_keys_def conns_inv_def zero_resources_def conn_inv_def zero_conn_def open_conns_def
      MAX_INT64_def filter_replicate)

lemma open_sockets_no_keys:
  assumes "no_keys s" "open_sockets os s = (v, s')"
  shows "no_keys s' \<and> extends quiet s s' \<and> lib s' = lib s"
  using assms by (auto simp: open_sockets_def Let_def no_keys_def conns_inv_def extends_def emit_def split: if_splits)

text \<open>
  The environments the program survives: certificates as \<open>certs_valid\<close> demands and, from the state
  they leave, events as \<open>waits_valid\<close> demands.
\<close>

definition main_valid :: "'w OpenSSL \<Rightarrow> PubKey \<Rightarrow> string list \<Rightarrow> main_os \<Rightarrow> 'w \<Rightarrow> bool" where
  "main_valid ssl fresh argv os w \<longleftrightarrow>
     (length argv < 2 \<or>
      (case open_sockets (sockets os) \<lparr>res = zero_resources, lib = w, trace = []\<rparr> of
         (Return c, s) \<Rightarrow> True
       | (Continue, s) \<Rightarrow>
           certs_valid ssl fresh (argv ! 1) (certs os) s \<and>
           (case load_certs ssl fresh (argv ! 1) (certs os) s of
              Inr (Continue, s') \<Rightarrow> waits_valid ssl (waits os) s' | _ \<Rightarrow> True)))"

text \<open>
  The environments in which the operating system answers as it is documented to, whatever happens to the
  program there: such a run may abort or block, and one that returns is valid, once padded, if it makes RSA keys
  in place of null pointers only.
\<close>

definition documented_os :: "string list \<Rightarrow> main_os \<Rightarrow> bool" where
  "documented_os argv os \<longleftrightarrow>
     (2 \<le> length argv \<longrightarrow> certs_ok (argv ! 1) (certs os)) \<and> (\<forall>wait\<in>set (waits os). kernel_wait_ok wait)"

definition keys_into_null :: "'w OpenSSL \<Rightarrow> PubKey \<Rightarrow> string list \<Rightarrow> main_os \<Rightarrow> 'w \<Rightarrow> bool" where
  "keys_into_null ssl fresh argv os w \<longleftrightarrow>
     (2 \<le> length argv \<longrightarrow>
      (case open_sockets (sockets os) \<lparr>res = zero_resources, lib = w, trace = []\<rparr> of
         (Return c, s) \<Rightarrow> True
       | (Continue, s) \<Rightarrow> null_slots ssl fresh (argv ! 1) (certs os) s))"

definition pad_main :: "main_os \<Rightarrow> main_os" where
  "pad_main os = os\<lparr>waits := map pad_wait (waits os)\<rparr>"

lemma pad_main_simps [simp]: "certs (pad_main os) = certs os" "sockets (pad_main os) = sockets os"
  "waits (pad_main os) = map pad_wait (waits os)"
  by (simp_all add: pad_main_def)

text \<open>A directory that is loaded has a path of more than one character.\<close>

lemma load_certs_path_ok: "load_certs ssl fresh path os s = Inr r \<Longrightarrow> path_ok path os"
  by (auto simp: load_certs_def load_dir_def path_ok_def c_assert_def split: path_os.splits option.splits if_splits)

lemma main_survives:
  assumes ok: "openssl_ok ssl live" and os: "documented_os argv os" and null: "keys_into_null ssl fresh argv os w"
    and run: "main ssl fresh argv os w = Inr r"
  shows "main_valid ssl fresh argv (pad_main os) w \<and> main ssl fresh argv (pad_main os) w = Inr r"
proof -
  let ?s = "\<lparr>res = zero_resources, lib = w, trace = []\<rparr>"
  obtain v s1 where o: "open_sockets (sockets os) ?s = (v, s1)" by fastforce
  note s1 = open_sockets_no_keys [OF zero_no_keys o]
  show ?thesis
  proof (cases "2 \<le> length argv \<and> v = Continue")
    case False
    with run o show ?thesis by (auto simp: main_valid_def main_def main_protected_def split: verdict.splits)
  next
    case True
    with run o obtain v2 s2 where l: "load_certs ssl fresh (argv ! 1) (certs os) s1 = Inr (v2, s2)"
      by (cases "load_certs ssl fresh (argv ! 1) (certs os) s1") (auto simp: main_def main_protected_def)
    have c: "certs_valid ssl fresh (argv ! 1) (certs os) s1"
      using os null True o load_certs_path_ok [OF l]
      by (simp add: documented_os_def keys_into_null_def certs_valid_def)
    show ?thesis
    proof (cases v2)
      case (Return c')
      with run o l c True show ?thesis by (auto simp: main_valid_def main_def main_protected_def)
    next
      case Continue
      have "gives ssl live (\<lambda>_. True) os'" for os' by (simp add: gives_def)
      from safe_InrD [OF load_certs_safe [OF ok conjunct1 [OF s1] c this] l] Continue
      have inv: "server_inv live (loaded_keys s2) s2" by (simp add: loaded_def)
      from run l True Continue o obtain r' where r': "event_loop ssl (waits os) s2 = Inr r'"
        by (cases "event_loop ssl (waits os) s2") (auto simp: main_def main_protected_def)
      from event_loop_survives [OF ok inv _ r'] os
      have "waits_valid ssl (map pad_wait (waits os)) s2" "event_loop ssl (map pad_wait (waits os)) s2 = Inr r'"
        by (auto simp: documented_os_def)
      with run o l c True Continue r' show ?thesis
        by (auto simp: main_valid_def main_def main_protected_def)
    qed
  qed
qed

text \<open>
  A key that a file gives: its certificate parses, passes the checks of \<open>self_sign_ok\<close> at the time
  of reading, the key is what \<open>extract_self_sign_for_code_sign\<close> made of the certificate, and OpenSSL
  has verified the certificate's signature with it.
\<close>

definition trusted :: "'w OpenSSL \<Rightarrow> cert_file \<Rightarrow> PubKey \<Rightarrow> bool" where
  "trusted ssl os k \<longleftrightarrow>
     cert_file_ok os \<and> (\<exists>raw f k0 w w'. map_result os = Inr raw \<and> parse_x509 raw (of_int (file_size os)) zero_fields = Inr f \<and>
        extract_self_sign_for_code_sign ssl raw f (clock_now os) k0 w = Inr (CERT_OK, k, w') \<and>
        self_sign_ok raw f (clock_now os) \<and> signed_by ssl raw f k \<and> expiry k = not_after f)"

lemma trusted_given: "gives ssl live (trusted ssl os) os"
  unfolding gives_def trusted_def accepted_by_def self_sign_post_def by fastforce

lemma gives_mono: "gives ssl live T os \<Longrightarrow> (\<And>k. T k \<Longrightarrow> T' k) \<Longrightarrow> gives ssl live T' os"
  by (auto simp: gives_def)

definition main_post ::
    "'w OpenSSL \<Rightarrow> ('w \<Rightarrow> nat set) \<Rightarrow> cert_file set \<Rightarrow> int set \<Rightarrow> 'w server \<Rightarrow> verdict \<times> 'w server \<Rightarrow> bool" where
  "main_post ssl live F T s = (\<lambda>(v, s').
     keys_ready live s' \<and>
     (\<exists>K. (\<forall>k\<in>K. \<exists>os\<in>F. trusted ssl os k) \<and> extends (authorised ssl K T) s s'))"

lemma main_protected_safe:
  assumes ok: "openssl_ok ssl live" and v: "main_valid ssl fresh argv os w"
  defines "s \<equiv> \<lparr>res = zero_resources, lib = w, trace = []\<rparr>"
  shows "rsafe (main_protected ssl fresh argv os s) (main_post ssl live (cert_files (certs os)) (clock_times (waits os)) s)"
proof -
  let ?T = "\<lambda>k. \<exists>os'\<in>cert_files (certs os). trusted ssl os' k"
  have quiet_post: "main_post ssl live F T s (v, t)" if "keys_ready live t" "extends quiet s t" for v t F T
    using that unfolding main_post_def
    by (auto intro!: exI [of _ "{}"] intro: extends_mono quiet_authorised)
  have nk: "no_keys s" unfolding s_def by (rule zero_no_keys)
  show ?thesis
  proof (cases "length argv < 2")
    case True
    have "main_post ssl live (cert_files (certs os)) (clock_times (waits os)) s
       (Return (- 1), emit [Printed ''Missing file or directory of trusted x509 certificates''] s)"
      by (rule quiet_post) (use nk in \<open>auto simp: extends_def intro: keys_ready_cases(3)\<close>)
    with True show ?thesis by (simp add: main_protected_def)
  next
    case argv: False
    obtain vd s1 where o: "open_sockets (sockets os) s = (vd, s1)" by fastforce
    note s1 = open_sockets_no_keys [OF nk o]
    show ?thesis
    proof (cases vd)
      case (Return c)
      have "main_post ssl live (cert_files (certs os)) (clock_times (waits os)) s (Return c, s1)"
        by (rule quiet_post) (use s1 in \<open>auto intro: keys_ready_cases(3)\<close>)
      with argv o Return show ?thesis by (simp add: main_protected_def)
    next
      case Continue
      with v argv o have c: "certs_valid ssl fresh (argv ! 1) (certs os) s1"
        and wv: "\<And>s2. load_certs ssl fresh (argv ! 1) (certs os) s1 = Inr (Continue, s2) \<Longrightarrow>
          waits_valid ssl (waits os) s2"
        by (auto simp: main_valid_def s_def)
      have g: "gives ssl live ?T os'" if "os' \<in> cert_files (certs os)" for os'
        by (rule gives_mono [OF trusted_given]) (use that in blast)
      have "rsafe (check_ok (load_certs ssl fresh (argv ! 1) (certs os) s1) (\<lambda>(v, s).
          case v of Return c \<Rightarrow> Inr (Return c, s) | Continue \<Rightarrow> event_loop ssl (waits os) s))
        (main_post ssl live (cert_files (certs os)) (clock_times (waits os)) s)"
      proof (rule safe_seq2 [OF load_certs_safe [OF ok conjunct1 [OF s1] c g]], assumption, goal_cases)
        case (1 v2 s2)
        have x: "extends quiet s s2" using s1 1 extends_trans by blast
        show ?case
        proof (cases v2)
          case (Return c)
          have "main_post ssl live (cert_files (certs os)) (clock_times (waits os)) s (Return c, s2)"
            by (rule quiet_post [OF _ x]) (use 1 Return in \<open>auto simp: loaded_def intro: keys_ready_cases(2,3)\<close>)
          with Return show ?thesis by simp
        next
          case Continue
          with 1 have inv: "server_inv live (loaded_keys s2) s2" "\<forall>k\<in>loaded_keys s2. ?T k"
            by (auto simp: loaded_def)
          have "waits_valid ssl (waits os) s2" using wv 1 Continue by blast
          with looping.run_safe [of ssl live "loaded_keys s2" s2 "waits os" "clock_times (waits os)"] ok inv
          have "rsafe (event_loop ssl (waits os) s2) (\<lambda>(v, s').
             (openssl_ok ssl live \<and> server_inv live (loaded_keys s2) s') \<and>
             extends (authorised ssl (loaded_keys s2) (clock_times (waits os))) s2 s')" by blast
          then have "rsafe (event_loop ssl (waits os) s2) (main_post ssl live (cert_files (certs os)) (clock_times (waits os)) s)"
          proof (rule safe_mono, goal_cases)
            case (1 a)
            have "extends (authorised ssl (loaded_keys s2) (clock_times (waits os))) s s2"
              by (rule extends_mono [OF x]) (rule quiet_authorised)
            with 1 inv show ?case
              unfolding main_post_def by (auto intro!: exI [of _ "loaded_keys s2"]
                intro: keys_ready_cases(1) extends_trans)
          qed
          with Continue show ?thesis by simp
        qed
      qed
      with argv o Continue show ?thesis by (simp add: main_protected_def)
    qed
  qed
qed


text \<open>
  The whole program: it does not fault, every script it runs is authenticated by a key of one of
  the given certificate files, and when it returns everything it holds has been released.
\<close>

lemma main_safe:
  assumes ok: "openssl_ok ssl live" and v: "main_valid ssl fresh argv os w"
  shows "rsafe (main ssl fresh argv os w) (\<lambda>(v, s').
    (\<exists>K. (\<forall>k\<in>K. \<exists>c\<in>cert_files (certs os). trusted ssl c k) \<and> (\<forall>e\<in>set (trace s'). authorised ssl K (clock_times (waits os)) e)) \<and>
    (\<forall>c. v = Return c \<longrightarrow> res s' = zero_resources))"
  unfolding main_def
proof (rule safe_seq2 [OF main_protected_safe [OF ok v, unfolded main_post_def]], goal_cases)
  case (1 v s)
  then obtain K where r: "keys_ready live s" and K: "\<forall>k\<in>K. \<exists>c\<in>cert_files (certs os). trusted ssl c k"
    "\<forall>e\<in>set (trace s). authorised ssl K (clock_times (waits os)) e"
    by (auto simp: extends_def)
  show ?case
  proof (cases v)
    case Continue
    with K show ?thesis by auto
  next
    case (Return c)
    have rel: "\<forall>e\<in>set (released (res s)). authorised ssl K (clock_times (waits os)) e"
      by (auto simp: released_def authorised_def conn_release_def split: if_splits)
    have "rsafe (check_ok (free_all ssl s) (\<lambda>s. Inr (Return c, s))) (\<lambda>(v, s').
      (\<exists>K. (\<forall>k\<in>K. \<exists>c\<in>cert_files (certs os). trusted ssl c k) \<and> (\<forall>e\<in>set (trace s'). authorised ssl K (clock_times (waits os)) e)) \<and>
      (\<forall>c. v = Return c \<longrightarrow> res s' = zero_resources))"
      by (rule safe_check_ok [OF free_all_safe [OF ok r]]) (use K rel in \<open>auto intro!: exI [of _ K]\<close>)
    with Return show ?thesis by simp
  qed
qed

end
