(* ===== verification/Date_Order.thy ===== *)
theory Date_Order
  imports Cert_Time "HOL-Library.Product_Lexorder"
begin

text \<open>
  The order of dates, and that the numbers of seconds the program compares are in it: \<open>struct tm\<close> is
  ordered by year, month, day, hour, minute and second, and \<open>timegm\<close> is an order isomorphism from the
  dates of the calendar to the integers, whose inverse is \<open>gmtime\<close>.
\<close>

section \<open>The order of dates\<close>

definition tm_key :: "'a tm_scheme \<Rightarrow> int \<times> int \<times> int \<times> int \<times> int \<times> int \<times> 'a" where
  "tm_key t = (tm_year t, tm_mon t, tm_mday t, tm_hour t, tm_min t, tm_sec t, tm.more t)"

lemma tm_key_inject: "tm_key t = tm_key u \<Longrightarrow> t = u"
  by (cases t; cases u) (simp add: tm_key_def)

instantiation tm_ext :: (linorder) linorder
begin

definition less_eq_tm_ext :: "'a tm_scheme \<Rightarrow> 'a tm_scheme \<Rightarrow> bool" where
  "less_eq_tm_ext t u \<longleftrightarrow> tm_key t \<le> tm_key u"

definition less_tm_ext :: "'a tm_scheme \<Rightarrow> 'a tm_scheme \<Rightarrow> bool" where
  "less_tm_ext t u \<longleftrightarrow> tm_key t < tm_key u"

instance
  by standard (auto simp: less_eq_tm_ext_def less_tm_ext_def intro: tm_key_inject)

end

lemma tm_less_iff:
  "(t :: tm) < u \<longleftrightarrow> tm_year t < tm_year u \<or> tm_year t = tm_year u \<and> (tm_mon t < tm_mon u \<or>
     tm_mon t = tm_mon u \<and> (tm_mday t < tm_mday u \<or> tm_mday t = tm_mday u \<and> (tm_hour t < tm_hour u \<or>
     tm_hour t = tm_hour u \<and> (tm_min t < tm_min u \<or> tm_min t = tm_min u \<and> tm_sec t < tm_sec u))))"
  by (auto simp: less_tm_ext_def tm_key_def less_prod_def)

section \<open>Seconds\<close>

text \<open>The day of the year and the second of the day, both from 0.\<close>

definition year_day :: "tm \<Rightarrow> int" where
  "year_day t = days_before_month (is_leap (tm_year t + 1900)) (tm_mon t) + (tm_mday t - 1)"

definition day_second :: "tm \<Rightarrow> int" where
  "day_second t = (tm_hour t * 60 + tm_min t) * 60 + tm_sec t"

lemma timegm_parts:
  assumes "valid_tm t"
  shows "timegm_secs t = 86400 * (days_before_year (tm_year t + 1900) + year_day t) + day_second t"
    "0 \<le> day_second t" "day_second t < 86400" "0 \<le> year_day t" "year_day t < year_length (tm_year t + 1900)"
    "days_before_month (is_leap (tm_year t + 1900)) (tm_mon t) \<le> year_day t"
    "year_day t < days_before_month (is_leap (tm_year t + 1900)) (tm_mon t + 1)"
proof -
  note v = assms [unfolded valid_tm_def]
  let ?l = "is_leap (tm_year t + 1900)"
  have m: "0 \<le> tm_mon t" "tm_mon t < 12" using v by auto
  then show "timegm_secs t = 86400 * (days_before_year (tm_year t + 1900) + year_day t) + day_second t"
    by (simp add: timegm_secs_def Let_def year_day_def day_second_def algebra_simps)
  show "0 \<le> day_second t" "day_second t < 86400" using v by (auto simp: day_second_def)
  show lo: "days_before_month ?l (tm_mon t) \<le> year_day t" and hi: "year_day t < days_before_month ?l (tm_mon t + 1)"
    using v by (auto simp: year_day_def month_length_def)
  show "0 \<le> year_day t"
    using lo days_before_month_mono [of 0 "tm_mon t" ?l] m by (simp add: days_before_month_def)
  show "year_day t < year_length (tm_year t + 1900)"
    using hi days_before_month_mono [of "tm_mon t + 1" 12 ?l] m by (simp add: days_before_month_12)
qed

lemma timegm_less:
  assumes t: "valid_tm t" and u: "valid_tm u" and less: "t < u"
  shows "timegm_secs t < timegm_secs u"
proof -
  note p = timegm_parts [OF t] and q = timegm_parts [OF u]
  let ?d = "\<lambda>t. days_before_year (tm_year t + 1900) + year_day t"
  have days: "timegm_secs t < timegm_secs u" if "?d t < ?d u"
  proof -
    have "86400 * (?d t + 1) \<le> 86400 * ?d u" using that by (intro mult_left_mono) simp_all
    then show ?thesis using p(1-3) q(1-3) by (simp add: algebra_simps)
  qed
  show ?thesis
  proof (cases "tm_year t < tm_year u")
    case True
    then have "days_before_year (tm_year t + 1900 + 1) \<le> days_before_year (tm_year u + 1900)"
      by (intro days_before_year_mono) simp
    then have "?d t < ?d u" using days_before_year_step [of "tm_year t + 1900"] p(4,5) q(4) by linarith
    then show ?thesis by (rule days)
  next
    case False
    with less have y: "tm_year t = tm_year u" by (auto simp: tm_less_iff)
    show ?thesis
    proof (cases "tm_mon t < tm_mon u")
      case True
      have "days_before_month (is_leap (tm_year u + 1900)) (tm_mon t + 1) \<le>
          days_before_month (is_leap (tm_year u + 1900)) (tm_mon u)"
        using True t u by (intro days_before_month_mono) (auto simp: valid_tm_def)
      then have "year_day t < year_day u" using p(7) q(6) y by simp
      then show ?thesis using y by (intro days) simp
    next
      case False
      with less y have m: "tm_mon t = tm_mon u" by (auto simp: tm_less_iff)
      show ?thesis
      proof (cases "tm_mday t < tm_mday u")
        case True
        with y m show ?thesis by (intro days) (simp add: year_day_def)
      next
        case False
        with less y m have d: "tm_mday t = tm_mday u" by (auto simp: tm_less_iff)
        have "day_second t < day_second u"
          using less y m d t u by (auto simp: tm_less_iff day_second_def valid_tm_def)
        moreover have "?d t = ?d u" using y m d by (simp add: year_day_def)
        ultimately show ?thesis using p(1) q(1) by simp
      qed
    qed
  qed
qed

lemma timegm_le_iff: "valid_tm t \<Longrightarrow> valid_tm u \<Longrightarrow> timegm_secs t \<le> timegm_secs u \<longleftrightarrow> t \<le> u"
  using timegm_less [of t u] timegm_less [of u t] by (cases t u rule: linorder_cases) auto

lemma timegm_less_iff: "valid_tm t \<Longrightarrow> valid_tm u \<Longrightarrow> timegm_secs t < timegm_secs u \<longleftrightarrow> t < u"
  using timegm_le_iff [of u t] by (simp add: linorder_not_less [symmetric])

lemma timegm_gmtime: "timegm_secs (gmtime s) = s"
proof -
  let ?d = "s div 86400"
  let ?y = "gm_year ?d" let ?yd = "?d - days_before_year ?y" let ?t = "gmtime s"
  let ?m = "month_from (is_leap ?y) ?yd 11"
  have f: "tm_year ?t + 1900 = ?y" "tm_mon ?t = ?m" "tm_mday ?t = ?yd - days_before_month (is_leap ?y) ?m + 1"
    "tm_hour ?t = s mod 86400 div 3600" "tm_min ?t = s mod 86400 div 60 mod 60" "tm_sec ?t = s mod 86400 mod 60"
    by (simp_all add: gmtime_eq Let_def)
  have "year_day ?t = ?yd" unfolding year_day_def f by simp
  moreover have "day_second ?t = s mod 86400"
  proof -
    have "(r div 3600 * 60 + r div 60 mod 60) * 60 + r mod 60 = r" for r :: int
    proof -
      have "r div 3600 = r div 60 div 60" using zdiv_zmult2_eq [of 60 r 60] by simp
      then show ?thesis by simp
    qed
    then show ?thesis unfolding day_second_def f .
  qed
  ultimately show ?thesis
    using timegm_parts(1) [OF gmtime_valid, of s] unfolding f(1) by simp
qed

end
