(* ===== verification/Certificate_Check.thy ===== *)
theory Certificate_Check
  imports Certificate_Grammar Startup Date_Order
begin

text \<open>
  What the program accepts, stated of certificates instead of index ranges: the certificates that may
  sign code (\<open>signs_code\<close>), the key that is made of one (\<open>key_made\<close>) and the verdict on its own signature
  (\<open>gives_key\<close>). The checks of \<open>crypto.c\<close>, \<open>accept_cert\<close> of \<open>read_cert.c\<close> and the keys the server
  trusts are shown to refine them.
\<close>

section \<open>The checks on a certificate\<close>

definition cert_info :: "certificate \<Rightarrow> extn_info" where
  "cert_info c = extensions_info (listed (c_extns c))"

text \<open>
  A certificate that may sign code at a time: it is valid then, may sign certificates, names one key as
  subject and authority if it names any, and carries both usage extensions with the three flags.
\<close>

definition signs_code :: "certificate \<Rightarrow> int \<Rightarrow> bool" where
  "signs_code c now \<longleftrightarrow>
     secs_read (c_from c) \<le> now \<and> now \<le> secs_read (c_until c) \<and>
     is_ca (cert_info c) \<and> subject_key (cert_info c) = authority_key (cert_info c) \<and>
     has_usage (cert_info c) \<and> has_purposes (cert_info c) \<and> usage_flags (cert_info c) AND usage_mask = usage_mask"

lemma self_sign_describes:
  assumes d: "describes raw c f"
  shows "self_sign_ok raw f now \<longleftrightarrow> signs_code c now"
proof -
  from d have i: "extn_view raw f = cert_info c" by (simp add: describes_def cert_info_def)
  have "is_ca (cert_info c) = key_cert_sign f" "has_usage (cert_info c) = has_key_usage f"
    "has_purposes (cert_info c) = has_ext_key_usage f" "usage_flags (cert_info c) = key_usage_flags f"
    "subject_key (cert_info c) = range_of raw (skid_start f) (skid_end f)"
    "authority_key (cert_info c) = range_of raw (akid_start f) (akid_end f)"
    by (simp_all flip: i add: extn_view_def)
  with d show ?thesis
    by (auto simp: self_sign_ok_def signs_code_def range_of_def describes_def describes_core_def)
qed

text \<open>The checks of the validity compare dates.\<close>

lemma check_self_sign_dates:
  assumes d: "describes raw c f" and ok: "certificate_ok c"
  shows "check_self_sign raw f now = Inr EXPIRED \<longleftrightarrow> as_read (c_until c) < gmtime now"
    "check_self_sign raw f now = Inr NOT_BEFORE \<longleftrightarrow> gmtime now \<le> as_read (c_until c) \<and> gmtime now < as_read (c_from c)"
proof -
  have v: "valid_tm (as_read (c_from c))" "valid_tm (as_read (c_until c))"
    using ok by (auto simp: certificate_ok_def date_ok_def split: prod.splits)
  have t: "not_before f = secs_read (c_from c)" "not_after f = secs_read (c_until c)"
    using d by (simp_all add: describes_def describes_core_def)
  have "not_after f < now \<longleftrightarrow> as_read (c_until c) < gmtime now" "now \<le> not_after f \<longleftrightarrow> gmtime now \<le> as_read (c_until c)"
    "now < not_before f \<longleftrightarrow> gmtime now < as_read (c_from c)"
    using timegm_less_iff [OF v(2) gmtime_valid, of now] timegm_le_iff [OF gmtime_valid v(2), of now]
      timegm_less_iff [OF gmtime_valid v(1), of now] by (simp_all add: t secs_read_def timegm_gmtime)
  moreover have "check_self_sign raw f now = Inr EXPIRED \<longleftrightarrow> not_after f < now"
    "check_self_sign raw f now = Inr NOT_BEFORE \<longleftrightarrow> now \<le> not_after f \<and> now < not_before f"
    by (auto simp: check_self_sign_def Let_def split: if_splits)
  ultimately show "check_self_sign raw f now = Inr EXPIRED \<longleftrightarrow> as_read (c_until c) < gmtime now"
    "check_self_sign raw f now = Inr NOT_BEFORE \<longleftrightarrow> gmtime now \<le> as_read (c_until c) \<and> gmtime now < as_read (c_from c)"
    by simp_all
qed

section \<open>The key of a certificate\<close>

text \<open>An encoding of an algorithm determines the algorithm, if it fits a buffer.\<close>

lemma alg_id_bytes_inject:
  assumes c: "cursor raw i e (alg_id_bytes a)" and eq: "alg_id_bytes a = alg_id_bytes b"
  shows "a = b"
proof -
  have ca: "cursor raw i e (alg_id_bytes a @ [])" and cb: "cursor raw i e (alg_id_bytes b @ [])" using c eq by simp_all
  from parse_alg_id_complete [OF ca] obtain k os oe where
    1: "parse_alg_id raw i e = Inr (k, i, k, os, oe)" "cursor raw os oe (fst a)" "cursor raw oe k (snd a)" by metis
  from parse_alg_id_complete [OF cb] obtain k' os' oe' where
    2: "parse_alg_id raw i e = Inr (k', i, k', os', oe')" "cursor raw os' oe' (fst b)" "cursor raw oe' k' (snd b)" by metis
  from 1(1) 2(1) have "k' = k" "os' = os" "oe' = oe" by simp_all
  with 1 2 have "fst a = fst b" "snd a = snd b" using cursor_eq by blast+
  then show ?thesis by (simp add: prod_eq_iff)
qed

text \<open>An Ed25519 or Ed448 key: the algorithm has no parameters, and signs the certificate too.\<close>

definition ed_key_made :: "'w OpenSSL \<Rightarrow> key_type \<Rightarrow> certificate \<Rightarrow> PubKey \<Rightarrow> 'w \<Rightarrow> PubKey \<Rightarrow> 'w \<Rightarrow> bool" where
  "ed_key_made ssl kt c k0 w k w' \<longleftrightarrow>
     snd (c_key_alg c) = [] \<and> c_sig_alg c = c_key_alg c \<and>
     (\<exists>p v m. EVP_PKEY_new_raw_public_key ssl kt (c_key c) w = (Some p, v) \<and> EVP_MD_CTX_new ssl v = (Some m, w') \<and>
        k = k0\<lparr>pkey := Addr p, md := None, md_ctx := Addr m\<rparr>)"

definition rsa_digest_of :: "byte list \<Rightarrow> digest option" where
  "rsa_digest_of oid =
     (if oid = RSA_SHA256_OID then Some SHA256 else if oid = RSA_SHA384_OID then Some SHA384
      else if oid = RSA_SHA512_OID then Some SHA512 else None)"

text \<open>
  An RSA key: no parameters or null ones, a supported digest, and two integers, behind which the code
  allows any bytes. The key is made of just these integers, and the temporaries are freed.
\<close>

definition rsa_key_made :: "'w OpenSSL \<Rightarrow> certificate \<Rightarrow> PubKey \<Rightarrow> 'w \<Rightarrow> PubKey \<Rightarrow> 'w \<Rightarrow> bool" where
  "rsa_key_made ssl c k0 w k w' \<longleftrightarrow>
     (snd (c_key_alg c) = [] \<or> snd (c_key_alg c) = [5, 0]) \<and>
     (\<exists>d n e rest size t v. rsa_digest_of (fst (c_sig_alg c)) = Some d \<and>
        c_key c = der_tlv DER_SEQUENCE (der_tlv DER_INTEGER n @ der_tlv DER_INTEGER e) @ rest \<and>
        rsa_sig_size (of_nat (length n)) = Some size \<and>
        rsa_try ssl n (c_int (of_nat (length n))) e (c_int (of_nat (length e)))
          (k0\<lparr>md := Some d, exp_sig_size := size\<rparr>) w = Inr (CERT_OK, t, k, v) \<and>
        rsa_out ssl t v = Inr w')"

definition key_made :: "'w OpenSSL \<Rightarrow> certificate \<Rightarrow> PubKey \<Rightarrow> 'w \<Rightarrow> PubKey \<Rightarrow> 'w \<Rightarrow> bool" where
  "key_made ssl c k0 w k w' \<longleftrightarrow>
     (let oid = fst (c_key_alg c) in
      oid = ed25519_oid \<and> ed_key_made ssl EVP_PKEY_ED25519 c (k0\<lparr>alg_idx := 0, exp_sig_size := 64\<rparr>) w k w' \<or>
      oid = ed448_oid \<and> ed_key_made ssl EVP_PKEY_ED448 c (k0\<lparr>alg_idx := 1, exp_sig_size := 114\<rparr>) w k w' \<or>
      oid = rsa_oid \<and> rsa_key_made ssl c (k0\<lparr>alg_idx := 2\<rparr>) w k w')"

lemma empty_slice: "valid_end raw e \<Longrightarrow> i \<le> e \<Longrightarrow> slice raw i e = [] \<longleftrightarrow> i = e"
  using length_slice [of raw e i] by (auto simp: word_le_nat_alt word_unat_eq_iff simp flip: length_0_conv)

lemma ed_extract_iff:
  assumes v: "valid_end raw sz" and f: "fields_ok raw sz f" and d: "describes raw c f"
  shows "ed_extract ssl raw f kt k0 w = Inr (CERT_OK, k, w') \<longleftrightarrow> ed_key_made ssl kt c k0 w k w'"
proof -
  note r = fields_ok_ranges [OF f v]
  from d have s: "slice raw (sig_id_start f) (sig_id_end f) = alg_id_bytes (c_sig_alg c)"
    "slice raw (pub_key_id_start f) (pub_key_id_end f) = alg_id_bytes (c_key_alg c)"
    "slice raw (pub_key_start f) (pub_key_end f) = c_key c"
    "slice raw (pub_key_oid_end f) (pub_key_id_end f) = snd (c_key_alg c)"
    by (simp_all add: describes_def describes_core_def)
  have p: "pub_key_oid_end f \<noteq> pub_key_id_end f \<longleftrightarrow> snd (c_key_alg c) \<noteq> []"
    using empty_slice [OF r(8) r(10)] s(4) by simp
  have "cursor raw (sig_id_start f) (sig_id_end f) (alg_id_bytes (c_sig_alg c))" using r s by (simp add: cursor_def)
  then have a: "alg_id_bytes (c_sig_alg c) = alg_id_bytes (c_key_alg c) \<longleftrightarrow> c_sig_alg c = c_key_alg c"
    using alg_id_bytes_inject by metis
  show ?thesis
    by (auto simp: ed_extract_def ed_key_made_def p certeq_slices r rd_bytes_slice s a ptr_of_def Let_def
        split: prod.splits option.splits)
qed

lemma null_params:
  assumes c: "cursor raw (pub_key_oid_end f) (pub_key_id_end f) p"
  shows "\<exists>j. rsa_params_end raw f = Inr j \<and> (j = pub_key_id_end f \<longleftrightarrow> p = [] \<or> p = [5, 0])"
proof -
  let ?i = "pub_key_oid_end f" and ?e = "pub_key_id_end f"
  have lt: "unat ?e < 2 ^ 63"
    using cursor_valid [OF c] by (simp add: valid_end_def object_size_def PTRDIFF_MAX_def)
  have l: "unat ?e = unat ?i + length p" using cursor_length [OF c] cursor_le [OF c] by (simp add: word_le_nat_alt)
  then have i2: "unat (?i + 2) = unat ?i + 2" using lt by (simp add: unat_word_ariths(1))
  then have gt: "?i + 2 > ?e \<longleftrightarrow> length p < 2" using l by (simp add: word_less_nat_alt) 
  have fin: "?i = ?e \<longleftrightarrow> p = []" using cursor_done [OF c] .
  consider "length p < 2" | x y q where "p = x # y # q"
    by (cases p; cases "tl p") auto
  then show ?thesis
  proof cases
    case 1
    with gt fin show ?thesis by (auto simp: rsa_params_end_def parse_null_def)
  next
    case 2
    note x = cursor_rd [OF c [unfolded 2]] and y = cursor_rd [OF cursor_Cons(3) [OF c [unfolded 2]]]
    have e: "?i + 2 = ?e \<longleftrightarrow> q = []" using i2 l 2 by (auto simp: word_unat_eq_iff)
    show ?thesis using gt fin x y e 2
      by (auto simp: rsa_params_end_def parse_null_def)
  qed
qed


lemma digest_of:
  assumes v: "valid_end raw (sig_oid_end f)" and le: "sig_oid_start f \<le> sig_oid_end f"
    and s: "slice raw (sig_oid_start f) (sig_oid_end f) = oid"
  shows "rsa_digest raw f = Inr (rsa_digest_of oid)"
  by (simp add: rsa_digest_def rsa_digest_of_def Let_def memeq_safe [OF v le] s)

lemma rsa_integers_iff:
  assumes c: "cursor raw (pub_key_start f) (pub_key_end f) key"
  shows "rsa_integers raw f = Inr (ns, ne, es, ee) \<longleftrightarrow>
    (\<exists>n e rest. key = der_tlv DER_SEQUENCE (der_tlv DER_INTEGER n @ der_tlv DER_INTEGER e) @ rest \<and>
       cursor raw ns ne n \<and> cursor raw es ee e \<and> cursor raw ne ee (der_tlv DER_INTEGER e) \<and>
       cursor raw ee (pub_key_end f) rest)"
proof
  assume "rsa_integers raw f = Inr (ns, ne, es, ee)"
  then obtain i where 1: "parse_data_element raw DER_SEQUENCE (pub_key_start f) (pub_key_end f) = Inr (i, ee)"
    and 2: "parse_data_element raw DER_INTEGER i ee = Inr (ns, ne)"
    and 3: "parse_data_element raw DER_INTEGER ne ee = Inr (es, ee)"
    by (auto simp: rsa_integers_def if_fail split del: if_split)
  from 1 obtain x rest where x: "key = der_tlv DER_SEQUENCE x @ rest" "cursor raw i ee x"
    "cursor raw ee (pub_key_end f) rest" unfolding parse_data_element_at [OF c] by blast
  from 2 obtain n y where n: "x = der_tlv DER_INTEGER n @ y" "cursor raw ns ne n" "cursor raw ne ee y"
    unfolding parse_data_element_at [OF x(2)] by blast
  from whole_element [OF n(3) 3] obtain e where "y = der_tlv DER_INTEGER e" "cursor raw es ee e" .
  with x n show "\<exists>n e rest. key = der_tlv DER_SEQUENCE (der_tlv DER_INTEGER n @ der_tlv DER_INTEGER e) @ rest \<and>
       cursor raw ns ne n \<and> cursor raw es ee e \<and> cursor raw ne ee (der_tlv DER_INTEGER e) \<and>
       cursor raw ee (pub_key_end f) rest" by auto
next
  assume "\<exists>n e rest. key = der_tlv DER_SEQUENCE (der_tlv DER_INTEGER n @ der_tlv DER_INTEGER e) @ rest \<and>
       cursor raw ns ne n \<and> cursor raw es ee e \<and> cursor raw ne ee (der_tlv DER_INTEGER e) \<and>
       cursor raw ee (pub_key_end f) rest"
  then obtain n e rest where k: "key = der_tlv DER_SEQUENCE (der_tlv DER_INTEGER n @ der_tlv DER_INTEGER e) @ rest"
    and r: "cursor raw ns ne n" "cursor raw es ee e" "cursor raw ne ee (der_tlv DER_INTEGER e)"
      "cursor raw ee (pub_key_end f) rest" by blast
  from parse_data_element_tlv [OF c [unfolded k]] obtain i k where
    1: "parse_data_element raw DER_SEQUENCE (pub_key_start f) (pub_key_end f) = Inr (i, k)"
      "cursor raw i k (der_tlv DER_INTEGER n @ der_tlv DER_INTEGER e)" "cursor raw k (pub_key_end f) rest" by metis
  have k: "k = ee" using cursor_end_unique [OF 1(3) r(4)] .
  have 2: "parse_data_element raw DER_INTEGER i ee = Inr (ns, ne)"
    unfolding parse_data_element_at [OF 1(2) [unfolded k]] using r by blast
  have e: "cursor raw ee ee []" using r(3) cursor_valid by (auto simp: cursor_def)
  have 3: "parse_data_element raw DER_INTEGER ne ee = Inr (es, ee)"
    unfolding parse_data_element_at [OF r(3)] using r(2) e by (intro exI [of _ e] exI [of _ "[]"]) simp
  from 1 2 3 k show "rsa_integers raw f = Inr (ns, ne, es, ee)" by (simp add: rsa_integers_def)
qed

lemma rsa_integers_key:
  assumes c: "cursor raw (pub_key_start f) (pub_key_end f) key"
    and k: "key = der_tlv DER_SEQUENCE (der_tlv DER_INTEGER n @ der_tlv DER_INTEGER e) @ rest"
  obtains ns ne es ee where "rsa_integers raw f = Inr (ns, ne, es, ee)" "cursor raw ns ne n" "cursor raw es ee e"
proof -
  from parse_data_element_tlv [OF c [unfolded k]] obtain i ee where
    1: "cursor raw i ee (der_tlv DER_INTEGER n @ der_tlv DER_INTEGER e)" "cursor raw ee (pub_key_end f) rest" by metis
  from parse_data_element_tlv [OF 1(1)] obtain ns ne where
    2: "cursor raw ns ne n" "cursor raw ne ee (der_tlv DER_INTEGER e)" by metis
  from whole_element_complete [OF 2(2)] obtain es where 3: "cursor raw es ee e" by metis
  from 1 2 3 k that [of ns ne es ee] show ?thesis unfolding rsa_integers_iff [OF c] by blast
qed

lemma cursor_rd_bytes: "cursor raw i e bs \<Longrightarrow> rd_bytes raw i (e - i) = Inr bs"
  using rd_bytes_slice [of raw e i] by (simp add: cursor_def)

lemma cursor_word_size: "cursor raw i e bs \<Longrightarrow> e - i = of_nat (length bs)"
  using cursor_size [of raw i e bs] by (metis of_nat_unat ucast_id)

lemma catch_Inr_iff: "catch m = Inr r \<longleftrightarrow> (\<exists>c. m = Inl (Code c) \<and> r = Inl c) \<or> (\<exists>a. m = Inr a \<and> r = Inr a)"
  by (auto simp: catch_def split: sum.splits fail.splits)

text \<open>What \<open>rsa_extract\<close> does once it has found the two integers.\<close>

lemma rsa_extract_iff:
  assumes v: "valid_end raw sz" and f: "fields_ok raw sz f" and d: "describes raw c f"
  shows "rsa_extract ssl raw f k0 w = Inr (CERT_OK, k, w') \<longleftrightarrow> rsa_key_made ssl c k0 w k w'"
proof -
  note r = fields_ok_ranges [OF f v]
  from d have s: "slice raw (pub_key_oid_end f) (pub_key_id_end f) = snd (c_key_alg c)"
    "slice raw (sig_oid_start f) (sig_oid_end f) = fst (c_sig_alg c)" "slice raw (pub_key_start f) (pub_key_end f) = c_key c"
    by (simp_all add: describes_def describes_core_def)
  have p: "cursor raw (pub_key_oid_end f) (pub_key_id_end f) (snd (c_key_alg c))"
    and key: "cursor raw (pub_key_start f) (pub_key_end f) (c_key c)" using r s by (simp_all add: cursor_def)
  from null_params [OF p] obtain j where
    j: "rsa_params_end raw f = Inr j" "j = pub_key_id_end f \<longleftrightarrow> snd (c_key_alg c) = [] \<or> snd (c_key_alg c) = [5, 0]" by blast
  note dg = digest_of [OF r(6,5) s(2)]
  show ?thesis
  proof
    assume "rsa_extract ssl raw f k0 w = Inr (CERT_OK, k, w')"
    then obtain d ns ne es ee size nb eb t v where
      1: "j = pub_key_id_end f" "rsa_digest_of (fst (c_sig_alg c)) = Some d"
        "rsa_integers raw f = Inr (ns, ne, es, ee)" "rsa_sig_size (ne - ns) = Some size"
        "rd_bytes raw ns (ne - ns) = (Inr nb :: byte list run)" "rd_bytes raw es (ee - es) = (Inr eb :: byte list run)"
        "rsa_try ssl nb (c_int (ne - ns)) eb (c_int (ee - es)) (k0\<lparr>md := Some d, exp_sig_size := size\<rparr>) w = Inr (CERT_OK, t, k, v)"
        "rsa_out ssl t v = Inr w'"
      by (auto simp: rsa_extract_def j(1) dg Let_def catch_Inr_iff if_fail split: option.splits prod.splits if_splits)
    from 1(3) obtain n e rest where k: "c_key c = der_tlv DER_SEQUENCE (der_tlv DER_INTEGER n @ der_tlv DER_INTEGER e) @ rest"
      "cursor raw ns ne n" "cursor raw es ee e" unfolding rsa_integers_iff [OF key] by blast
    note n = cursor_rd_bytes [OF k(2)] and e = cursor_rd_bytes [OF k(3)]
    have "nb = n" "eb = e" using 1(5) 1(6) unfolding n e by simp_all
    note t = 1(4,7) [unfolded cursor_word_size [OF k(2)] cursor_word_size [OF k(3)] this]
    from 1(1) j(2) have "snd (c_key_alg c) = [] \<or> snd (c_key_alg c) = [5, 0]" by simp
    with 1(2,8) t k(1) show "rsa_key_made ssl c k0 w k w'"
      unfolding rsa_key_made_def by blast
  next
    assume "rsa_key_made ssl c k0 w k w'"
    then obtain d n e rest size t v where
      1: "snd (c_key_alg c) = [] \<or> snd (c_key_alg c) = [5, 0]" "rsa_digest_of (fst (c_sig_alg c)) = Some d"
        "c_key c = der_tlv DER_SEQUENCE (der_tlv DER_INTEGER n @ der_tlv DER_INTEGER e) @ rest"
        "rsa_sig_size (of_nat (length n)) = Some size"
        "rsa_try ssl n (c_int (of_nat (length n))) e (c_int (of_nat (length e)))
          (k0\<lparr>md := Some d, exp_sig_size := size\<rparr>) w = Inr (CERT_OK, t, k, v)"
        "rsa_out ssl t v = Inr w'" unfolding rsa_key_made_def by blast
    from rsa_integers_key [OF key 1(3)] obtain ns ne es ee where
      i: "rsa_integers raw f = Inr (ns, ne, es, ee)" "cursor raw ns ne n" "cursor raw es ee e" .
    note n = cursor_word_size [OF i(2)] cursor_rd_bytes [OF i(2), unfolded cursor_word_size [OF i(2)]]
    note e = cursor_word_size [OF i(3)] cursor_rd_bytes [OF i(3), unfolded cursor_word_size [OF i(3)]]
    from 1 j i(1) show "rsa_extract ssl raw f k0 w = Inr (CERT_OK, k, w')"
      by (simp add: rsa_extract_def dg Let_def n e)
  qed
qed

text \<open>The search through the table makes the key of the certificate's algorithm.\<close>

lemma pub_key_extract_iff:
  assumes v: "valid_end raw sz" and f: "fields_ok raw sz f" and d: "describes raw c f"
  shows "pub_key_extract ssl raw f k0 w = Inr (CERT_OK, k, w') \<longleftrightarrow> key_made ssl c k0 w k w'"
proof -
  have oid: "key_oid raw f = fst (c_key_alg c)" using d by (simp add: key_oid_def describes_def describes_core_def)
  have ne: "ed448_oid \<noteq> ed25519_oid" "rsa_oid \<noteq> ed25519_oid" "rsa_oid \<noteq> ed448_oid"
    by (simp_all add: ed25519_oid_def ed448_oid_def rsa_oid_def)
  show ?thesis
    using ne by (auto simp: pub_key_extract_def find_alg_valid [OF v f] oid key_made_def Let_def ed25519_def ed448_def rsa_def
        ed25519_extract_def ed448_extract_def ed_extract_iff [OF v f d] rsa_extract_iff [OF v f d])
qed

section \<open>Accepted certificates\<close>

text \<open>
  The certificate gives a key: it may sign code, the key is made of its key, and the library verifies
  its signature over its signed part with that key.
\<close>

definition gives_key :: "'w OpenSSL \<Rightarrow> certificate \<Rightarrow> int \<Rightarrow> PubKey \<Rightarrow> 'w \<Rightarrow> PubKey \<Rightarrow> 'w \<Rightarrow> bool" where
  "gives_key ssl c now k0 w k w' \<longleftrightarrow>
     signs_code c now \<and>
     (\<exists>k1 v. key_made ssl c k0 w k1 v \<and> openssl_verify ssl k1 (tbs_bytes c) (c_signature c) v = Inr (True, w') \<and>
        k = k1\<lparr>expiry := secs_read (c_until c)\<rparr>)"

lemma rsa_fromdata_alg: "rsa_fromdata ssl t p k w = Inr (CERT_OK, t', k', w') \<Longrightarrow> alg_idx k' = alg_idx k"
  by (auto simp: rsa_fromdata_def Let_def case_prod_unfold split: option.splits if_splits)

lemma rsa_try_alg: "rsa_try ssl n ns e es k w = Inr (CERT_OK, t, k', w') \<Longrightarrow> alg_idx k' = alg_idx k"
  by (auto simp: rsa_try_def Let_def dest: rsa_fromdata_alg split: prod.splits option.splits if_splits)

lemma key_made_alg: "key_made ssl c k0 w k w' \<Longrightarrow> alg_idx k < 3"
  by (auto simp: key_made_def ed_key_made_def rsa_key_made_def Let_def dest: rsa_try_alg)

lemma extract_self_sign_iff:
  assumes v: "valid_end raw sz" and f: "fields_ok raw sz f" and d: "describes raw c f"
  shows "extract_self_sign_for_code_sign ssl raw f now k0 w = Inr (CERT_OK, k, w') \<longleftrightarrow> gives_key ssl c now k0 w k w'"
proof (rule check_self_sign_valid [OF v f, of now])
  fix code assume c: "check_self_sign raw f now = Inr code" "code = CERT_OK \<longleftrightarrow> self_sign_ok raw f now"
  note r = fields_ok_ranges [OF f v] and ext = pub_key_extract_iff [OF v f d]
  from d have b: "slice raw (signed_data_start f) (signed_data_end f) = tbs_bytes c"
    "slice raw (sig_start f) (sig_end f) = c_signature c" "not_after f = secs_read (c_until c)"
    by (simp_all add: describes_def describes_core_def)
  note sg = self_sign_describes [OF d, of now]
  show ?thesis
  proof (cases "code = CERT_OK")
    case False
    with c sg show ?thesis by (simp add: extract_self_sign_for_code_sign_def gives_key_def)
  next
    case True
    with c sg have "signs_code c now" by simp
    have ver: "pub_key_verify ssl k1 x y v = openssl_verify ssl k1 x y v"
      if "pub_key_extract ssl raw f k0 w = Inr (CERT_OK, k1, v')" for k1 x y v v'
      by (rule pub_key_verify_openssl, rule key_made_alg, rule iffD1 [OF ext that])
    have "extract_self_sign_for_code_sign ssl raw f now k0 w = Inr (CERT_OK, k, w') \<longleftrightarrow>
      (\<exists>k1 v. pub_key_extract ssl raw f k0 w = Inr (CERT_OK, k1, v) \<and>
         pub_key_verify ssl k1 (tbs_bytes c) (c_signature c) v = Inr (True, w') \<and>
         k = k1\<lparr>expiry := secs_read (c_until c)\<rparr>)"
      using True c(1)
      by (simp add: extract_self_sign_for_code_sign_def rd_bytes_slice r b) (auto split: if_splits)
    also have "\<dots> \<longleftrightarrow> gives_key ssl c now k0 w k w'"
      unfolding gives_key_def ext [symmetric] using \<open>signs_code c now\<close> ver by metis
    finally show ?thesis .
  qed
qed


text \<open>What \<open>accept_cert\<close> makes of a buffer: a key of the certificate that the buffer is.\<close>

lemma accept_cert_iff:
  assumes v: "valid_end raw sz"
  shows "accept_cert ssl raw sz now path k0 w = Inr (True, k, w', out) \<longleftrightarrow>
    out = [] \<and> (\<exists>c. certificate_ok c \<and> slice raw 0 sz = certificate_bytes c \<and> gives_key ssl c now k0 w k w')"
proof
  assume "accept_cert ssl raw sz now path k0 w = Inr (True, k, w', out)"
  then obtain f where p: "parse_x509 raw sz zero_fields = Inr f" "out = []"
    and e: "extract_self_sign_for_code_sign ssl raw f now k0 w = Inr (CERT_OK, k, w')"
    by (cases "parse_x509 raw sz zero_fields") (auto simp: accept_cert_def catch_Inr_iff report_def)
  from parse_x509_is_certificate [OF v p(1)] obtain c where
    c: "certificate_ok c" "slice raw 0 sz = certificate_bytes c" "describes raw c f" .
  from e c p(2) show "out = [] \<and> (\<exists>c. certificate_ok c \<and> slice raw 0 sz = certificate_bytes c \<and> gives_key ssl c now k0 w k w')"
    unfolding extract_self_sign_iff [OF v safe_InrD [OF parse_x509_safe [OF v] p(1)] c(3)] by blast
next
  assume "out = [] \<and> (\<exists>c. certificate_ok c \<and> slice raw 0 sz = certificate_bytes c \<and> gives_key ssl c now k0 w k w')"
  then obtain c where c: "certificate_ok c" "slice raw 0 sz = certificate_bytes c"
    and g: "gives_key ssl c now k0 w k w'" "out = []" by blast
  from parse_x509_accepts [OF v c(2,1)] obtain f where
    f: "parse_x509 raw sz zero_fields = Inr f" "describes raw c f" .
  from g(1) have "extract_self_sign_for_code_sign ssl raw f now k0 w = Inr (CERT_OK, k, w')"
    unfolding extract_self_sign_iff [OF v safe_InrD [OF parse_x509_safe [OF v] f(1)] f(2)] .
  with f(1) g(2) show "accept_cert ssl raw sz now path k0 w = Inr (True, k, w', out)"
    by (simp add: accept_cert_def report_def)
qed

text \<open>A key that the server trusts comes from a file that holds a certificate that gives it.\<close>

definition certified :: "'w OpenSSL \<Rightarrow> cert_file \<Rightarrow> PubKey \<Rightarrow> bool" where
  "certified ssl os k \<longleftrightarrow>
     (\<exists>c k0 w w'. map_result os = Inr (certificate_bytes c) \<and> certificate_ok c \<and>
        gives_key ssl c (clock_now os) k0 w k w')"

lemma trusted_certified:
  assumes "trusted ssl os k"
  shows "certified ssl os k"
proof -
  from assms obtain raw f k0 w w' where ok: "cert_file_ok os" "map_result os = Inr raw"
    and p: "parse_x509 raw (of_int (file_size os)) zero_fields = Inr f"
    and e: "extract_self_sign_for_code_sign ssl raw f (clock_now os) k0 w = Inr (CERT_OK, k, w')"
    by (auto simp: trusted_def)
  note v = file_valid_end [OF ok]
  from parse_x509_is_certificate [OF v(1) p] obtain c where
    c: "certificate_ok c" "slice raw 0 (of_int (file_size os)) = certificate_bytes c" "describes raw c f" .
  from e have "gives_key ssl c (clock_now os) k0 w k w'"
    unfolding extract_self_sign_iff [OF v(1) safe_InrD [OF parse_x509_safe [OF v(1)] p] c(3)] .
  with c(1,2) v(2) ok(2) show ?thesis by (auto simp: certified_def)
qed

text \<open>When \<open>read_cert\<close> answers true: the file could be mapped and is a certificate that gives the key.\<close>

lemma read_cert_true_iff:
  assumes os: "cert_file_ok os"
  shows "read_cert ssl os path k0 w = Inr (True, k, w', out) \<longleftrightarrow>
    0 \<le> open_result os \<and> 0 \<le> fstat_result os \<and> 0 < file_size os \<and> out = [Unmap, CloseFile (open_result os)] \<and>
    (\<exists>c. map_result os = Inr (certificate_bytes c) \<and> certificate_ok c \<and> gives_key ssl c (clock_now os) k0 w k w')"
proof (cases "map_result os")
  case (Inr raw)
  note v = file_valid_end [OF os Inr]
  have "read_cert ssl os path k0 w = Inr (True, k, w', out) \<longleftrightarrow>
      0 \<le> open_result os \<and> 0 \<le> fstat_result os \<and> 0 < file_size os \<and>
      (\<exists>out'. out = out' @ [Unmap, CloseFile (open_result os)] \<and>
         accept_cert ssl raw (of_int (file_size os)) (clock_now os) path k0 w = Inr (True, k, w', out'))"
    by (cases "accept_cert ssl raw (of_int (file_size os)) (clock_now os) path k0 w") (auto simp: read_cert_def Let_def Inr)
  then show ?thesis unfolding accept_cert_iff [OF v(1)] v(2) by (auto simp: Inr)
qed (auto simp: read_cert_def Let_def)

end
