(* ===== verification/Key_Contents.thy ===== *)
theory Key_Contents
  imports Certificate_Check
begin

text \<open>
  What the OpenSSL objects hold, and what a signature means. \<open>openssl_ok\<close> only says which objects are
  allocated; \<open>openssl_contents\<close> adds what the documentation says of their contents: a key made of some bytes
  holds these bytes, a key made of parameters holds the numbers pushed as \<open>n\<close> and \<open>e\<close>, and a
  verification answers 1 only if the signature is valid for the key, the digest and the data.
  With it the keys of the server are the public keys of the certificates it was given.
\<close>

section \<open>Contents\<close>

datatype public_key = Raw_Public_Key key_type "byte list" | RSA_Public_Key nat nat

datatype obj =
    Public_Key public_key
  | Number nat
  | Parameters "(string \<times> nat option) list"
  | Digest_Context
  | Other_Object

text \<open>
  \<open>heap w\<close> maps the addresses of the allocated objects to what they hold. A constructor keeps the others;
  freeing an object removes it alone; a number is pushed behind the ones already there.
\<close>

definition new_object :: "('w \<Rightarrow> nat \<Rightarrow> obj option) \<Rightarrow> (obj \<Rightarrow> bool) \<Rightarrow> 'w \<Rightarrow> nat option \<times> 'w \<Rightarrow> bool" where
  "new_object heap P w r \<longleftrightarrow>
     heap w \<subseteq>\<^sub>m heap (snd r) \<and> (\<forall>a. fst r = Some a \<longrightarrow> (\<exists>x. heap (snd r) a = Some x \<and> P x))"

definition frees_only :: "('w \<Rightarrow> nat \<Rightarrow> obj option) \<Rightarrow> (ptr \<Rightarrow> 'w \<Rightarrow> 'w run) \<Rightarrow> bool" where
  "frees_only heap free \<longleftrightarrow>
     (\<forall>p w w'. p \<in> dom (heap w) \<longrightarrow> free (Addr p) w = Inr w' \<longrightarrow> heap w' = (heap w)(p := None))"

fun value_at :: "(nat \<Rightarrow> obj option) \<Rightarrow> nat option \<Rightarrow> nat option \<Rightarrow> bool" where
  "value_at h None v \<longleftrightarrow> v = None"
| "value_at h (Some a) v \<longleftrightarrow> (\<exists>n. h a = Some (Number n) \<and> v = Some n)"

definition pushes ::
    "('w \<Rightarrow> nat \<Rightarrow> obj option) \<Rightarrow> nat \<Rightarrow> string \<Rightarrow> nat option \<Rightarrow> 'w \<Rightarrow> int \<times> 'w \<Rightarrow> bool" where
  "pushes heap b name x w r \<longleftrightarrow>
     (\<forall>a. a \<noteq> b \<longrightarrow> heap (snd r) a = heap w a) \<and>
     (\<forall>ps v. fst r = 1 \<longrightarrow> heap w b = Some (Parameters ps) \<longrightarrow> value_at (heap w) x v \<longrightarrow>
        heap (snd r) b = Some (Parameters (ps @ [(name, v)])))"

definition key_from_params ::
    "('w \<Rightarrow> nat \<Rightarrow> obj option) \<Rightarrow> nat \<Rightarrow> 'w \<Rightarrow> int \<times> ptr \<times> 'w \<Rightarrow> bool" where
  "key_from_params heap params w = (\<lambda>(r, p, w').
     heap w \<subseteq>\<^sub>m heap w' \<and>
     (\<forall>a ps n e. r = 1 \<longrightarrow> p = Addr a \<longrightarrow> heap w params = Some (Parameters ps) \<longrightarrow>
        map_of ps ''n'' = Some (Some n) \<longrightarrow> map_of ps ''e'' = Some (Some e) \<longrightarrow>
        heap w' a = Some (Public_Key (RSA_Public_Key n e))))"

text \<open>
  A context that was initialised with a key and a digest verifies with these. \<open>EVP_DigestVerifyInit\<close>
  answers 1 or 0.
\<close>

definition verification ::
    "'w OpenSSL \<Rightarrow> ('w \<Rightarrow> nat \<Rightarrow> obj option) \<Rightarrow>
     (public_key \<Rightarrow> digest option \<Rightarrow> byte list \<Rightarrow> byte list \<Rightarrow> bool) \<Rightarrow> bool" where
  "verification ssl heap valid \<longleftrightarrow>
     (\<forall>c d k w r v. c \<in> dom (heap w) \<longrightarrow> k \<in> dom (heap w) \<longrightarrow>
        EVP_DigestVerifyInit ssl (Addr c) d (Addr k) w = Inr (r, v) \<longrightarrow>
        heap v = heap w \<and>
        (\<forall>sig data r' u m. r \<noteq> 0 \<longrightarrow> EVP_DigestVerify ssl (Addr c) sig data v = Inr (r', u) \<longrightarrow>
           heap w k = Some (Public_Key m) \<longrightarrow> r' = 1 \<longrightarrow> valid m d data sig)) \<and>
     (\<forall>c sig data w r w'. c \<in> dom (heap w) \<longrightarrow> EVP_DigestVerify ssl (Addr c) sig data w = Inr (r, w') \<longrightarrow>
        heap w' = heap w)"

definition openssl_contents ::
    "'w OpenSSL \<Rightarrow> ('w \<Rightarrow> nat \<Rightarrow> obj option) \<Rightarrow>
     (public_key \<Rightarrow> digest option \<Rightarrow> byte list \<Rightarrow> byte list \<Rightarrow> bool) \<Rightarrow> bool" where
  "openssl_contents ssl heap valid \<longleftrightarrow>
     openssl_ok ssl (\<lambda>w. dom (heap w)) \<and>
     (\<forall>kt bs w. new_object heap (\<lambda>x. x = Public_Key (Raw_Public_Key kt bs)) w (EVP_PKEY_new_raw_public_key ssl kt bs w)) \<and>
     (\<forall>w. new_object heap (\<lambda>x. x = Digest_Context) w (EVP_MD_CTX_new ssl w)) \<and>
     (\<forall>bs n w. new_object heap (\<lambda>x. \<exists>v. x = Number v \<and> (n = int (length bs) \<longrightarrow> v = be_val bs 0)) w (BN_bin2bn ssl bs n w)) \<and>
     (\<forall>w. new_object heap (\<lambda>x. x = Parameters []) w (OSSL_PARAM_BLD_new ssl w)) \<and>
     (\<forall>b name x w. pushes heap b name x w (OSSL_PARAM_BLD_push_BN ssl b name x w)) \<and>
     (\<forall>b w. new_object heap (\<lambda>x. \<forall>ps. heap w b = Some (Parameters ps) \<longrightarrow> x = Parameters ps) w
        (OSSL_PARAM_BLD_to_param ssl b w)) \<and>
     (\<forall>w. new_object heap (\<lambda>_. True) w (EVP_PKEY_CTX_new_id ssl w)) \<and>
     (\<forall>c w. heap (snd (EVP_PKEY_fromdata_init ssl c w)) = heap w) \<and>
     (\<forall>c d w r. EVP_PKEY_fromdata ssl c Null d w = Inr r \<longrightarrow> key_from_params heap d w r) \<and>
     verification ssl heap valid \<and>
     frees_only heap (EVP_PKEY_free ssl) \<and> frees_only heap (EVP_MD_CTX_free ssl) \<and>
     frees_only heap (EVP_PKEY_CTX_free ssl) \<and> frees_only heap (OSSL_PARAM_free ssl) \<and>
     frees_only heap (OSSL_PARAM_BLD_free ssl) \<and> frees_only heap (BN_free ssl)"

abbreviation live_in :: "('w \<Rightarrow> nat \<Rightarrow> obj option) \<Rightarrow> 'w \<Rightarrow> nat set" where
  "live_in heap \<equiv> \<lambda>w. dom (heap w)"

lemma openssl_contentsD:
  assumes "openssl_contents ssl heap valid"
  shows "openssl_ok ssl (live_in heap)"
    "new_object heap (\<lambda>x. x = Public_Key (Raw_Public_Key kt bs)) w (EVP_PKEY_new_raw_public_key ssl kt bs w)"
    "new_object heap (\<lambda>x. x = Digest_Context) w (EVP_MD_CTX_new ssl w)"
    "new_object heap (\<lambda>x. \<exists>v. x = Number v \<and> (n = int (length bs) \<longrightarrow> v = be_val bs 0)) w (BN_bin2bn ssl bs n w)"
    "new_object heap (\<lambda>x. x = Parameters []) w (OSSL_PARAM_BLD_new ssl w)"
    "pushes heap b name x w (OSSL_PARAM_BLD_push_BN ssl b name x w)"
    "new_object heap (\<lambda>x. \<forall>ps. heap w b = Some (Parameters ps) \<longrightarrow> x = Parameters ps) w (OSSL_PARAM_BLD_to_param ssl b w)"
    "new_object heap (\<lambda>_. True) w (EVP_PKEY_CTX_new_id ssl w)"
    "heap (snd (EVP_PKEY_fromdata_init ssl b w)) = heap w"
    "verification ssl heap valid"
  using assms by (simp_all add: openssl_contents_def)

lemma fromdata_contents:
  "openssl_contents ssl heap valid \<Longrightarrow> EVP_PKEY_fromdata ssl c Null d w = Inr r \<Longrightarrow> key_from_params heap d w r"
  by (cases r) (simp add: openssl_contents_def)

lemma openssl_frees:
  assumes "openssl_contents ssl heap valid"
  shows "frees_only heap (EVP_PKEY_free ssl)" "frees_only heap (EVP_MD_CTX_free ssl)"
    "frees_only heap (EVP_PKEY_CTX_free ssl)" "frees_only heap (OSSL_PARAM_free ssl)"
    "frees_only heap (OSSL_PARAM_BLD_free ssl)" "frees_only heap (BN_free ssl)"
  using assms by (simp_all add: openssl_contents_def)

section \<open>Making keys\<close>

lemma new_objectD:
  "new_object heap P w (p, w') \<Longrightarrow> heap w \<subseteq>\<^sub>m heap w'"
  "new_object heap P w (Some a, w') \<Longrightarrow> \<exists>x. heap w' a = Some x \<and> P x"
  by (auto simp: new_object_def)

lemma map_leD: "h \<subseteq>\<^sub>m h' \<Longrightarrow> h a = Some x \<Longrightarrow> h' a = Some x"
  by (metis domI map_le_def)

lemma map_le_dom_eq: "h \<subseteq>\<^sub>m h' \<Longrightarrow> a \<in> dom h \<Longrightarrow> h' a = h a"
  by (simp add: map_le_def)

lemma map_le_del: "h \<subseteq>\<^sub>m h' \<Longrightarrow> a \<notin> dom h \<Longrightarrow> h \<subseteq>\<^sub>m h'(a := None)"
  by (auto simp: map_le_def)

lemma frees_onlyD: "frees_only heap free \<Longrightarrow> free (Addr a) w = Inr w' \<Longrightarrow> a \<in> dom (heap w) \<Longrightarrow> heap w' = (heap w)(a := None)"
  unfolding frees_only_def by blast

lemma frees_new_only:
  "frees_only heap free \<Longrightarrow> free (Addr a) w = Inr w' \<Longrightarrow> a \<in> dom (heap w) \<Longrightarrow> a \<notin> dom h \<Longrightarrow>
   h \<subseteq>\<^sub>m heap w \<Longrightarrow> h \<subseteq>\<^sub>m heap w'"
  by (simp only: frees_onlyD) (rule map_le_del)

lemma free_opt_heap:
  "frees_only heap free \<Longrightarrow> set_option p \<subseteq> dom (heap w) \<Longrightarrow> free_opt free p w = Inr w' \<Longrightarrow>
   heap w' = heap w |` (- set_option p)"
  by (cases p) (auto simp: free_opt_def frees_only_def restrict_map_def fun_eq_iff)

lemma rsa_out_heap:
  assumes ok: "openssl_contents ssl heap valid" and d: "distinct (temps t)" "set (temps t) \<subseteq> dom (heap w)"
    and r: "rsa_out ssl t w = Inr w'"
  shows "heap w' = heap w |` (- set (temps t))"
proof -
  from r obtain w1 w2 w3 w4 where w:
    "free_opt (EVP_PKEY_CTX_free ssl) (t_ctx t) w = Inr w1" "free_opt (OSSL_PARAM_free ssl) (t_params t) w1 = Inr w2"
    "free_opt (OSSL_PARAM_BLD_free ssl) (t_build t) w2 = Inr w3" "free_opt (BN_free ssl) (t_exp t) w3 = Inr w4"
    "free_opt (BN_free ssl) (t_modulus t) w4 = Inr w'"
    by (auto simp: rsa_out_def check_ok_def split: sum.splits)
  note f = openssl_frees [OF ok]
  have disj: "set_option (t_params t) \<subseteq> dom (heap w) - set_option (t_ctx t)"
    "set_option (t_build t) \<subseteq> dom (heap w) - set_option (t_ctx t) - set_option (t_params t)"
    "set_option (t_exp t) \<subseteq> dom (heap w) - set_option (t_ctx t) - set_option (t_params t) - set_option (t_build t)"
    "set_option (t_modulus t) \<subseteq> dom (heap w) - set_option (t_ctx t) - set_option (t_params t)
       - set_option (t_build t) - set_option (t_exp t)"
    "set_option (t_ctx t) \<subseteq> dom (heap w)"
    using d by (auto simp: temps_def split: option.splits)
  note h1 = free_opt_heap [OF f(3) disj(5) w(1)]
  have h2: "heap w2 = heap w1 |` (- set_option (t_params t))"
    by (rule free_opt_heap [OF f(4) _ w(2)]) (use disj h1 in auto)
  have h3: "heap w3 = heap w2 |` (- set_option (t_build t))"
    by (rule free_opt_heap [OF f(5) _ w(3)]) (use disj h1 h2 in auto)
  have h4: "heap w4 = heap w3 |` (- set_option (t_exp t))"
    by (rule free_opt_heap [OF f(6) _ w(4)]) (use disj h1 h2 h3 in auto)
  have h5: "heap w' = heap w4 |` (- set_option (t_modulus t))"
    by (rule free_opt_heap [OF f(6) _ w(5)]) (use disj h1 h2 h3 h4 in auto)
  show ?thesis unfolding h5 h4 h3 h2 h1 restrict_restrict set_temps
    by (rule arg_cong [where f = "\<lambda>A. heap w |` A"]) auto
qed


text \<open>What a run up to the label \<open>out\<close> does to the heap, and the key it makes of two numbers.\<close>

lemma rsa_push_heap:
  assumes ok: "openssl_contents ssl heap valid" and r: "rsa_push ssl b m x w = (done', w')"
    and d: "m \<noteq> b" "x \<noteq> b"
  shows "\<forall>a. a \<noteq> b \<longrightarrow> heap w' a = heap w a"
    "done' \<Longrightarrow> heap w b = Some (Parameters []) \<Longrightarrow> heap w m = Some (Number n) \<Longrightarrow> heap w x = Some (Number e) \<Longrightarrow>
     heap w' b = Some (Parameters [(''n'', Some n), (''e'', Some e), (''d'', None)])"
proof -
  obtain r1 w1 where 1: "OSSL_PARAM_BLD_push_BN ssl b ''n'' (Some m) w = (r1, w1)" by fastforce
  obtain r2 w2 where 2: "OSSL_PARAM_BLD_push_BN ssl b ''e'' (Some x) w1 = (r2, w2)" by fastforce
  obtain r3 w3 where 3: "OSSL_PARAM_BLD_push_BN ssl b ''d'' None w2 = (r3, w3)" by fastforce
  note q = openssl_contentsD(6) [OF ok, of b "''n''" "Some m" w, unfolded 1 pushes_def]
    openssl_contentsD(6) [OF ok, of b "''e''" "Some x" w1, unfolded 2 pushes_def]
    openssl_contentsD(6) [OF ok, of b "''d''" None w2, unfolded 3 pushes_def]
  show "\<forall>a. a \<noteq> b \<longrightarrow> heap w' a = heap w a"
    using r q by (auto simp: rsa_push_def 1 2 3 split: if_splits)
  assume "done'" and h: "heap w b = Some (Parameters [])" "heap w m = Some (Number n)" "heap w x = Some (Number e)"
  with r have w': "w' = w3" "r1 = 1" "r2 = 1" "r3 = 1" by (auto simp: rsa_push_def 1 2 3 split: if_splits)
  have "heap w1 b = Some (Parameters [(''n'', Some n)])" "heap w1 x = Some (Number e)"
    using q(1) h w' d by auto
  moreover from this q(2) w' have "heap w2 b = Some (Parameters [(''n'', Some n), (''e'', Some e)])" by auto
  ultimately show "heap w' b = Some (Parameters [(''n'', Some n), (''e'', Some e), (''d'', None)])"
    using q(3) w' by auto
qed

definition rsa_heap_post ::
    "('w \<Rightarrow> nat \<Rightarrow> obj option) \<Rightarrow> nat \<Rightarrow> nat \<Rightarrow> 'w \<Rightarrow> ExtractCode \<times> rsa_temps \<times> PubKey \<times> 'w \<Rightarrow> bool" where
  "rsa_heap_post heap n e w = (\<lambda>(code, t, k, w').
     heap w \<subseteq>\<^sub>m heap w' \<and>
     (code = CERT_OK \<longrightarrow> (\<forall>a. pkey k = Addr a \<longrightarrow> heap w' a = Some (Public_Key (RSA_Public_Key n e))) \<and>
        (\<forall>a. md_ctx k = Addr a \<longrightarrow> heap w' a = Some Digest_Context)))"

lemma rsa_fromdata_heap:
  assumes ok: "openssl_contents ssl heap valid" and k: "pkey k = Null"
    and ps: "heap w params = Some (Parameters [(''n'', Some n), (''e'', Some e), (''d'', None)])"
    and r: "rsa_fromdata ssl t params k w = Inr (code, t', k', w')"
  shows "rsa_heap_post heap n e w (code, t', k', w')"
proof (cases "EVP_PKEY_CTX_new_id ssl w")
  case (Pair c w1)
  note l1 = openssl_contentsD(8) [OF ok, of w, unfolded Pair]
  show ?thesis
  proof (cases c)
    case None
    with r Pair new_objectD(1) [OF l1] show ?thesis by (auto simp: rsa_fromdata_def rsa_heap_post_def)
  next
    case (Some c)
    obtain i w2 where i: "EVP_PKEY_fromdata_init ssl c w1 = (i, w2)" by fastforce
    have h2: "heap w2 = heap w1" using openssl_contentsD(9) [OF ok, of c w1] i by simp
    have le: "heap w \<subseteq>\<^sub>m heap w2" using new_objectD(1) [OF l1] h2 by simp
    show ?thesis
    proof (cases "i = 1")
      case False
      with r Pair Some i le show ?thesis by (auto simp: rsa_fromdata_def rsa_heap_post_def Let_def)
    next
      case True
      then obtain j p w3 where f: "EVP_PKEY_fromdata ssl c Null params w2 = Inr (j, p, w3)"
        using r Pair Some i k by (cases "EVP_PKEY_fromdata ssl c Null params w2") (auto simp: rsa_fromdata_def Let_def)
      note kp = fromdata_contents [OF ok f, unfolded key_from_params_def split_conv]
      have post: "p = Null \<and> j \<noteq> 1 \<and> dom (heap w3) = dom (heap w2) \<or>
          (\<exists>a. p = Addr a \<and> a \<notin> dom (heap w2) \<and> dom (heap w3) = insert a (dom (heap w2)))"
        using safe_InrD [OF fromdata_safe [OF openssl_contentsD(1) [OF ok]] f] by simp
      have ps2: "heap w2 params = Some (Parameters [(''n'', Some n), (''e'', Some e), (''d'', None)])"
        by (rule map_leD [OF le ps])
      show ?thesis
      proof (cases "j = 1")
        case False
        then have "if p \<noteq> Null then EVP_PKEY_free ssl p w3 = Inr w' else w' = w3" and c: "code \<noteq> CERT_OK"
          using r Pair Some i k True f by (auto simp: rsa_fromdata_def Let_def check_ok_def split: sum.splits if_splits)
        then have "heap w2 \<subseteq>\<^sub>m heap w'"
          using post kp frees_new_only [OF openssl_frees(1) [OF ok]] by (cases p) (force split: if_splits)+
        with le c show ?thesis by (auto simp: rsa_heap_post_def intro: map_le_trans)
      next
        case j: True
        obtain m w4 where m: "EVP_MD_CTX_new ssl w3 = (m, w4)" by fastforce
        note l4 = new_objectD(1) [OF openssl_contentsD(3) [OF ok, of w3, unfolded m]]
          and ctx = openssl_contentsD(3) [OF ok, of w3, unfolded m new_object_def]
        have "code = (if m \<noteq> None then CERT_OK else INVALID_PUB_KEY)" "w' = w4" "pkey k' = p" "md_ctx k' = ptr_of m"
          using r Pair Some i k True f j m post by (auto simp: rsa_fromdata_def Let_def)
        moreover have "heap w3 a = Some (Public_Key (RSA_Public_Key n e))" if "p = Addr a" for a
          using kp j that ps2 by auto
        moreover have "heap w \<subseteq>\<^sub>m heap w4" using le kp l4 by (blast intro: map_le_trans)
        ultimately show ?thesis using l4 ctx
          by (auto simp: rsa_heap_post_def ptr_of_def intro: map_leD split: option.splits)
      qed
    qed
  qed
qed


lemma new_object_cases:
  assumes "allocates (live_in heap) w r" "new_object heap P w r"
  obtains (null) w' where "r = (None, w')" "heap w \<subseteq>\<^sub>m heap w'"
    | (new) a x w' where "r = (Some a, w')" "a \<notin> dom (heap w)" "heap w' a = Some x" "P x" "heap w \<subseteq>\<^sub>m heap w'"
  using assms by (cases r; cases "fst r") (auto simp: allocates_def new_object_def domIff)

lemma rsa_heap_post_fail: "code \<noteq> CERT_OK \<Longrightarrow> heap w \<subseteq>\<^sub>m heap w' \<Longrightarrow> rsa_heap_post heap n e w (code, t, k, w')"
  by (simp add: rsa_heap_post_def)

lemma rsa_heap_post_trans:
  "rsa_heap_post heap n e w' r \<Longrightarrow> heap w \<subseteq>\<^sub>m heap w' \<Longrightarrow> rsa_heap_post heap n e w r"
  by (cases r) (auto simp: rsa_heap_post_def intro: map_le_trans)

lemma rsa_try_heap:
  assumes ok: "openssl_contents ssl heap valid" and k: "pkey k = Null"
    and r: "rsa_try ssl nb ns eb es k w = Inr out"
  shows "\<exists>n e. rsa_heap_post heap n e w out \<and> (ns = int (length nb) \<longrightarrow> n = be_val nb 0) \<and>
    (es = int (length eb) \<longrightarrow> e = be_val eb 0)"
proof -
  note own = openssl_okD [OF openssl_contentsD(1) [OF ok]]
  have fail: ?thesis if "heap w \<subseteq>\<^sub>m heap v" "\<exists>t k'. out = (INVALID_PUB_KEY, t, k', v)" for v
    using that by (auto simp: rsa_heap_post_fail)
  show ?thesis
  proof (rule new_object_cases [OF own(3) openssl_contentsD(4) [OF ok], of nb ns w])
    fix w' assume z: "BN_bin2bn ssl nb ns w = (None, w')" "heap w \<subseteq>\<^sub>m heap w'"
    show ?thesis by (rule fail [OF z(2)]) (use r z in \<open>auto simp: rsa_try_def Let_def\<close>)
  next
    fix m x1 w1 assume m: "BN_bin2bn ssl nb ns w = (Some m, w1)" "m \<notin> dom (heap w)" "heap w1 m = Some x1"
      "\<exists>v. x1 = Number v \<and> (ns = int (length nb) \<longrightarrow> v = be_val nb 0)" "heap w \<subseteq>\<^sub>m heap w1"
    then obtain n where n: "heap w1 m = Some (Number n)" "ns = int (length nb) \<longrightarrow> n = be_val nb 0" by auto
    show ?thesis
    proof (rule new_object_cases [OF own(3) openssl_contentsD(4) [OF ok], of eb es w1])
      fix w' assume z: "BN_bin2bn ssl eb es w1 = (None, w')" "heap w1 \<subseteq>\<^sub>m heap w'"
      show ?thesis by (rule fail [OF map_le_trans [OF m(5) z(2)]]) (use r m z in \<open>auto simp: rsa_try_def Let_def\<close>)
    next
      fix y x2 w2 assume y: "BN_bin2bn ssl eb es w1 = (Some y, w2)" "y \<notin> dom (heap w1)" "heap w2 y = Some x2"
        "\<exists>v. x2 = Number v \<and> (es = int (length eb) \<longrightarrow> v = be_val eb 0)" "heap w1 \<subseteq>\<^sub>m heap w2"
      then obtain e where e: "heap w2 y = Some (Number e)" "es = int (length eb) \<longrightarrow> e = be_val eb 0" by auto
      have n2: "heap w2 m = Some (Number n)" using map_leD [OF y(5) n(1)] .
      show ?thesis
      proof (rule new_object_cases [OF own(4) openssl_contentsD(5) [OF ok], of w2])
        fix w' assume z: "OSSL_PARAM_BLD_new ssl w2 = (None, w')" "heap w2 \<subseteq>\<^sub>m heap w'"
        show ?thesis by (rule fail [OF map_le_trans [OF map_le_trans [OF m(5) y(5)] z(2)]]) (use r m y z in \<open>auto simp: rsa_try_def Let_def\<close>)
      next
        fix b x3 w3 assume b: "OSSL_PARAM_BLD_new ssl w2 = (Some b, w3)" "b \<notin> dom (heap w2)" "heap w3 b = Some x3"
          "x3 = Parameters []" "heap w2 \<subseteq>\<^sub>m heap w3"
        obtain d w4 where p: "rsa_push ssl b m y w3 = (d, w4)" by fastforce
        have ne: "m \<noteq> b" "y \<noteq> b" using b(2) n2 e(1) by auto
        have nums: "heap w3 m = Some (Number n)" "heap w3 y = Some (Number e)"
          using map_leD [OF b(5)] n2 e(1) by auto
        have "heap w2 \<subseteq>\<^sub>m heap w4"
          unfolding map_le_def using rsa_push_heap(1) [OF ok p ne] b(2,5) map_le_dom_eq by metis
        then have le: "heap w \<subseteq>\<^sub>m heap w4" using m(5) y(5) by (blast intro: map_le_trans)
        show ?thesis
        proof (cases d)
          case False
          show ?thesis by (rule fail [OF le]) (use r m y b p False in \<open>auto simp: rsa_try_def Let_def\<close>)
        next
          case True
          have ps: "heap w4 b = Some (Parameters [(''n'', Some n), (''e'', Some e), (''d'', None)])"
            by (rule rsa_push_heap(2) [OF ok p ne True]) (use b nums in auto)
          show ?thesis
          proof (rule new_object_cases [OF own(6) openssl_contentsD(7) [OF ok], of b w4])
            fix w' assume z: "OSSL_PARAM_BLD_to_param ssl b w4 = (None, w')" "heap w4 \<subseteq>\<^sub>m heap w'"
            show ?thesis by (rule fail [OF map_le_trans [OF le z(2)]]) (use r m y b p True le z in \<open>auto simp: rsa_try_def Let_def\<close>)
          next
            fix q x4 w5 assume q: "OSSL_PARAM_BLD_to_param ssl b w4 = (Some q, w5)" "heap w5 q = Some x4"
              "\<forall>ps. heap w4 b = Some (Parameters ps) \<longrightarrow> x4 = Parameters ps" "heap w4 \<subseteq>\<^sub>m heap w5"
            let ?t = "\<lparr>t_modulus = Some m, t_exp = Some y, t_build = Some b, t_params = Some q, t_ctx = None\<rparr>"
            have "rsa_fromdata ssl ?t q k w5 = Inr out"
              using r m y b p True q by (simp add: rsa_try_def Let_def no_temps_def)
            then have "rsa_heap_post heap n e w5 out"
              by (cases out) (use rsa_fromdata_heap [OF ok k] q ps in auto)
            then have "rsa_heap_post heap n e w out"
              by (rule rsa_heap_post_trans) (rule map_le_trans [OF le q(4)])
            with n e show ?thesis by blast
          qed
        qed
      qed
    qed
  qed
qed

text \<open>Behind the label \<open>out\<close> only the key and its digest context are left.\<close>

lemma rsa_run_heap:
  assumes ok: "openssl_contents ssl heap valid" and k: "pkey k = Null"
    and r: "rsa_try ssl nb ns eb es k w = Inr (code, t, k', v)" "rsa_out ssl t v = Inr w'"
  shows "heap w \<subseteq>\<^sub>m heap w'"
    "code = CERT_OK \<Longrightarrow> \<exists>a b n e. pkey k' = Addr a \<and> heap w' a = Some (Public_Key (RSA_Public_Key n e)) \<and>
       md_ctx k' = Addr b \<and> heap w' b = Some Digest_Context \<and> (ns = int (length nb) \<longrightarrow> n = be_val nb 0) \<and> (es = int (length eb) \<longrightarrow> e = be_val eb 0)"
proof -
  from safe_InrD [OF rsa_try_safe [OF openssl_contentsD(1) [OF ok] k] r(1)] obtain ks where
    d: "distinct (temps t @ ks)" "set (temps t @ ks) \<inter> dom (heap w) = {}"
      "dom (heap v) = dom (heap w) \<union> set (temps t @ ks)"
      "code = CERT_OK \<longrightarrow> (\<exists>a b. ks = [a, b] \<and> pkey k' = Addr a \<and> md_ctx k' = Addr b)"
    unfolding rsa_post_def by (auto split: if_splits)
  have o: "heap w' = heap v |` (- set (temps t))" by (rule rsa_out_heap [OF ok _ _ r(2)]) (use d in auto)
  from rsa_try_heap [OF ok k r(1)] obtain n e where
    p: "rsa_heap_post heap n e w (code, t, k', v)" "ns = int (length nb) \<longrightarrow> n = be_val nb 0"
      "es = int (length eb) \<longrightarrow> e = be_val eb 0" by blast
  have "heap w \<subseteq>\<^sub>m heap v" using p(1) by (simp add: rsa_heap_post_def)
  moreover have "a \<notin> set (temps t)" if "a \<in> dom (heap w)" for a using d(2) that by auto
  ultimately show "heap w \<subseteq>\<^sub>m heap w'"
    unfolding o map_le_def by (simp add: restrict_map_def)
  assume c: "code = CERT_OK"
  with d obtain a b where "ks = [a, b]" "pkey k' = Addr a" "md_ctx k' = Addr b" by blast
  moreover from this p(1) c have "heap v a = Some (Public_Key (RSA_Public_Key n e))" "heap v b = Some Digest_Context"
    by (simp_all add: rsa_heap_post_def)
  ultimately show "\<exists>a b n e. pkey k' = Addr a \<and> heap w' a = Some (Public_Key (RSA_Public_Key n e)) \<and>
       md_ctx k' = Addr b \<and> heap w' b = Some Digest_Context \<and> (ns = int (length nb) \<longrightarrow> n = be_val nb 0) \<and> (es = int (length eb) \<longrightarrow> e = be_val eb 0)"
    using p d(1) unfolding o by (auto simp: restrict_map_def)
qed


section \<open>The key of a certificate\<close>

text \<open>
  The public key of a certificate and the digest it signs with. The sizes of the two numbers of an RSA
  key are passed to OpenSSL as an \<open>int\<close>: of the exponent nothing is said if it has \<open>2 ^ 31\<close> bytes or more.
\<close>

definition certificate_key :: "certificate \<Rightarrow> public_key \<Rightarrow> digest option \<Rightarrow> bool" where
  "certificate_key c m d \<longleftrightarrow>
     fst (c_key_alg c) = ed25519_oid \<and> m = Raw_Public_Key EVP_PKEY_ED25519 (c_key c) \<and> d = None \<or>
     fst (c_key_alg c) = ed448_oid \<and> m = Raw_Public_Key EVP_PKEY_ED448 (c_key c) \<and> d = None \<or>
     fst (c_key_alg c) = rsa_oid \<and> d \<noteq> None \<and> d = rsa_digest_of (fst (c_sig_alg c)) \<and>
     (\<exists>n e rest x. c_key c = der_tlv DER_SEQUENCE (der_tlv DER_INTEGER n @ der_tlv DER_INTEGER e) @ rest \<and>
        m = RSA_Public_Key (be_val n 0) x \<and> (length e < 2 ^ 31 \<longrightarrow> x = be_val e 0))"

definition holds_key :: "(nat \<Rightarrow> obj option) \<Rightarrow> PubKey \<Rightarrow> public_key \<Rightarrow> bool" where
  "holds_key h k m \<longleftrightarrow>
     (\<exists>a b. pkey k = Addr a \<and> h a = Some (Public_Key m) \<and> md_ctx k = Addr b \<and> h b = Some Digest_Context)"

lemma holds_key_mono: "holds_key h k m \<Longrightarrow> h \<subseteq>\<^sub>m h' \<Longrightarrow> holds_key h' k m"
  by (auto simp: holds_key_def intro: map_leD)

lemma holds_key_expiry [simp]: "holds_key h (k\<lparr>expiry := t\<rparr>) m = holds_key h k m"
  by (simp add: holds_key_def)

lemma c_int_small:
  assumes "n < 2 ^ 31"
  shows "c_int (of_nat n) = int n"
proof -
  have "(ucast (of_nat n :: uinta) :: 32 word) = of_nat (unat (of_nat n :: uinta))"
    by (metis of_nat_unat)
  also have "unat (of_nat n :: uinta) = n" using assms by (intro unat_of_nat_small) simp
  finally have "(ucast (of_nat n :: uinta) :: 32 word) = of_nat n" .
  moreover have "sint (of_nat n :: 32 word) = signed_take_bit 31 (int n)"
    by (simp add: signed_of_nat)
  moreover have "signed_take_bit 31 (int n) = int n" 
    using assms by (intro signed_take_bit_int_eq_self) simp_all
  ultimately show ?thesis by (simp add: c_int_def)
qed


lemma ed_extract_heap:
  assumes ok: "openssl_contents ssl heap valid"
    and r: "ed_extract ssl raw f kt k w = Inr (code, k', w')"
  shows "heap w \<subseteq>\<^sub>m heap w'"
proof -
  note new = openssl_contentsD(2) [OF ok, of kt _ w, unfolded new_object_def]
    and ctx = openssl_contentsD(3) [OF ok, unfolded new_object_def]
  show "heap w \<subseteq>\<^sub>m heap w'"
    using r new ctx map_le_trans [OF conjunct1 [OF new] conjunct1 [OF ctx]]
    by (auto simp: ed_extract_def Let_def if_fail case_prod_unfold split: if_splits option.splits)
qed

lemma rsa_fromdata_md: "rsa_fromdata ssl t p k w = Inr (c, t', k', w') \<Longrightarrow> md k' = md k"
  by (auto simp: rsa_fromdata_def Let_def case_prod_unfold split: option.splits if_splits)

lemma rsa_try_md: "rsa_try ssl n ns e es k w = Inr (c, t, k', w') \<Longrightarrow> md k' = md k"
  by (auto simp: rsa_try_def Let_def dest: rsa_fromdata_md split: prod.splits option.splits if_splits)

lemma rsa_extract_heap:
  assumes ok: "openssl_contents ssl heap valid" and k: "pkey k = Null"
    and r: "rsa_extract ssl raw f k w = Inr (code, k', w')"
  shows "heap w \<subseteq>\<^sub>m heap w'"
proof -
  have run: "heap w \<subseteq>\<^sub>m heap w'"
    if "rsa_try ssl nb ns eb es (k\<lparr>md := d, exp_sig_size := n\<rparr>) w = Inr (c, t, k1, v)" "rsa_out ssl t v = Inr w'"
    for nb ns eb es d n c t k1 v
    by (rule rsa_run_heap(1) [OF ok _ that]) (use k in simp)
  obtain idx where i: "rsa_params_end raw f = Inr idx"
    using r by (cases "rsa_params_end raw f") (auto simp: rsa_extract_def)
  show ?thesis
  proof (cases "idx = pub_key_id_end f")
    case False
    with r i show ?thesis by (simp add: rsa_extract_def)
  next
    case True
    with r i obtain d where d: "rsa_digest raw f = Inr d"
      by (cases "rsa_digest raw f") (auto simp: rsa_extract_def)
    show ?thesis
    proof (cases "(d = None)")
      case None: True
      with r i d True show ?thesis by (simp add: rsa_extract_def)
    next
      case False
      then obtain dg where dg: "d = Some dg" by blast
      with r i True d obtain q where q: "catch (rsa_integers raw f) = Inr q"
        by (cases "catch (rsa_integers raw f)") (auto simp: rsa_extract_def Let_def)
      show ?thesis
      proof (cases q)
        case (Inl c)
        with r i True d dg q show ?thesis by (simp add: rsa_extract_def)
      next
        case (Inr x)
        with r i True d dg q show ?thesis
          by (cases x) (auto simp: rsa_extract_def Let_def if_fail dest: run split: option.splits)
      qed
    qed
  qed
qed

section \<open>Extraction and the self-signature\<close>

lemma c_key_small:
  assumes "describes raw c f"
  shows "length (c_key c) < 2 ^ 64"
proof -
  have "c_key c = slice raw (pub_key_start f) (pub_key_end f)" using assms by (simp add: describes_def describes_core_def)
  then have "length (c_key c) \<le> unat (pub_key_end f)" by (simp add: slice_def)
  then show ?thesis using unsigned_less [of "pub_key_end f", where 'a = nat] by simp
qed

lemma rsa_sig_size_cases: "rsa_sig_size n = Some s \<Longrightarrow> unat n < 2 ^ 31"
  by (auto simp: rsa_sig_size_def split: if_splits)

lemma key_made_holds:
  assumes ok: "openssl_contents ssl heap valid" and m: "key_made ssl c k0 w k w'"
    and k0: "fst (c_key_alg c) = rsa_oid \<Longrightarrow> pkey k0 = Null" and l: "length (c_key c) < 2 ^ 64"
  shows "\<exists>m. holds_key (heap w') k m \<and> certificate_key c m (md k)"
proof -
  have ed: "holds_key (heap w') k (Raw_Public_Key kt (c_key c)) \<and> md k = None" if "ed_key_made ssl kt c k1 w k w'" for kt k1
  proof -
    from that obtain p v m where n: "EVP_PKEY_new_raw_public_key ssl kt (c_key c) w = (Some p, v)"
      "EVP_MD_CTX_new ssl v = (Some m, w')" "pkey k = Addr p" "md_ctx k = Addr m" "md k = None" by (auto simp: ed_key_made_def)
    have "heap v p = Some (Public_Key (Raw_Public_Key kt (c_key c)))"
      using openssl_contentsD(2) [OF ok, of kt "c_key c" w] by (simp add: n new_object_def)
    moreover have "heap v \<subseteq>\<^sub>m heap w'" "heap w' m = Some Digest_Context"
      using openssl_contentsD(3) [OF ok, of v] by (simp_all add: n new_object_def)
    ultimately show ?thesis using n by (auto simp: holds_key_def intro: map_leD)
  qed
  show ?thesis
  proof (cases "fst (c_key_alg c) = rsa_oid")
    case False
    with m ed show ?thesis by (auto simp: key_made_def certificate_key_def Let_def)
  next
    case True
    with m have "rsa_key_made ssl c (k0\<lparr>alg_idx := 2\<rparr>) w k w'"
      by (auto simp: key_made_def Let_def ed25519_oid_def ed448_oid_def rsa_oid_def)
    then obtain d n e rest size t v where
      1: "rsa_digest_of (fst (c_sig_alg c)) = Some d"
        "c_key c = der_tlv DER_SEQUENCE (der_tlv DER_INTEGER n @ der_tlv DER_INTEGER e) @ rest"
        "rsa_sig_size (of_nat (length n)) = Some size"
      and t: "rsa_try ssl n (c_int (of_nat (length n))) e (c_int (of_nat (length e)))
          (k0\<lparr>alg_idx := 2, md := Some d, exp_sig_size := size\<rparr>) w = Inr (CERT_OK, t, k, v)"
        "rsa_out ssl t v = Inr w'" by (auto simp: rsa_key_made_def)
    have "length n \<le> length (c_key c)" unfolding 1(2) by (simp add: der_tlv_def)
    then have n: "length n < 2 ^ 31"
      using rsa_sig_size_cases [OF 1(3)] l by (simp add: unat_of_nat_small)
    from rsa_run_heap(2) [OF ok _ t] k0 [OF True] obtain a b x y where
      a: "pkey k = Addr a" "heap w' a = Some (Public_Key (RSA_Public_Key x y))"
        "md_ctx k = Addr b" "heap w' b = Some Digest_Context"
        "c_int (of_nat (length n)) = int (length n) \<longrightarrow> x = be_val n 0"
        "c_int (of_nat (length e)) = int (length e) \<longrightarrow> y = be_val e 0" by auto
    have "md k = Some d" using rsa_try_md [OF t(1)] by simp
    moreover have "x = be_val n 0" "length e < 2 ^ 31 \<longrightarrow> y = be_val e 0" using a(5,6) n c_int_small by auto
    ultimately have "certificate_key c (RSA_Public_Key x y) (md k)"
      using 1(1,2) True unfolding certificate_key_def by auto
    with a(1-4) show ?thesis by (auto simp: holds_key_def)
  qed
qed

lemma openssl_verify_contents:
  assumes ok: "openssl_contents ssl heap valid" and k: "owns (live_in heap) w k"
    and r: "openssl_verify ssl k data sig w = Inr (b, w')"
  shows "heap w' = heap w" "b \<Longrightarrow> holds_key (heap w) k m \<Longrightarrow> valid m (md k) data sig"
proof -
  from k obtain a c where ac: "pkey k = Addr a" "md_ctx k = Addr c" "a \<in> dom (heap w)" "c \<in> dom (heap w)"
    by (auto simp: owns_def)
  note vf = openssl_contentsD(10) [OF ok, unfolded verification_def]
  have init: "heap v = heap w \<and> (\<forall>m. i \<noteq> 0 \<longrightarrow> EVP_DigestVerify ssl (Addr c) sig data v = Inr (1, u) \<longrightarrow>
      heap w a = Some (Public_Key m) \<longrightarrow> valid m (md k) data sig)"
    if "EVP_DigestVerifyInit ssl (Addr c) (md k) (Addr a) w = Inr (i, v)" for i v u
    using vf ac that by metis
  have run: "heap u = heap w" if "EVP_DigestVerifyInit ssl (Addr c) (md k) (Addr a) w = Inr (i, v)"
    "EVP_DigestVerify ssl (Addr c) sig data v = Inr (j, u)" for i j u v
    using vf ac that by metis
  show "heap w' = heap w"
    using r ac by (auto simp: openssl_verify_def if_fail dest: init run split: if_splits)
  assume b: b and h: "holds_key (heap w) k m"
  then have "heap w a = Some (Public_Key m)" using ac by (simp add: holds_key_def)
  with r b ac show "valid m (md k) data sig"
    by (auto simp: openssl_verify_def if_fail dest: init split: if_splits)
qed


lemma openssl_free_heap:
  assumes ok: "openssl_contents ssl heap valid" and k: "owns (live_in heap) w k"
    and h: "h \<subseteq>\<^sub>m heap w" "key_objs k \<inter> dom h = {}" and r: "openssl_free ssl k w = Inr w'"
  shows "h \<subseteq>\<^sub>m heap w'"
proof -
  from k obtain a b where ab: "pkey k = Addr a" "md_ctx k = Addr b" "a \<noteq> b" "a \<in> dom (heap w)" "b \<in> dom (heap w)"
    by (auto simp: owns_def)
  with h(2) have n: "a \<notin> dom h" "b \<notin> dom h" by (auto simp: key_objs_def)
  from r ab obtain v where v: "EVP_PKEY_free ssl (Addr a) w = Inr v" "EVP_MD_CTX_free ssl (Addr b) v = Inr w'"
    by (auto simp: openssl_free_def if_fail)
  have "heap v = (heap w)(a := None)" by (rule frees_onlyD [OF openssl_frees(1) [OF ok] v(1) ab(4)])
  then have b: "b \<in> dom (heap v)" using ab by simp
  show ?thesis
    using frees_new_only [OF openssl_frees(2) [OF ok] v(2) b n(2)]
      frees_new_only [OF openssl_frees(1) [OF ok] v(1) ab(4) n(1) h(1)] by blast
qed

lemma pub_key_extract_heap:
  assumes ok: "openssl_contents ssl heap valid" and v: "valid_end raw sz" and f: "fields_ok raw sz f"
    and k: "slot_fits raw f k0" and r: "pub_key_extract ssl raw f k0 w = Inr (code, k, w')"
  shows "heap w \<subseteq>\<^sub>m heap w'"
proof -
  have ed: "heap w \<subseteq>\<^sub>m heap w'" if "ed_extract ssl raw f kt k1 w = Inr (code, k, w')" for kt k1
    by (rule ed_extract_heap [OF ok that])
  have rs: "heap w \<subseteq>\<^sub>m heap w'" if "rsa_extract ssl raw f k1 w = Inr (code, k, w')" "pkey k1 = Null" for k1
    by (rule rsa_extract_heap [OF ok that(2,1)])
  show ?thesis
    using r k by (auto simp: pub_key_extract_def find_alg_valid [OF v f] ed25519_def ed448_def rsa_def slot_fits_def
        ed25519_extract_def ed448_extract_def dest: ed rs split: if_splits)
qed

lemma extract_self_sign_heap:
  assumes ok: "openssl_contents ssl heap valid" and v: "valid_end raw sz" and f: "fields_ok raw sz f"
    and k: "self_sign_ok raw f now \<Longrightarrow> slot_fits raw f k0" and r: "extract_self_sign_for_code_sign ssl raw f now k0 w = Inr (code, k, w')"
  shows "heap w \<subseteq>\<^sub>m heap w'"
    "code = CERT_OK \<Longrightarrow> describes raw c f \<Longrightarrow> \<exists>m. holds_key (heap w') k m \<and> certificate_key c m (md k) \<and>
       valid m (md k) (tbs_bytes c) (c_signature c)"
proof -
  obtain cc where cc: "check_self_sign raw f now = Inr cc" and sok: "cc = CERT_OK \<longleftrightarrow> self_sign_ok raw f now"
    by (rule check_self_sign_valid [OF v f, of now])
  note rg = fields_ok_ranges [OF f v]
  let ?data = "slice raw (signed_data_start f) (signed_data_end f)" and ?sig = "slice raw (sig_start f) (sig_end f)"
  have "heap w \<subseteq>\<^sub>m heap w' \<and> (code = CERT_OK \<longrightarrow> describes raw c f \<longrightarrow> (\<exists>m. holds_key (heap w') k m \<and>
      certificate_key c m (md k) \<and> valid m (md k) (tbs_bytes c) (c_signature c)))"
  proof (cases "cc = CERT_OK")
    case False
    with r cc show ?thesis by (auto simp: extract_self_sign_for_code_sign_def)
  next
    case True
    with r cc obtain c1 k1 w1 where e: "pub_key_extract ssl raw f k0 w = Inr (c1, k1, w1)"
      by (auto simp: extract_self_sign_for_code_sign_def if_fail)
    have k: "slot_fits raw f k0" using k sok True by simp
    note le = pub_key_extract_heap [OF ok v f k e]
    show ?thesis
    proof (cases "c1 = CERT_OK")
      case False
      with r cc True e le show ?thesis by (auto simp: extract_self_sign_for_code_sign_def)
    next
      case c1: True
      from safe_InrD [OF pub_key_extract_safe [OF openssl_contentsD(1) [OF ok] v f k] e] c1
      have k1: "owns (live_in heap) w1 k1" "key_objs k1 \<inter> dom (heap w) = {}" "alg_idx k1 < 3"
        by (auto simp: extract_post_def)
      from r cc True e c1 pub_key_free_openssl [OF k1(3), of ssl] obtain b w2 where b: "openssl_verify ssl k1 ?data ?sig w1 = Inr (b, w2)"
        "if b then code = CERT_OK \<and> k = k1\<lparr>expiry := not_after f\<rparr> \<and> w' = w2
         else code = INVALID_SIG \<and> openssl_free ssl k1 w2 = Inr w'"
        by (simp add: extract_self_sign_for_code_sign_def rd_bytes_slice rg if_fail pub_key_verify_openssl [OF k1(3)])
          (auto split: if_splits)
      note ver = openssl_verify_contents [OF ok k1(1) b(1)]
      show ?thesis
      proof (cases b)
        case False
        have "owns (live_in heap) w2 k1" using k1(1) ver(1) by (simp add: owns_def)
        from openssl_free_heap [OF ok this _ k1(2)] le ver(1) b False show ?thesis by simp
      next
        case True
        have "\<exists>m. holds_key (heap w') k m \<and> certificate_key c m (md k) \<and> valid m (md k) (tbs_bytes c) (c_signature c)"
          if d: "describes raw c f"
        proof -
          from e c1 have "key_made ssl c k0 w k1 w1" unfolding pub_key_extract_iff [OF v f d, symmetric] by simp
          moreover have "pkey k0 = Null" if "fst (c_key_alg c) = rsa_oid"
            using k that d by (simp add: slot_fits_def key_oid_def describes_def describes_core_def)
          ultimately obtain m where m: "holds_key (heap w1) k1 m" "certificate_key c m (md k1)"
            using key_made_holds [OF ok _ _ c_key_small [OF d]] by blast
          have "?data = tbs_bytes c" "?sig = c_signature c" using d by (simp_all add: describes_def describes_core_def)
          with ver(2) [OF True m(1)] m ver(1) b(2) True show ?thesis
            by (auto simp: holds_key_def intro!: exI [of _ m])
        qed
        with le ver(1) b True show ?thesis by simp
      qed
    qed
  qed
  then show "heap w \<subseteq>\<^sub>m heap w'"
    "code = CERT_OK \<Longrightarrow> describes raw c f \<Longrightarrow> \<exists>m. holds_key (heap w') k m \<and> certificate_key c m (md k) \<and>
       valid m (md k) (tbs_bytes c) (c_signature c)" by blast+
qed


text \<open>
  A library that does not fail accepts every valid signature. \<open>openssl_contents\<close> does not say this:
  a verification may run out of memory.
\<close>

definition openssl_accepts ::
    "'w OpenSSL \<Rightarrow> ('w \<Rightarrow> nat \<Rightarrow> obj option) \<Rightarrow>
     (public_key \<Rightarrow> digest option \<Rightarrow> byte list \<Rightarrow> byte list \<Rightarrow> bool) \<Rightarrow> bool" where
  "openssl_accepts ssl heap valid \<longleftrightarrow>
     (\<forall>c d k w m data sig. heap w c = Some Digest_Context \<longrightarrow> heap w k = Some (Public_Key m) \<longrightarrow> valid m d data sig \<longrightarrow>
        (\<exists>i v u. EVP_DigestVerifyInit ssl (Addr c) d (Addr k) w = Inr (i, v) \<and> i \<noteq> 0 \<and>
           EVP_DigestVerify ssl (Addr c) sig data v = Inr (1, u)))"

lemma openssl_verify_accepts:
  assumes "openssl_accepts ssl heap valid" "holds_key (heap w) k m" "valid m (md k) data sig"
    and "of_nat (length sig) = exp_sig_size k"
  shows "\<exists>u. openssl_verify ssl k data sig w = Inr (True, u)"
proof -
  from assms(2) obtain a c where ac: "pkey k = Addr a" "heap w a = Some (Public_Key m)"
    "md_ctx k = Addr c" "heap w c = Some Digest_Context" by (auto simp: holds_key_def)
  with assms(1,3) obtain i v u where "EVP_DigestVerifyInit ssl (Addr c) (md k) (Addr a) w = Inr (i, v)" "i \<noteq> 0"
    "EVP_DigestVerify ssl (Addr c) sig data v = Inr (1, u)" unfolding openssl_accepts_def by blast
  with ac(1,3) assms(4) show ?thesis by (auto simp: openssl_verify_def)
qed

end
