(* ===== verification/Signed_Scripts.thy ===== *)
theory Signed_Scripts
  imports Key_Contents
begin

text \<open>
  The server over a library whose objects have contents: the keys it loads hold the public keys of the
  certificates in its files, no event changes what they hold, and the scripts it runs carry valid signatures.
\<close>

section \<open>Reading certificates\<close>

text \<open>A file that holds a certificate which may sign code, is validly signed with its own key, and has that key.\<close>

definition file_key ::
    "(public_key \<Rightarrow> digest option \<Rightarrow> byte list \<Rightarrow> byte list \<Rightarrow> bool) \<Rightarrow> cert_file \<Rightarrow> int \<Rightarrow> public_key \<Rightarrow> digest option \<Rightarrow> bool" where
  "file_key valid os expires m d \<longleftrightarrow>
     (\<exists>c. map_result os = Inr (certificate_bytes c) \<and> certificate_ok c \<and> signs_code c (clock_now os) \<and>
        certificate_key c m d \<and> valid m d (tbs_bytes c) (c_signature c) \<and> expires = secs_read (c_until c))"

lemma accept_cert_heap:
  assumes ok: "openssl_contents ssl heap valid" and os: "cert_file_ok os" "map_result os = Inr raw"
    and k: "\<And>f. parse_x509 raw (of_int (file_size os)) zero_fields = Inr f \<Longrightarrow>
      self_sign_ok raw f (clock_now os) \<Longrightarrow> slot_fits raw f k0"
    and r: "accept_cert ssl raw (of_int (file_size os)) (clock_now os) path k0 w = Inr (b, k, w', out)"
  shows "heap w \<subseteq>\<^sub>m heap w'" "b \<Longrightarrow> \<exists>m. holds_key (heap w') k m \<and> file_key valid os (expiry k) m (md k)"
proof -
  note v = file_valid_end [OF os]
  have le: "heap w \<subseteq>\<^sub>m heap w' \<and> (b \<longrightarrow> (\<exists>m. holds_key (heap w') k m \<and> file_key valid os (expiry k) m (md k)))"
  proof (cases "parse_x509 raw (of_int (file_size os)) zero_fields")
    case (Inl e)
    with r show ?thesis by (cases e) (auto simp: accept_cert_def catch_def)
  next
    case (Inr f)
    note fs = safe_InrD [OF parse_x509_safe [OF v(1)] Inr]
    from r Inr obtain code where e: "extract_self_sign_for_code_sign ssl raw f (clock_now os) k0 w = Inr (code, k, w')"
      "b \<longleftrightarrow> code = CERT_OK" by (auto simp: accept_cert_def catch_def if_fail)
    note h = extract_self_sign_heap [OF ok v(1) fs k [OF Inr] e(1)]
    from parse_x509_is_certificate [OF v(1) Inr] obtain c where
      c: "certificate_ok c" "slice raw 0 (of_int (file_size os)) = certificate_bytes c" "describes raw c f" .
    have "file_key valid os (expiry k) m (md k)"
      if b and m: "certificate_key c m (md k)" "valid m (md k) (tbs_bytes c) (c_signature c)" for m
    proof -
      from e that have "gives_key ssl c (clock_now os) k0 w k w'"
        unfolding extract_self_sign_iff [OF v(1) fs c(3), symmetric] by simp
      then have "signs_code c (clock_now os)" "expiry k = secs_read (c_until c)" by (auto simp: gives_key_def)
      with m c v(2) os(2) show ?thesis by (auto simp: file_key_def)
    qed
    with h c(3) e(2) show ?thesis by blast
  qed
  then show "heap w \<subseteq>\<^sub>m heap w'" "b \<Longrightarrow> \<exists>m. holds_key (heap w') k m \<and> file_key valid os (expiry k) m (md k)"
    by blast+
qed

lemma read_cert_heap:
  assumes ok: "openssl_contents ssl heap valid" and os: "cert_file_ok os" "slot_reads os k0"
    and r: "read_cert ssl os path k0 w = Inr (b, k, w', out)"
  shows "heap w \<subseteq>\<^sub>m heap w'" "b \<Longrightarrow> \<exists>m. holds_key (heap w') k m \<and> file_key valid os (expiry k) m (md k)"
proof -
  have "heap w \<subseteq>\<^sub>m heap w' \<and> (b \<longrightarrow> (\<exists>m. holds_key (heap w') k m \<and> file_key valid os (expiry k) m (md k)))"
  proof (cases "open_result os < 0 \<or> fstat_result os < 0 \<or> file_size os \<le> 0 \<or> (\<exists>e. map_result os = Inl e)")
    case True
    with r show ?thesis by (auto simp: read_cert_def Let_def split: if_splits)
  next
    case False
    then obtain raw where raw: "map_result os = Inr raw" by (cases "map_result os") auto
    with False r obtain out' where
      "accept_cert ssl raw (of_int (file_size os)) (clock_now os) path k0 w = Inr (b, k, w', out')"
      by (auto simp: read_cert_def Let_def if_fail split: if_splits)
    with accept_cert_heap [OF ok os(1) raw _ this] os(2) raw show ?thesis by (auto simp: slot_reads_def)
  qed
  then show "heap w \<subseteq>\<^sub>m heap w'" "b \<Longrightarrow> \<exists>m. holds_key (heap w') k m \<and> file_key valid os (expiry k) m (md k)"
    by blast+
qed

section \<open>Loading\<close>

text \<open>Every key in use holds the public key of a certificate in one of the files.\<close>

definition keys_from ::
    "(public_key \<Rightarrow> digest option \<Rightarrow> byte list \<Rightarrow> byte list \<Rightarrow> bool) \<Rightarrow>
     cert_file set \<Rightarrow> PubKey set \<Rightarrow> (nat \<Rightarrow> obj option) \<Rightarrow> bool" where
  "keys_from valid F K h \<longleftrightarrow>
     (\<forall>k\<in>K. \<exists>m. holds_key h k m \<and> (\<exists>os\<in>F. file_key valid os (expiry k) m (md k)))"

lemma keys_from_mono: "keys_from valid F K h \<Longrightarrow> h \<subseteq>\<^sub>m h' \<Longrightarrow> keys_from valid F K h'"
  unfolding keys_from_def by (meson holds_key_mono)

lemma read_key_heap:
  assumes ok: "openssl_contents ssl heap valid" and F: "os \<in> F" "cert_file_ok os"
    and slot: "\<And>ks. keys (res s) = Some ks \<Longrightarrow> slot_reads os (ks ! unat (keys_size (res s)))"
    and lt: "unat (keys_size (res s)) < unat (keys_cap (res s))"
    and k: "keys_from valid F (loaded_keys s) (heap (lib s))"
    and r: "read_key ssl os path (unat (keys_size (res s))) s = Inr (b, s')"
  shows "keys_from valid F (loaded_keys s') (heap (lib s'))"
proof -
  let ?n = "unat (keys_size (res s))"
  from r obtain ks where ks: "keys (res s) = Some ks" "?n < length ks"
    by (auto simp: read_key_def split: option.splits if_splits)
  from r ks obtain k w out where rc: "read_cert ssl os path (ks ! ?n) (lib s) = Inr (b, k, w, out)"
    and s': "lib s' = w" "keys (res s') = Some (ks[?n := k])"
      "keys_size (res s') = (if b then keys_size (res s) + 1 else keys_size (res s))"
    by (auto simp: read_key_def if_fail Let_def not_le)
  note h = read_cert_heap [OF ok F(2) slot [OF ks(1)] rc]
  have old: "loaded_keys s = set (take ?n ks)" by (simp add: loaded_keys_def ks(1))
  have "unat (keys_size (res s) + 1) = ?n + 1"
    using lt by (intro unat_add1 [where e = "keys_cap (res s)"]) (simp add: word_less_nat_alt)
  moreover have "take (?n + 1) (ks[?n := k]) = take ?n ks @ [k]" using ks(2) by (simp add: take_Suc_conv_app_nth)
  ultimately have new: "loaded_keys s' = (if b then insert k (loaded_keys s) else loaded_keys s)"
    by (simp add: loaded_keys_def s' ks(1))
  have "keys_from valid F (loaded_keys s) (heap w)" by (rule keys_from_mono [OF k h(1)])
  with h(2) F(1) show ?thesis unfolding new s'(1) by (auto simp: keys_from_def)
qed


lemma gives_True: "gives ssl live (\<lambda>_. True) os"
  by (simp add: gives_def)

lemma grow_keys_loaded:
  assumes "loading_inv T live s" "unat (keys_size (res s)) < unat (keys_cap (grow_keys fresh (res s)))"
  shows "loaded_keys (s\<lparr>res := grow_keys fresh (res s)\<rparr>) = loaded_keys s"
  using assms by (auto simp: loading_inv_def loaded_keys_def grow_keys_def Let_def)

lemma load_entries_heap:
  assumes ok: "openssl_contents ssl heap valid" and p: "length path < 2 ^ 32"
  shows "loading_inv (\<lambda>_. True) (live_in heap) s \<Longrightarrow> unat (keys_cap (res s)) \<le> 2 ^ 33 \<Longrightarrow>
    unat (keys_size (res s)) + length entries \<le> 2 ^ 32 \<Longrightarrow> \<forall>e\<in>set entries. entry_ok e \<Longrightarrow> snd ` set entries \<subseteq> F \<Longrightarrow>
    keys_from valid F (loaded_keys s) (heap (lib s)) \<Longrightarrow> entries_null ssl fresh path entries cap s \<Longrightarrow>
    load_entries ssl fresh path entries cap attempts s = Inr (n, s') \<Longrightarrow> keys_from valid F (loaded_keys s') (heap (lib s'))"
proof (induction entries arbitrary: cap attempts s)
  case (Cons e entries)
  obtain d os where e: "e = (d, os)" by (cases e)
  have entry: "cert_file_ok os" "os \<in> F" using Cons.prems(4,5) by (auto simp: e entry_ok_def)
  show ?case
  proof (cases "d = ''.'' \<or> d = ''..''")
    case True
    then show ?thesis using Cons.IH [OF Cons.prems(1,2)] Cons.prems(3-8) by (auto simp: e)
  next
    case False
    let ?s = "s\<lparr>res := grow_keys fresh (res s)\<rparr>"
    have sz: "unat (keys_size (res s)) \<le> 2 ^ 32" using Cons.prems(3) by simp
    note g = grow_keys_inv [OF Cons.prems(1,2) sz, of fresh]
    have lt: "unat (keys_size (res ?s)) < unat (keys_cap (res ?s))" using g(2,3) by simp
    from Cons.prems(8) False obtain full cap' b t where
      p: "entry_path path d cap = Inr (full, cap')" and
      r: "read_key ssl os full (unat (keys_size (res ?s))) ?s = Inr (b, t)"
        "load_entries ssl fresh path entries cap' (attempts + 1) t = Inr (n, s')"
      by (auto simp: e if_fail Let_def)
    have null: "slot_null os ?s" "entries_null ssl fresh path entries cap' t"
      using Cons.prems(7) False p r(1) by (auto simp: e Let_def)
    have slot: "\<And>ks. keys (res ?s) = Some ks \<Longrightarrow> slot_reads os (ks ! unat (keys_size (res ?s)))"
      using null(1) by (simp add: slot_null_def)
    from safe_InrD [OF read_key_safe [OF openssl_contentsD(1) [OF ok] g(1) entry(1) gives_True lt slot] r(1)]
    have t: "loading_inv (\<lambda>_. True) (live_in heap) t" "keys_cap (res t) = keys_cap (res ?s)"
      "keys_size (res t) = (if b then keys_size (res s) + 1 else keys_size (res s))" using g(2) by auto
    have "keys_from valid F (loaded_keys ?s) (heap (lib ?s))"
      unfolding grow_keys_loaded [OF Cons.prems(1) g(3)] using Cons.prems(6) by simp
    from read_key_heap [OF ok entry(2,1) slot lt this r(1)]
    have k: "keys_from valid F (loaded_keys t) (heap (lib t))" .
    have "unat (keys_size (res s) + 1) = unat (keys_size (res s)) + 1"
      using sz by (simp add: unat_word_ariths(1))
    then have "unat (keys_size (res t)) + length entries \<le> 2 ^ 32" using Cons.prems(3) t(3) by auto
    moreover have "unat (keys_cap (res t)) \<le> 2 ^ 33" using t(2) g(4) by simp
    ultimately show ?thesis using Cons.IH [OF t(1) _ _ _ _ k null(2) r(2)] Cons.prems(4,5) by auto
  qed
qed simp

lemma alloc_keys_from:
  "no_keys s \<Longrightarrow> keys_from valid F (loaded_keys (alloc_keys fresh s)) h"
  by (simp add: no_keys_def alloc_keys_def loaded_keys_def keys_from_def)

lemma load_certs_heap:
  assumes ok: "openssl_contents ssl heap valid" and s: "no_keys s" and p: "certs_valid ssl fresh path os s"
    and r: "load_certs ssl fresh path os s = Inr (Continue, s')"
  shows "keys_from valid (cert_files os) (loaded_keys s') (heap (lib s'))"
proof (cases os)
  case NoStat
  with r show ?thesis by (simp add: load_certs_def)
next
  case (Directory dir)
  with r obtain entries where d: "dir = Some entries" by (cases dir) (auto simp: load_certs_def load_dir_def)
  with r Directory obtain n t where t: "load_entries ssl fresh path entries KILOBYTE 0 (alloc_keys fresh s) = Inr (n, t)"
    "\<exists>es. s' = emit es t \<or> s' = t"
    by (auto simp: load_certs_def load_dir_def if_fail split: if_splits)
  have sz: "keys_size (res (alloc_keys fresh s)) = 0" "keys_cap (res (alloc_keys fresh s)) = 4"
    using s by (simp_all add: alloc_keys_def no_keys_def)
  have "keys_from valid (cert_files os) (loaded_keys t) (heap (lib t))"
    by (rule load_entries_heap [OF ok _ alloc_keys_inv [OF s] _ _ _ _ alloc_keys_from [OF s] _ t(1)])
      (use p Directory d sz in \<open>auto simp: certs_valid_def certs_ok_def null_slots_def cert_files_def\<close>)
  with t(2) show ?thesis by auto
next
  case (Single crt)
  let ?t = "alloc_keys fresh s"
  have sz: "keys_size (res ?t) = 0" "unat (keys_cap (res ?t)) = 4" "keys (res ?t) = Some (replicate 4 fresh)"
    using s by (simp_all add: alloc_keys_def no_keys_def)
  from r Single obtain b where b: "read_key ssl crt path (unat (keys_size (res ?t))) ?t = Inr (b, s')"
    by (auto simp: load_certs_def Let_def if_fail sz)
  show ?thesis
    by (rule read_key_heap [OF ok _ _ _ _ alloc_keys_from [OF s] b])
      (use p sz Single in \<open>auto simp: certs_valid_def certs_ok_def null_slots_def slot_null_def cert_files_def\<close>)
qed


text \<open>After a start that succeeds the server runs on keys that hold the public keys of its certificates.\<close>

lemma load_certs_contents:
  assumes ok: "openssl_contents ssl heap valid" and s: "no_keys s" and p: "certs_valid ssl fresh path os s"
  shows "rsafe (load_certs ssl fresh path os s) (\<lambda>(v, s'). extends quiet s s' \<and>
    (v = Continue \<longrightarrow> server_inv (live_in heap) (loaded_keys s') s' \<and>
       keys_from valid (cert_files os) (loaded_keys s') (heap (lib s'))))"
  by (rule safe_mono [OF load_certs_safe [OF openssl_contentsD(1) [OF ok] s p gives_True]])
    (use load_certs_heap [OF ok s p] in \<open>auto simp: loaded_def\<close>)

section \<open>Authentication\<close>

text \<open>
  A buffer that holds a signature of the size of the key, a newline and a script of which that is a valid
  signature for whatever public key the key holds.
\<close>

definition signed_input ::
    "(public_key \<Rightarrow> digest option \<Rightarrow> byte list \<Rightarrow> byte list \<Rightarrow> bool) \<Rightarrow>
     (nat \<Rightarrow> obj option) \<Rightarrow> byte list \<Rightarrow> PubKey \<Rightarrow> byte list \<Rightarrow> bool" where
  "signed_input valid h input k script \<longleftrightarrow>
     (\<exists>sig. input = sig @ 10 # script \<and> of_nat (length sig) = exp_sig_size k \<and>
        (\<forall>m. holds_key h k m \<longrightarrow> valid m (md k) script sig))"

lemma auth_loop_heap:
  assumes ok: "openssl_contents ssl heap valid" and v: "valid_end raw n"
  shows "N \<le> length ks \<Longrightarrow> bound \<le> N \<Longrightarrow> 1 \<le> ksz \<Longrightarrow> ksz \<le> N \<Longrightarrow> \<forall>k\<in>set (take N ks). key_ok (live_in heap) w k \<Longrightarrow>
    auth_loop ssl now raw n bound i ks ksz w = Inr (r, ks', ksz', w') \<Longrightarrow>
    heap w' = heap w \<and> (\<forall>start. r = Authentic start \<longrightarrow>
      (\<exists>k\<in>set (take N ks). now \<le> expiry k \<and> signed_input valid (heap w) (slice raw 0 n) k (slice raw start n)))"
proof (induction "(bound - i) + ksz" arbitrary: i ks ksz w rule: less_induct)
  case less
  show ?case
  proof (cases "i < bound")
    case False
    then show ?thesis using less.prems(6) by (subst (asm) auth_loop.simps) simp
  next
    case True
    let ?k = "ks ! i"
    have len: "i < length ks" "i < N" "ksz \<le> length ks" using True less.prems by auto
    have kin: "?k \<in> set (take N ks)" using len by (auto simp: in_set_conv_nth intro!: exI [of _ i])
    then have kok: "key_ok (live_in heap) w ?k" using less.prems by blast
    have next_key: ?thesis
      if h: "heap u = heap w" and a: "auth_loop ssl now raw n bound (i + 1) ks ksz u = Inr (r, ks', ksz', w')" for u
    proof -
      have "\<forall>k\<in>set (take N ks). key_ok (live_in heap) u k" using less.prems(5) key_ok_live [of "live_in heap" w _ u] h by auto
      from less.hyps [OF _ less.prems(1-4) this a] True h show ?thesis by simp
    qed
    show ?thesis
    proof (cases "now > expiry ?k")
      case expired: True
      show ?thesis
      proof (cases "ksz > 1")
        case True
        let ?ks = "swap_keys ks i (ksz - 1)"
        have sw: "mset (take N ?ks) = mset (take N ks)" "length ?ks = length ks"
          using swap_keys_take [of i N "ksz - 1" ks] len less.prems True by auto
        note st = mset_eq_setD [OF sw(1)]
        have "auth_loop ssl now raw n bound i ?ks (ksz - 1) w = Inr (r, ks', ksz', w')"
          using less.prems(6) True expired \<open>i < bound\<close> len by (subst (asm) auth_loop.simps) (simp add: Let_def)
        from less.hyps [OF _ _ _ _ _ _ this] less.prems(1-5) True sw st show ?thesis by auto
      next
        case False
        with expired \<open>i < bound\<close> len less.prems(6) show ?thesis
          by (subst (asm) auth_loop.simps) (simp add: Let_def)
      qed
    next
      case valid: False
      let ?sz = "exp_sig_size ?k"
      have sz: "?sz \<in> SIG_SIZES" and idx: "alg_idx ?k < 3" and own: "owns (live_in heap) w ?k"
        using kok by (auto simp: key_ok_def)
      show ?thesis
      proof (cases "?sz + 1 \<le> n \<and> raw ! unat ?sz = 10")
        case False
        have "check_ok (if ?sz + 1 \<le> n then check_ok (rd raw ?sz) (\<lambda>b. Inr (b = 10)) else Inr False) f
            = (f False :: (auth_result \<times> PubKey list \<times> nat \<times> 'a) run)" for f
          using False auth_key_parts(1) [OF v sz] by (cases "?sz + 1 \<le> n") auto
        with less.prems(6) valid True len have "auth_loop ssl now raw n bound (i + 1) ks ksz w = Inr (r, ks', ksz', w')"
          by (subst (asm) auth_loop.simps) (simp add: Let_def)
        then show ?thesis by (rule next_key [OF refl])
      next
        case sep: True
        note parts = auth_key_parts [OF v sz conjunct1 [OF sep]]
        let ?script = "slice raw (?sz + 1) n" and ?sig = "slice raw 0 ?sz"
        from less.prems(6) sep valid True len parts(1-3) obtain b u where
          b: "openssl_verify ssl ?k ?script ?sig w = Inr (b, u)"
            "if b then (r, w') = (Authentic (?sz + 1), u)
             else auth_loop ssl now raw n bound (i + 1) ks ksz u = Inr (r, ks', ksz', w')"
          by (subst (asm) auth_loop.simps) (auto simp: Let_def if_fail pub_key_verify_openssl [OF idx] split: if_splits)
        note ver = openssl_verify_contents [OF ok own b(1)]
        show ?thesis
        proof (cases b)
          case False
          with b(2) show ?thesis by (intro next_key [OF ver(1)]) simp
        next
          case True
          have "slice raw 0 n = ?sig @ 10 # ?script" using parts(4) sep by simp
          then have "signed_input valid (heap w) (slice raw 0 n) ?k ?script"
            unfolding signed_input_def using ver(2) [OF True] parts(5) by blast
          with True b(2) ver(1) valid kin show ?thesis by (simp add: not_less) blast
        qed
      qed
    qed
  qed
qed


text \<open>
  Conversely, a valid signature of one of the keys is found, by a library that accepts valid signatures, while
  no key has expired.
\<close>

lemma auth_loop_signed:
  assumes ok: "openssl_contents ssl heap valid" "openssl_accepts ssl heap valid" and v: "valid_end raw n"
    and m: "m \<le> length ks" "\<forall>k\<in>set (take m ks). key_ok (live_in heap) w k \<and> now \<le> expiry k"
    and k: "k \<in> set (take m ks)" "holds_key (heap w) k pk"
    and s: "slice raw 0 n = sig @ 10 # script" "of_nat (length sig) = exp_sig_size k" "valid pk (md k) script sig"
  shows "\<exists>start w' k'. auth_loop ssl now raw n m 0 ks m w = Inr (Authentic start, ks, m, w') \<and>
    k' \<in> set (take m ks) \<and> signed_input valid (heap w) (slice raw 0 n) k' (slice raw start n)"
proof -
  let ?V = "\<lambda>u. heap u = heap w"
  from k(1) m(1) obtain j where j: "j < m" "ks ! j = k" by (auto simp: in_set_conv_nth)
  have sz: "exp_sig_size k \<in> SIG_SIZES" using m(2) k(1) by (simp add: key_ok_def)
  note parts = input_parts [OF v sz s(1,2)]
  have keeps: "verify_keeps ssl ?V x" if "x \<in> set (take m ks)" for x
    unfolding verify_keeps_def
  proof (intro allI impI)
    fix u d y assume u: "heap u = heap w"
    have "owns (live_in heap) w x" using m(2) that by (simp add: key_ok_def)
    then have o: "owns (live_in heap) u x" by (simp add: owns_def u)
    show "rsafe (openssl_verify ssl x d y u) (\<lambda>(b, u'). heap u' = heap w)"
      by (rule safe_mono [OF openssl_verify_safe [OF openssl_contentsD(1) [OF ok(1)] o]])
        (use openssl_verify_contents(1) [OF ok(1) o] u in auto)
  qed
  have ver: "verifies ssl ?V k sig script"
    unfolding verifies_def
  proof (intro allI impI)
    fix u assume u: "heap u = heap w"
    show "\<exists>u'. openssl_verify ssl k script sig u = Inr (True, u')"
      by (rule openssl_verify_accepts [OF ok(2) _ s(3,2)]) (use k(2) u in simp)
  qed
  have "\<forall>x\<in>set (take m ks). exp_sig_size x \<in> SIG_SIZES \<and> alg_idx x < 3 \<and> now \<le> expiry x \<and> verify_keeps ssl ?V x"
    using m(2) keeps by (simp add: key_ok_def)
  from auth_loop_complete [OF v this m(1) le0 j(1) _ _ refl] parts ver j(2) obtain start w' where
    r: "auth_loop ssl now raw n m 0 ks m w = Inr (Authentic start, ks, m, w')" by auto
  have "1 \<le> m" "\<forall>k\<in>set (take m ks). key_ok (live_in heap) w k" using k(1) m(2) by (cases m, auto)
  from auth_loop_heap [OF ok(1) v m(1) order_refl this(1) order_refl this(2) r] r show ?thesis by blast
qed

section \<open>Events\<close>

text \<open>
  A script that is run: what \<open>bash\<close> gets is a part of it from its start, and it arrived behind a signature that
  is valid for a key of the server, which had not expired at one of the times.
\<close>

definition signed_run ::
    "(public_key \<Rightarrow> digest option \<Rightarrow> byte list \<Rightarrow> byte list \<Rightarrow> bool) \<Rightarrow>
     PubKey set \<Rightarrow> int set \<Rightarrow> (nat \<Rightarrow> obj option) \<Rightarrow> effect \<Rightarrow> bool" where
  "signed_run valid K T h e \<longleftrightarrow>
     (\<forall>script n es. e = Ran script n es \<longrightarrow> (\<exists>j. fed es = take j script) \<and>
        (\<exists>k\<in>K. \<exists>now\<in>T. now \<le> expiry k \<and> (\<exists>input. signed_input valid h input k script)))"

lemma quiet_signed_run: "quiet e \<Longrightarrow> signed_run valid K T h e"
  by (auto simp: quiet_def signed_run_def)

lemma free_conn_Inr: "free_conn i s = Inr s' \<Longrightarrow> lib s' = lib s \<and> extends quiet s s'"
  by (auto simp: free_conn_def Let_def if_fail extends_def)

text \<open>How a terminated connection ends: all keys have expired, or it is closed without or with a script that was run.\<close>

lemma authenticate_cases:
  assumes ok: "openssl_contents ssl heap valid" and inv: "server_inv (live_in heap) K s"
    and i: "i < MAX_CONCURRENCY" "fd (conns (res s) ! i) > 0" and xos: "writes_ok xos"
    and r: "authenticate ssl i now xos s = Inr (vd, s')"
  obtains (expired) "heap (lib s') = heap (lib s)" "conns (res s') = conns (res s)" "extends quiet s s'"
    | (rejected) t where "heap (lib t) = heap (lib s)" "conns (res t) = conns (res s)" "extends quiet s t"
        "free_conn i t = Inr s'"
    | (accepted) t script n es k where "heap (lib t) = heap (lib s)" "conns (res t) = conns (res s)"
        "trace t = trace s @ [Ran script n es]" "\<exists>j. fed es = take j script" "k \<in> K" "now \<le> expiry k"
        "signed_input valid (heap (lib s)) (conn_data (conns (res s) ! i)) k script" "free_conn i t = Inr s'"
proof -
  let ?c = "conns (res s) ! i"
  have c: "conns_inv (res s)" and k: "keys_inv (live_in heap) K (res s) (lib s)" using inv by (auto simp: server_inv_def)
  note at = conns_inv_at [OF c i(1)]
  then obtain raw where raw: "buf ?c = Some raw" "unat (buf_size ?c) \<le> length raw"
    "buf_size ?c < MAX_SCRIPT_SIZE" using i(2) by (auto simp: conn_inv_def split: option.splits)
  then have n: "unat (buf_size ?c) < 2 ^ 31" by (simp add: MAX_SCRIPT_SIZE_def word_less_nat_alt)
  with raw have v: "valid_end raw (buf_size ?c)" by (simp add: valid_end_def object_size_def PTRDIFF_MAX_def)
  from k obtain ks N where ks: "keys (res s) = Some ks" "1 \<le> unat (keys_size (res s))" "unat (keys_size (res s)) \<le> N"
      "N \<le> length ks"
    and held: "keys_held (live_in heap) (lib s) (take N ks)" "set (take N ks) = K" by (auto simp: keys_inv_def)
  let ?m = "unat (keys_size (res s))"
  have all: "\<forall>k\<in>set (take N ks). key_ok (live_in heap) (lib s) k" using held by (simp add: keys_held_def)
  from r obtain a ks' ksz w' where
    loop: "auth_loop ssl now raw (buf_size ?c) ?m 0 ks ?m (lib s) = Inr (a, ks', ksz, w')"
    by (auto simp: authenticate_def conn_at_valid [OF conjunct1 [OF at]] raw(1) ks(1) if_fail)
  from auth_loop_heap [OF ok v ks(4,3,2,3) all loop] held(2)
  have h: "heap w' = heap (lib s)" "\<And>start. a = Authentic start \<Longrightarrow>
      \<exists>k\<in>K. now \<le> expiry k \<and> signed_input valid (heap (lib s)) (slice raw 0 (buf_size ?c)) k (slice raw start (buf_size ?c))"
    by auto
  have data: "conn_data ?c = slice raw 0 (buf_size ?c)" by (simp add: conn_data_def raw(1) slice_def)
  let ?s = "s\<lparr>lib := w', res := (res s)\<lparr>keys := Some ks', keys_size := of_nat ksz\<rparr>\<rparr>"
  note r' = r [unfolded authenticate_def conn_at_valid [OF conjunct1 [OF at]] check_ok_simps ks(1) raw(1)
      prod.case option.case loop Let_def]
  show thesis
  proof (cases a)
    case Not_Authentic
    show thesis
      by (rule rejected [of "emit [Printed ''Remote bash script could not be authenticated, aborting execution''] ?s"])
        (use r' h(1) Not_Authentic in \<open>auto simp: if_fail extends_def\<close>)
  next
    case All_Expired
    with r' h(1) show thesis by (intro expired) (auto simp: extends_def)
  next
    case (Authentic start)
    from safe_InrD [OF auth_loop_safe [OF openssl_contentsD(1) [OF ok] v ks(4,3,2,3) all] loop] Authentic
    have st: "start \<le> buf_size ?c" by (simp add: auth_post_def)
    let ?n = "buf_size ?c - start" and ?script = "slice raw start (buf_size ?c)"
    have un: "unat ?n = length ?script" using st by (simp add: length_slice [OF v] unat_sub)
    also have "\<dots> \<le> unat (buf_size ?c)" by (simp add: length_slice [OF v])
    finally have nn: "unat ?n < 2 ^ 31" using n by simp
    have vs: "valid_end ?script ?n" using nn un by (simp add: valid_end_def object_size_def PTRDIFF_MAX_def)
    have wa: "write_returns (unat ?n) (xos ?n)" using xos by (simp add: writes_ok_def)
    let ?t = "?s\<lparr>res := (res ?s)\<lparr>script_n := script_n (res ?s) + 1\<rparr>\<rparr>"
    from r' Authentic obtain es where
      es: "exec_script ?script ?n (of_int (script_n (res ?s) + 1)) (xos ?n) = Inr es"
        "free_conn i (emit [Ran ?script (script_n (res ?s) + 1) es] ?t) = Inr s'"
      by (auto simp: rd_bytes_slice [OF v st] if_fail simp del: of_int_add)
    from h(2) [OF Authentic] obtain k where k: "k \<in> K" "now \<le> expiry k"
      "signed_input valid (heap (lib s)) (conn_data ?c) k ?script" unfolding data by blast
    show thesis
      by (rule accepted [OF _ _ _ conjunct1 [OF safe_InrD [OF exec_script_runs [OF vs nn wa] es(1)]] k es(2)]) (use h(1) in simp_all)
  qed
qed

lemma authenticate_heap:
  assumes ok: "openssl_contents ssl heap valid" and inv: "server_inv (live_in heap) K s"
    and i: "i < MAX_CONCURRENCY" "fd (conns (res s) ! i) > 0" and xos: "writes_ok xos" and now: "now \<in> T"
    and r: "authenticate ssl i now xos s = Inr (vd, s')"
  shows "heap (lib s') = heap (lib s) \<and> extends (signed_run valid K T (heap (lib s))) s s'"
  using ok inv i xos r
proof (cases rule: authenticate_cases)
  case expired
  then show ?thesis by (auto intro: extends_mono quiet_signed_run)
next
  case (rejected t)
  with free_conn_Inr [OF rejected(4)] have "extends quiet s s'" by (auto intro: extends_trans)
  with rejected free_conn_Inr [OF rejected(4)] show ?thesis by (auto intro: extends_mono quiet_signed_run)
next
  case (accepted t script n es k)
  then have "signed_run valid K T (heap (lib s)) (Ran script n es)" using now unfolding signed_run_def by blast
  with accepted(3) have "extends (signed_run valid K T (heap (lib s))) s t" by (rule extends_one)
  with accepted(1) free_conn_Inr [OF accepted(8)] show ?thesis
    by (auto intro: extends_trans extends_mono quiet_signed_run)
qed

text \<open>The three stages of an event on a connection, of which each may not take place.\<close>

lemma handle_conn_stages:
  assumes ok: "openssl_ok ssl live" and inv: "server_inv live K s"
    and i: "i < MAX_CONCURRENCY" "fd (conns (res s) ! i) > 0"
    and rf: "evs AND EPOLLIN > 0 \<longrightarrow> recv_fits (buf_cap (conns (res s) ! i)) (buf_size (conns (res s) ! i)) (recv_chunks os)"
    and x: "writes_ok (exec_answers os)" and r: "handle_conn ssl i evs os s = Inr (vd, s')"
  obtains t u where "t = s \<or> evs AND EPOLLIN > 0 \<and> recv_loop i (recv_chunks os) (recv_errno os) s = Inr t" "server_inv live K t"
    "u = t \<and> vd = Continue \<or> fd (conns (res t) ! i) > 0 \<and> authenticate ssl i (time_result os) (exec_answers os) t = Inr (vd, u)"
    "server_inv live K u" "s' = u \<or> fd (conns (res u) ! i) > 0 \<and> free_conn i u = Inr s'"
proof -
  have at: "conn_at t i = Inr (conns (res t) ! i)" if "server_inv live K t" for t
    using conns_inv_at [OF _ i(1)] that by (simp add: server_inv_def)
  note r' = r [unfolded handle_conn_def at [OF inv] c_assert_def if_P [OF i(2)] check_ok_simps]
  from iffD1 [OF check_ok_Inr r'] obtain t where
    t: "(if evs AND EPOLLIN > 0 then recv_loop i (recv_chunks os) (recv_errno os) s else Inr s) = Inr t"
    and r2: "check_ok (conn_at t i) (\<lambda>conn. check_ok (if fd conn > 0 \<and> evs AND (EPOLLRDHUP OR EPOLLHUP) > 0
         then authenticate ssl i (time_result os) (exec_answers os) t else Inr (Continue, t)) (\<lambda>(v, u).
       case v of Return c \<Rightarrow> Inr (Return c, u) | Continue \<Rightarrow> check_ok (conn_at u i) (\<lambda>conn.
        if fd conn > 0 \<and> evs AND EPOLLERR > 0 then check_ok (free_conn i u) (\<lambda>s. Inr (Continue, s))
        else Inr (Continue, u)))) = Inr (vd, s')" by blast
  have inv_t: "server_inv live K t"
    using safe_InrD [OF recv_or_not [OF inv i rf, where ssl = ssl and T = "{time_result os}"] t] by simp
  from iffD1 [OF check_ok_Inr r2 [unfolded at [OF inv_t] check_ok_simps]] obtain v u where
    u: "(if fd (conns (res t) ! i) > 0 \<and> evs AND (EPOLLRDHUP OR EPOLLHUP) > 0
         then authenticate ssl i (time_result os) (exec_answers os) t else Inr (Continue, t)) = Inr (v, u)"
    and u2: "(case v of Return c \<Rightarrow> Inr (Return c, u) | Continue \<Rightarrow> check_ok (conn_at u i) (\<lambda>conn.
        if fd conn > 0 \<and> evs AND EPOLLERR > 0 then check_ok (free_conn i u) (\<lambda>s. Inr (Continue, s))
        else Inr (Continue, u))) = Inr (vd, s')" by (metis (no_types, lifting) case_prod_conv surj_pair)
  have v: "v = vd" using u2 by (cases v) (auto simp: if_fail split: if_splits)
  have a: "u = t \<and> vd = Continue \<or> fd (conns (res t) ! i) > 0 \<and> authenticate ssl i (time_result os) (exec_answers os) t = Inr (vd, u)"
    using u v by (auto split: if_splits)
  have inv_u: "server_inv live K u"
    using a inv_t safe_InrD [OF authenticate_safe [OF ok inv_t i(1) _ x singletonI]] by auto
  have "s' = u \<or> fd (conns (res u) ! i) > 0 \<and> free_conn i u = Inr s'"
    using u2 by (cases v) (auto simp: at [OF inv_u] if_fail split: if_splits)
  with t a inv_t inv_u show thesis by (intro that) (auto split: if_splits)
qed

lemma handle_conn_heap:
  assumes ok: "openssl_contents ssl heap valid" and inv: "server_inv (live_in heap) K s"
    and i: "i < MAX_CONCURRENCY" "fd (conns (res s) ! i) > 0"
    and rf: "evs AND EPOLLIN > 0 \<longrightarrow> recv_fits (buf_cap (conns (res s) ! i)) (buf_size (conns (res s) ! i)) (recv_chunks os)"
    and x: "writes_ok (exec_answers os)" "time_result os \<in> T"
    and r: "handle_conn ssl i evs os s = Inr (vd, s')"
  shows "heap (lib s') = heap (lib s) \<and> extends (signed_run valid K T (heap (lib s))) s s'"
proof -
  let ?P = "\<lambda>t t'. heap (lib t') = heap (lib t) \<and> extends (signed_run valid K T (heap (lib t))) t t'"
  have c: "conns_inv (res s)" using inv by (simp add: server_inv_def)
  obtain t u where
    t: "t = s \<or> evs AND EPOLLIN > 0 \<and> recv_loop i (recv_chunks os) (recv_errno os) s = Inr t" "server_inv (live_in heap) K t"
    and u: "u = t \<and> vd = Continue \<or> fd (conns (res t) ! i) > 0 \<and> authenticate ssl i (time_result os) (exec_answers os) t = Inr (vd, u)"
      "server_inv (live_in heap) K u"
    and s': "s' = u \<or> fd (conns (res u) ! i) > 0 \<and> free_conn i u = Inr s'"
    by (rule handle_conn_stages [OF openssl_contentsD(1) [OF ok] inv i rf x(1) r])
  have "?P s t"
    using t(1) rf safe_InrD [OF recv_loop_safe [OF c i], of "recv_chunks os" "recv_errno os" t]
    by (auto simp: recv_post_def same_keys_def intro: extends_mono quiet_signed_run)
  moreover have "?P t u"
    using u(1) authenticate_heap [OF ok t(2) i(1) _ x] by auto
  moreover have "?P u s'"
    using s' free_conn_Inr by (auto intro: extends_mono quiet_signed_run)
  ultimately show ?thesis by (auto intro: extends_trans)
qed

lemma handle_event_heap:
  assumes ok: "openssl_contents ssl heap valid" and inv: "server_inv (live_in heap) K s"
    and v: "event_valid (event, os) s" and t: "time_result os \<in> T"
    and r: "handle_event ssl event os s = Inr (vd, s')"
  shows "heap (lib s') = heap (lib s) \<and> extends (signed_run valid K T (heap (lib s))) s s'"
proof -
  have c: "conns_inv (res s)" using inv by (simp add: server_inv_def)
  consider (acc) "data_fd event = MAX_INT32" | (conn) "data_fd event \<noteq> MAX_INT32" "data_fd event < int MAX_CONCURRENCY"
    | (bad) "data_fd event \<noteq> MAX_INT32" "\<not> data_fd event < int MAX_CONCURRENCY" by blast
  then show ?thesis
  proof cases
    case acc
    then have "accept_ok (acc os)" using v by (simp add: event_valid_def)
    note a = accept_conn_safe [OF c this]
    from r acc have "accept_conn (acc os) s = Inr s'" by (auto simp: handle_event_def if_fail)
    from safe_InrD [OF a this] have "lib s' = lib s" "extends quiet s s'"
      by (auto simp: same_keys_def extends_def quiet_def)
    then show ?thesis by (auto intro: extends_mono quiet_signed_run)
  next
    case conn
    then have nn: "0 \<le> data_fd event" and lt: "nat (data_fd event) < MAX_CONCURRENCY"
      and o: "fd (conns (res s) ! nat (data_fd event)) > 0" "writes_ok (exec_answers os)"
        "events event AND EPOLLIN > 0 \<longrightarrow> recv_fits (buf_cap (conns (res s) ! nat (data_fd event)))
           (buf_size (conns (res s) ! nat (data_fd event))) (recv_chunks os)"
      using v by (auto simp: event_valid_def Let_def)
    from r conn nn have "handle_conn ssl (nat (data_fd event)) (events event) os s = Inr (vd, s')"
      by (simp add: handle_event_def)
    from handle_conn_heap [OF ok inv lt o(1,3,2) t this] show ?thesis .
  next
    case bad
    with r have "lib s' = lib s" "extends quiet s s'" by (auto simp: handle_event_def extends_def)
    then show ?thesis by (auto intro: extends_mono quiet_signed_run)
  qed
qed


lemma handle_event_contents:
  assumes ok: "openssl_contents ssl heap valid" and inv: "server_inv (live_in heap) K s"
    and v: "event_valid (event, os) s" and t: "time_result os \<in> T"
  shows "rsafe (handle_event ssl event os s) (\<lambda>(v, s'). server_inv (live_in heap) K s' \<and>
    heap (lib s') = heap (lib s) \<and> extends (signed_run valid K T (heap (lib s))) s s')"
  by (rule safe_mono [OF handle_event_safe [OF openssl_contentsD(1) [OF ok] inv v t]])
    (use handle_event_heap [OF ok inv v t] in auto)

text \<open>So it is for any event after which the server goes on or returns.\<close>

lemma returned_event_contents:
  assumes ok: "openssl_contents ssl heap valid" and inv: "server_inv (live_in heap) K s"
    and os: "kernel_ok os" "time_result os \<in> T" and r: "handle_event ssl event os s = Inr (v, s')"
  shows "server_inv (live_in heap) K s' \<and> heap (lib s') = heap (lib s) \<and>
    extends (signed_run valid K T (heap (lib s))) s s'"
proof -
  note p = survived_event_valid [OF inv os(1) r]
  from safe_InrD [OF handle_event_contents [OF ok inv conjunct1 [OF p]] conjunct2 [OF p]] os(2) show ?thesis by simp
qed

lemma reachable_contents:
  assumes "reachable ssl T s0 s" "openssl_contents ssl heap valid" "server_inv (live_in heap) K s0"
  shows "server_inv (live_in heap) K s \<and> heap (lib s) = heap (lib s0) \<and>
    extends (signed_run valid K T (heap (lib s0))) s0 s"
  using assms(1)
proof induction
  case started
  then show ?case using assms by simp
next
  case (handled s os event s')
  then have inv: "server_inv (live_in heap) K s" by simp
  from returned_event_contents [OF assms(2) inv handled(2,3,4)] handled(5)
  show ?case by (auto intro: extends_trans)
qed

text \<open>An event that completes a validly signed script has it run, or a shorter one another key is for.\<close>

lemma handle_event_signed:
  assumes ok: "openssl_contents ssl heap valid" "openssl_accepts ssl heap valid" and inv: "server_inv (live_in heap) K s"
    and v: "event_valid (event, os) s"
    and e: "data_fd event = int i" "i < MAX_CONCURRENCY" "events event AND EPOLLIN > 0"
      "events event AND (EPOLLRDHUP OR EPOLLHUP) > 0" "recv_errno os = EAGAIN"
    and k: "\<forall>k\<in>loaded_keys s. time_result os \<le> expiry k" "k \<in> loaded_keys s" "holds_key (heap (lib s)) k pk"
    and data: "conn_data (conns (res s) ! i) @ concat (takeWhile (\<lambda>b. b \<noteq> []) (recv_chunks os)) = sig @ 10 # script"
    and sz: "length sig + length script + 1 < unat MAX_SCRIPT_SIZE"
    and sig: "of_nat (length sig) = exp_sig_size k" "valid pk (md k) script sig"
  shows "\<exists>s' script' es. handle_event ssl event os s = Inr (Continue, s') \<and>
    (all_written (exec_answers os) \<longrightarrow> fed es = script' \<and> (\<exists>p. Reaped p \<in> set es)) \<and>
    trace s' = trace s @ [Ran script' (script_n (res s) + 1) es, CloseFd (fd (conns (res s) ! i))] \<and>
    (\<exists>k'\<in>loaded_keys s. signed_input valid (heap (lib s)) (sig @ 10 # script) k' script')"
proof -
  let ?m = "unat (keys_size (res s))"
  have "keys_inv (live_in heap) K (res s) (lib s)" using inv by (simp add: server_inv_def)
  then obtain ks N where ks: "keys (res s) = Some ks" "?m \<le> N" "N \<le> length ks" "keys_held (live_in heap) (lib s) (take N ks)"
    by (auto simp: keys_inv_def)
  have lk: "loaded_keys s = set (take ?m ks)" by (simp add: loaded_keys_def ks(1))
  have "keys_held (live_in heap) (lib s) (take ?m ks)" by (rule keys_held_take [OF ks(4,2)])
  with k(1) have kok: "\<forall>k\<in>set (take ?m ks). key_ok (live_in heap) (lib s) k \<and> time_result os \<le> expiry k"
    by (simp add: keys_held_def lk)
  have m: "?m \<le> length ks" using ks by simp
  have "length (sig @ 10 # script) < unat MAX_SCRIPT_SIZE" using sz by simp
  from handle_event_authentic [OF openssl_contentsD(1) [OF ok(1)] inv v e ks(1) data this,
      where Q = "\<lambda>script'. \<exists>k'\<in>loaded_keys s. signed_input valid (heap (lib s)) (sig @ 10 # script) k' script'"]
    auth_loop_signed [OF ok _ m kok k(2) [unfolded lk] k(3) _ sig]
  show ?thesis unfolding lk by (metis (no_types, lifting))
qed

text \<open>The runs of the server, over the invariant that the objects hold what they held after the start.\<close>

interpretation signed_batch: event_run "\<lambda>e. handle_event ssl (fst e) (snd e)" "handle_events ssl"
  "\<lambda>e s. event_valid e s \<and> time_result (snd e) \<in> T" "\<lambda>es s. events_valid ssl es s \<and> batch_times es \<subseteq> T"
  "\<lambda>s. openssl_contents ssl heap valid \<and> server_inv (live_in heap) K s \<and> heap (lib s) = h" "signed_run valid K T h"
  for ssl heap valid K T h
proof (unfold_locales, goal_cases)
  case (2 e es s)
  show ?case by (cases e) simp
next
  case (4 s e)
  then have ok: "openssl_contents ssl heap valid" and inv: "server_inv (live_in heap) K s" "heap (lib s) = h"
    and v: "event_valid (fst e, snd e) s" "time_result (snd e) \<in> T" by auto
  show ?case by (rule safe_mono [OF handle_event_contents [OF ok inv(1) v]]) (use ok inv(2) in auto)
qed (auto simp: batch_times_def)

interpretation signed_looping: event_run "handle_wait ssl" "event_loop ssl"
  "\<lambda>x s. wait_valid ssl x s \<and> wait_times x \<subseteq> T" "\<lambda>xs s. waits_valid ssl xs s \<and> clock_times xs \<subseteq> T"
  "\<lambda>s. openssl_contents ssl heap valid \<and> server_inv (live_in heap) K s \<and> heap (lib s) = h" "signed_run valid K T h"
  for ssl heap valid K T h
proof (unfold_locales, goal_cases)
  case (2 x xs s)
  show ?case by (cases x) (simp_all add: handle_wait_def)
next
  case (4 s x)
  then show ?case
    using signed_batch.run_safe [of ssl heap valid K s h _ T]
    by (cases x) (auto simp: handle_wait_def wait_valid_def wait_times_def extends_def signed_run_def)
qed (auto simp: clock_times_def)

section \<open>The program\<close>

lemma check_verdict_cases:
  assumes "check_ok m (\<lambda>(v, s). case v of Continue \<Rightarrow> g s | Return c \<Rightarrow> f c s) = Inr x"
  obtains (Continue) s where "m = Inr (Continue, s)" "g s = Inr x"
    | (Return) c s where "m = Inr (Return c, s)" "f c s = Inr x"
proof -
  from assms obtain v s where "m = Inr (v, s)" "(case v of Continue \<Rightarrow> g s | Return c \<Rightarrow> f c s) = Inr x"
    by (cases m) (auto simp del: check_ok_Inr)
  with that show thesis by (cases v) simp_all
qed

text \<open>
  What may be said of a script without mentioning the state of the library: one of the files holds a
  certificate that may sign code and is validly signed with its own key, a signature of the script is valid
  for that key, and the certificate had not expired at one of the times.
\<close>

definition certificate_signed ::
    "(public_key \<Rightarrow> digest option \<Rightarrow> byte list \<Rightarrow> byte list \<Rightarrow> bool) \<Rightarrow> cert_file set \<Rightarrow> int set \<Rightarrow> effect \<Rightarrow> bool" where
  "certificate_signed valid F T e \<longleftrightarrow>
     (\<forall>script n es. e = Ran script n es \<longrightarrow> (\<exists>j. fed es = take j script) \<and>
        (\<exists>os\<in>F. \<exists>expires m d sig. file_key valid os expires m d \<and> (\<exists>now\<in>T. now \<le> expires) \<and> valid m d script sig))"

lemma signed_run_certificate:
  assumes "keys_from valid F K h" "signed_run valid K T h e"
  shows "certificate_signed valid F T e"
  unfolding certificate_signed_def
proof (intro allI impI)
  fix script n es assume e: "e = Ran script n es"
  with assms(2) obtain k now input where j: "\<exists>j. fed es = take j script"
    and k: "k \<in> K" "now \<in> T" "now \<le> expiry k" "signed_input valid h input k script"
    by (auto simp: signed_run_def)
  from assms(1) k(1) obtain m os where m: "holds_key h k m" "os \<in> F" "file_key valid os (expiry k) m (md k)"
    by (auto simp: keys_from_def)
  from k(4) m(1) obtain sig where "valid m (md k) script sig" by (auto simp: signed_input_def)
  with j k m show "(\<exists>j. fed es = take j script) \<and> (\<exists>os\<in>F. \<exists>expires m d sig. file_key valid os expires m d \<and>
      (\<exists>now\<in>T. now \<le> expires) \<and> valid m d script sig)" by blast
qed

lemma quiet_certificate_signed: "quiet e \<Longrightarrow> certificate_signed valid F T e"
  by (auto simp: quiet_def certificate_signed_def)

lemma free_all_quiet: "free_all ssl s = Inr s' \<Longrightarrow> extends quiet s s'"
  by (auto simp: free_all_def Let_def extends_def conn_release_def if_fail split: option.splits if_splits)

lemma main_protected_signed:
  assumes ok: "openssl_contents ssl heap valid" and v: "main_valid ssl fresh argv os w"
  defines "s \<equiv> \<lparr>res = zero_resources, lib = w, trace = []\<rparr>"
  assumes r: "main_protected ssl fresh argv os s = Inr (vd, s')"
  shows "extends (certificate_signed valid (cert_files (certs os)) (clock_times (waits os))) s s'"
proof -
  let ?E = "certificate_signed valid (cert_files (certs os)) (clock_times (waits os))"
  have nk: "no_keys s" unfolding s_def by (rule zero_no_keys)
  have quiet: "extends ?E t u" if "extends quiet t u" for t u
    by (rule extends_mono [OF that quiet_certificate_signed])
  show ?thesis
  proof (cases "length argv < 2")
    case True
    with r have "extends quiet s s'" by (auto simp: main_protected_def extends_def)
    then show ?thesis by (rule quiet)
  next
    case argv: False
    obtain v1 s1 where o: "open_sockets (sockets os) s = (v1, s1)" by fastforce
    note s1 = open_sockets_no_keys [OF nk o]
    show ?thesis
    proof (cases v1)
      case (Return c)
      with r argv o s1 show ?thesis by (auto simp: main_protected_def intro: quiet)
    next
      case Continue
      with v argv o have c: "certs_valid ssl fresh (argv ! 1) (certs os) s1"
        and wv: "\<And>s2. load_certs ssl fresh (argv ! 1) (certs os) s1 = Inr (Continue, s2) \<Longrightarrow>
          waits_valid ssl (waits os) s2"
        by (auto simp: main_valid_def s_def)
      note load = load_certs_safe [OF openssl_contentsD(1) [OF ok] conjunct1 [OF s1] c gives_True]
      have x: "extends ?E s s2" if "load_certs ssl fresh (argv ! 1) (certs os) s1 = Inr (v2, s2)" for v2 s2
        using safe_InrD [OF load that] s1 by (auto intro: quiet extends_trans)
      from r argv o Continue have "check_ok (load_certs ssl fresh (argv ! 1) (certs os) s1) (\<lambda>(v, s).
          case v of Return c \<Rightarrow> Inr (Return c, s) | Continue \<Rightarrow> event_loop ssl (waits os) s) = Inr (vd, s')"
        by (simp add: main_protected_def del: check_ok_Inr)
      then show ?thesis
      proof (cases rule: check_verdict_cases)
        case (Return c s2)
        with x [OF Return(1)] show ?thesis by simp
      next
        case (Continue s2)
        note kf = load_certs_heap [OF ok conjunct1 [OF s1] c Continue(1)]
        have "server_inv (live_in heap) (loaded_keys s2) s2"
          using safe_InrD [OF load Continue(1)] by (simp add: loaded_def)
        then have "rsafe (event_loop ssl (waits os) s2) (\<lambda>(v, s'). extends (signed_run valid (loaded_keys s2)
            (clock_times (waits os)) (heap (lib s2))) s2 s')"
          using signed_looping.run_safe [of ssl heap valid "loaded_keys s2" s2 "heap (lib s2)" "waits os" "clock_times (waits os)"]
            ok wv [OF Continue(1)] by (auto elim: safe_mono)
        with Continue(2) have "extends (signed_run valid (loaded_keys s2) (clock_times (waits os)) (heap (lib s2))) s2 s'"
          by (auto dest: safe_InrD)
        then have "extends ?E s2 s'" by (rule extends_mono) (rule signed_run_certificate [OF kf])
        with x [OF Continue(1)] show ?thesis by (rule extends_trans)
      qed
    qed
  qed
qed

lemma main_signed:
  assumes ok: "openssl_contents ssl heap valid" and v: "main_valid ssl fresh argv os w"
  shows "rsafe (main ssl fresh argv os w) (\<lambda>(vd, s').
    (\<forall>e\<in>set (trace s'). certificate_signed valid (cert_files (certs os)) (clock_times (waits os)) e) \<and>
    (\<forall>c. vd = Return c \<longrightarrow> res s' = zero_resources))"
proof (rule safe_mono [OF main_safe [OF openssl_contentsD(1) [OF ok] v]], goal_cases)
  case (1 a)
  obtain vd s' where a: "a = (vd, s')" by (cases a)
  from 1(1) [unfolded a main_def] obtain s where s: "main_protected ssl fresh argv os \<lparr>res = zero_resources, lib = w, trace = []\<rparr> = Inr (vd, s)"
    "vd = Continue \<and> s' = s \<or> free_all ssl s = Inr s'"
    by (cases rule: check_verdict_cases) auto
  let ?E = "certificate_signed valid (cert_files (certs os)) (clock_times (waits os))"
  have "extends ?E s s'" using s(2) by (auto intro: extends_mono [OF free_all_quiet] quiet_certificate_signed)
  with main_protected_signed [OF ok v s(1)] have "extends ?E \<lparr>res = zero_resources, lib = w, trace = []\<rparr> s'"
    by (rule extends_trans)
  with 1(2) a show ?case by (auto simp: extends_def)
qed

end
