(* ===== verification/Service.thy ===== *)
theory Service
  imports Signed_Scripts
begin

text \<open>
  What the server is for, without buffers, descriptors, keys or OpenSSL: a service that holds what the open
  connections have sent and runs scripts. Every event of \<open>main.c\<close> is a sequence of its steps.
\<close>

section \<open>The service\<close>

record service =
  inputs :: "nat \<Rightarrow> byte list option"
  executed :: "byte list list"

text \<open>
  A connection starts with nothing sent. It is closed at any time, and then it may run a script, once, if what
  it has sent is signed. \<open>auth\<close> relates what was sent to the script in it.
\<close>

inductive service_step :: "(byte list \<Rightarrow> byte list \<Rightarrow> bool) \<Rightarrow> service \<Rightarrow> service \<Rightarrow> bool" for auth where
  connected: "i < MAX_CONCURRENCY \<Longrightarrow> inputs a i = None \<Longrightarrow>
    service_step auth a (a\<lparr>inputs := (inputs a)(i \<mapsto> [])\<rparr>)"
| received: "inputs a i = Some d \<Longrightarrow> service_step auth a (a\<lparr>inputs := (inputs a)(i \<mapsto> d @ bs)\<rparr>)"
| closed: "inputs a i = Some d \<Longrightarrow> service_step auth a (a\<lparr>inputs := (inputs a)(i := None)\<rparr>)"
| ran: "inputs a i = Some d \<Longrightarrow> auth d script \<Longrightarrow>
    service_step auth a (a\<lparr>inputs := (inputs a)(i := None), executed := executed a @ [script]\<rparr>)"

inductive_cases service_stepE: "service_step auth a b"

abbreviation serves :: "(byte list \<Rightarrow> byte list \<Rightarrow> bool) \<Rightarrow> service \<Rightarrow> service \<Rightarrow> bool" where
  "serves auth \<equiv> (service_step auth)\<^sup>*\<^sup>*"

lemma serves_step: "service_step auth a b \<Longrightarrow> serves auth a b"
  by (rule r_into_rtranclp)

lemma service_step_mono: "service_step auth a b \<Longrightarrow> (\<And>d sc. auth d sc \<Longrightarrow> auth' d sc) \<Longrightarrow> service_step auth' a b"
  by (elim service_stepE) (auto intro: service_step.intros)

lemma serves_mono:
  assumes "serves auth a b" "\<And>d sc. auth d sc \<Longrightarrow> auth' d sc"
  shows "serves auth' a b"
  using assms(1) by induction (auto intro: rtranclp.rtrancl_into_rtrancl service_step_mono [OF _ assms(2)])

text \<open>The service runs only signed scripts, and has at most 128 connections.\<close>

lemma serves_signed:
  assumes "serves auth a b"
  shows "\<exists>scripts. executed b = executed a @ scripts \<and> (\<forall>sc\<in>set scripts. \<exists>d. auth d sc)"
  using assms
proof induction
  case (step b c)
  from step(2,3) show ?case by (elim service_stepE) auto
qed simp

lemma serves_indices:
  assumes "serves auth a b" "\<And>i d. inputs a i = Some d \<Longrightarrow> i < MAX_CONCURRENCY" "inputs b i = Some d"
  shows "i < MAX_CONCURRENCY"
  using assms(1,3)
proof (induction arbitrary: i d)
  case base
  then show ?case by (rule assms(2))
next
  case (step b c)
  from step(2,4) step.IH show ?case by (elim service_stepE) (auto split: if_splits)
qed

section \<open>What the server's state stands for\<close>

definition conn_inputs :: "Connection list \<Rightarrow> nat \<Rightarrow> byte list option" where
  "conn_inputs cs i = (if i < length cs \<and> fd (cs ! i) > 0 then Some (conn_data (cs ! i)) else None)"

definition scripts_of :: "effect list \<Rightarrow> byte list list" where
  "scripts_of es = concat (map (\<lambda>e. case e of Ran script n xs \<Rightarrow> [script] | _ \<Rightarrow> []) es)"

definition service_of :: "'w server \<Rightarrow> service" where
  "service_of s = \<lparr>inputs = conn_inputs (conns (res s)), executed = scripts_of (trace s)\<rparr>"

text \<open>
  Every open connection is watched with its index as the data of its events, and one that is not in use holds
  nothing of the one that used its buffer before.
\<close>

definition tidy :: "'w server \<Rightarrow> bool" where
  "tidy s \<longleftrightarrow> (\<forall>i<length (conns (res s)).
     if fd (conns (res s) ! i) > 0
     then Watch (fd (conns (res s) ! i)) (EPOLLIN OR EPOLLRDHUP) (int i) \<in> set (trace s)
     else conn_data (conns (res s) ! i) = [])"

lemma scripts_of_append [simp]: "scripts_of (es @ fs) = scripts_of es @ scripts_of fs"
  by (simp add: scripts_of_def)

lemma scripts_of_quiet: "\<forall>e\<in>set es. quiet e \<Longrightarrow> scripts_of es = []"
  by (auto simp: scripts_of_def split: effect.splits)

lemma scripts_of_ran [simp]: "scripts_of [Ran script n es] = [script]"
  by (simp add: scripts_of_def)

lemma conn_inputs_update:
  "i < length cs \<Longrightarrow> conn_inputs (cs[i := c]) = (conn_inputs cs)(i := if fd c > 0 then Some (conn_data c) else None)"
  by (auto simp: conn_inputs_def fun_eq_iff nth_list_update)

lemma tidy_update:
  assumes "tidy s" "conns (res s') = (conns (res s))[i := c]" "trace s' = trace s @ es"
    "if fd c > 0 then fd c = fd (conns (res s) ! i) \<or> Watch (fd c) (EPOLLIN OR EPOLLRDHUP) (int i) \<in> set es
     else conn_data c = []"
  shows "tidy s'"
  unfolding tidy_def
proof (intro allI impI)
  fix j assume j: "j < length (conns (res s'))"
  show "if fd (conns (res s') ! j) > 0 then Watch (fd (conns (res s') ! j)) (EPOLLIN OR EPOLLRDHUP) (int j) \<in> set (trace s')
    else conn_data (conns (res s') ! j) = []"
    using assms j by (cases "j = i") (auto simp: tidy_def split: if_splits)
qed

lemma tidy_close:
  "tidy s \<Longrightarrow> conns (res s') = (conns (res s))[i := c] \<Longrightarrow> extends P s s' \<Longrightarrow> fd c \<le> 0 \<Longrightarrow> conn_data c = [] \<Longrightarrow> tidy s'"
  by (auto simp: extends_def intro: tidy_update)

lemma tidy_same: "tidy s \<Longrightarrow> conns (res s') = conns (res s) \<Longrightarrow> extends P s s' \<Longrightarrow> tidy s'"
  by (auto simp: tidy_def extends_def)

lemma service_of_quiet:
  "extends quiet s t \<Longrightarrow> conns (res t) = cs \<Longrightarrow> service_of t = (service_of s)\<lparr>inputs := conn_inputs cs\<rparr>"
  by (auto simp: extends_def service_of_def scripts_of_quiet)

lemma service_of_same: "extends quiet s t \<Longrightarrow> conns (res t) = conns (res s) \<Longrightarrow> service_of t = service_of s"
  by (simp add: service_of_quiet) (simp add: service_of_def)

section \<open>Handlers as steps of the service\<close>

definition refines :: "(byte list \<Rightarrow> byte list \<Rightarrow> bool) \<Rightarrow> 'w server \<Rightarrow> 'w server \<Rightarrow> bool" where
  "refines auth s s' \<longleftrightarrow>
     (tidy s \<longrightarrow> tidy s' \<and> serves auth (service_of s) (service_of s'))"

lemma refines_refl [simp, intro]: "refines auth s s"
  by (simp add: refines_def)

lemma refines_trans: "refines auth s t \<Longrightarrow> refines auth t u \<Longrightarrow> refines auth s u"
  by (auto simp: refines_def)

lemma refines_same: "extends quiet s t \<Longrightarrow> conns (res t) = conns (res s) \<Longrightarrow> refines auth s t"
  by (auto simp: refines_def service_of_same intro: tidy_same)

lemma free_conn_conns:
  assumes "free_conn i s = Inr s'"
  obtains c where "conns (res s') = (conns (res s))[i := c]" "fd c = 0" "conn_data c = []" "i < length (conns (res s))"
proof -
  have "i < length (conns (res s))" using assms by (auto simp: free_conn_def conn_at_def split: if_splits)
  with assms that [of "(conns (res s) ! i)\<lparr>fd := 0, buf_size := 0, open_time := 0\<rparr>"] show thesis
    by (auto simp: free_conn_def conn_data_def Let_def split: option.splits)
qed

lemma free_conn_refines:
  assumes "free_conn i s = Inr s'" "fd (conns (res s) ! i) > 0"
  shows "refines auth s s'"
proof -
  from free_conn_conns [OF assms(1)] obtain c where
    c: "conns (res s') = (conns (res s))[i := c]" "fd c = 0" "conn_data c = []" "i < length (conns (res s))" .
  have "inputs (service_of s) i = Some (conn_data (conns (res s) ! i))"
    using assms(2) c(4) by (simp add: service_of_def conn_inputs_def)
  from service_step.closed [OF this, of auth]
  have "serves auth (service_of s) ((service_of s)\<lparr>inputs := (inputs (service_of s))(i := None)\<rparr>)" by (rule serves_step)
  moreover have "service_of s' = (service_of s)\<lparr>inputs := (inputs (service_of s))(i := None)\<rparr>"
    using service_of_quiet [OF conjunct2 [OF free_conn_Inr [OF assms(1)]] c(1)] c(2,4)
    by (simp add: conn_inputs_update service_of_def)
  ultimately show ?thesis
    using c tidy_close [OF _ c(1) conjunct2 [OF free_conn_Inr [OF assms(1)]]] by (auto simp: refines_def)
qed

lemma evict_refines:
  assumes inv: "conns_inv (res s)" and r: "evict s = Inr s'"
  shows "refines auth s s'"
proof (cases "unat (conns_total (res s)) \<ge> MAX_CONCURRENCY")
  case True
  from evict_oldest [OF inv True] obtain i where "evict s = free_conn i s" "fd (conns (res s) ! i) > 0" by metis
  with r show ?thesis by (auto intro: free_conn_refines)
next
  case False
  with r show ?thesis by (simp add: evict_def)
qed

lemma open_conn_data: "conn_data c = [] \<Longrightarrow> conn_data (open_conn c n now) = []" "fd (open_conn c n now) = n"
  by (auto simp: open_conn_def conn_data_def Let_def split: option.splits)

lemma accept_conn_refines:
  assumes inv: "conns_inv (res s)" and os: "accept_ok os" and r: "accept_conn os s = Inr s'"
  shows "refines auth s s'"
proof -
  from r obtain t where t: "evict s = Inr t" by (cases "evict s") (auto simp: accept_conn_def)
  note st = evict_refines [OF inv t, of auth]
  have inv_t: "conns_inv (res t)" using safe_InrD [OF evict_safe [OF inv] t] by simp
  show ?thesis
  proof (cases "accept_result os < 0")
    case True
    with r t have "s' = emit [Perror ''Failed to accept a TCP connection''] t" by (simp add: accept_conn_def)
    then have "refines auth t s'" by (auto intro: refines_same simp: extends_def)
    with st show ?thesis by (rule refines_trans)
  next
    case False
    then have os': "0 < accept_result os" "\<not> add_result os < 0" using os by (auto simp: accept_ok_def)
    from False os' r t obtain i where i: "unused_loop (conns (res t)) 0 = Some i"
      by (auto simp: accept_conn_def Let_def c_assert_def split: option.splits)
    from unused_loop_some [OF i] have lt: "i < length (conns (res t))" "fd (conns (res t) ! i) \<le> 0" by auto
    let ?c = "open_conn (conns (res t) ! i) (accept_result os) (clock_result os)"
    from False os' r t i lt have s': "conns (res s') = (conns (res t))[i := ?c]" "trace s' = trace t @ [Watch (accept_result os) (EPOLLIN OR EPOLLRDHUP) (int i)]"
      by (auto simp: accept_conn_def Let_def conn_at_def set_conn_def emit_def)
    have "refines auth t s'"
      unfolding refines_def
    proof (intro impI conjI)
      assume td: "tidy t"
      then have d: "conn_data (conns (res t) ! i) = []" using lt by (auto simp: tidy_def)
      show "tidy s'" by (rule tidy_update [OF td s']) (use os' in \<open>simp add: open_conn_data d\<close>)
      have "i < MAX_CONCURRENCY" "inputs (service_of t) i = None"
        using lt inv_t by (auto simp: conns_inv_def service_of_def conn_inputs_def)
      from service_step.connected [OF this, of auth]
      have "serves auth (service_of t) ((service_of t)\<lparr>inputs := (inputs (service_of t))(i \<mapsto> [])\<rparr>)" by (rule serves_step)
      also have "(service_of t)\<lparr>inputs := (inputs (service_of t))(i \<mapsto> [])\<rparr> = service_of s'"
        using s' lt os' d by (simp add: service_of_def conn_inputs_update open_conn_data scripts_of_def)
      finally show "serves auth (service_of t) (service_of s')" .
    qed
    with st show ?thesis by (rule refines_trans)
  qed
qed

text \<open>The receive loop touches its connection only.\<close>

lemma recv_into_fd: "recv_into c bs = Inr d \<Longrightarrow> fd d = fd c"
  by (auto simp: recv_into_def split: option.splits if_splits)

lemma recv_loop_conns:
  "recv_loop i chunks errno s = Inr s' \<Longrightarrow> fd (conns (res s) ! i) > 0 \<Longrightarrow> i < length (conns (res s)) \<Longrightarrow>
   \<exists>c. conns (res s') = (conns (res s))[i := c] \<and> (if fd c > 0 then fd c = fd (conns (res s) ! i) else conn_data c = [])"
proof (induction chunks arbitrary: s)
  case Nil
  then show ?case
    by (cases "errno = EAGAIN") (auto elim!: free_conn_conns intro: exI [of _ "conns (res s) ! i"])
next
  case (Cons bs chunks)
  show ?case
  proof (cases "bs = []")
    case True
    with Cons.prems show ?thesis by (auto intro: exI [of _ "conns (res s) ! i"])
  next
    case False
    with Cons.prems obtain d where d: "recv_into (conns (res s) ! i) bs = Inr d" by (auto simp: if_fail)
    note fd = recv_into_fd [OF d]
    show ?thesis
    proof (cases "buf_size d \<ge> MAX_SCRIPT_SIZE")
      case True
      with False Cons.prems d show ?thesis by (auto elim!: free_conn_conns)
    next
      case small: False
      let ?d = "if buf_size d \<ge> buf_cap d then d\<lparr>buf_cap := buf_cap d * 2\<rparr> else d"
      from False small Cons.prems d have "recv_loop i chunks errno (set_conn i ?d s) = Inr s'" by (simp add: Let_def)
      moreover have d': "fd ?d = fd (conns (res s) ! i)" "conns (res (set_conn i ?d s)) ! i = ?d"
        using fd Cons.prems(3) by simp_all
      ultimately obtain c where "conns (res s') = (conns (res (set_conn i ?d s)))[i := c]"
        "if fd c > 0 then fd c = fd (conns (res s) ! i) else conn_data c = []"
        using Cons.IH [of "set_conn i ?d s"] Cons.prems(2,3) unfolding d'(2) d'(1) by auto
      then show ?thesis by (intro exI [of _ c]) simp
    qed
  qed
qed

lemma recv_loop_refines:
  assumes inv: "conns_inv (res s)" and i: "i < MAX_CONCURRENCY" "fd (conns (res s) ! i) > 0"
    and rf: "recv_fits (buf_cap (conns (res s) ! i)) (buf_size (conns (res s) ! i)) chunks"
    and r: "recv_loop i chunks errno s = Inr s'"
  shows "refines auth s s'"
proof -
  have len: "i < length (conns (res s))" using conns_inv_at [OF inv i(1)] by simp
  from recv_loop_conns [OF r i(2) len] obtain c where
    c: "conns (res s') = (conns (res s))[i := c]" "if fd c > 0 then fd c = fd (conns (res s) ! i) else conn_data c = []" by blast
  have p: "recv_post i chunks s s'" by (rule safe_InrD [OF recv_loop_safe [OF inv i rf] r])
  then have x: "extends quiet s s'" by (simp add: recv_post_def)
  have d: "inputs (service_of s) i = Some (conn_data (conns (res s) ! i))"
    using i(2) len by (simp add: service_of_def conn_inputs_def)
  from service_of_quiet [OF x c(1)]
  have s': "service_of s' = (service_of s)\<lparr>inputs := (inputs (service_of s))(i := if fd c > 0 then Some (conn_data c) else None)\<rparr>"
    unfolding conn_inputs_update [OF len] by (simp add: service_of_def)
  have "serves auth (service_of s) (service_of s')"
  proof (cases "fd c > 0")
    case True
    then have "conn_data c = conn_data (conns (res s) ! i) @ concat (takeWhile (\<lambda>b. b \<noteq> []) chunks)"
      using p c len by (auto simp: recv_post_def)
    with True service_step.received [OF d, of auth "concat (takeWhile (\<lambda>b. b \<noteq> []) chunks)"] show ?thesis
      unfolding s' by (auto intro: serves_step)
  next
    case False
    with service_step.closed [OF d, of auth] show ?thesis unfolding s' by (auto intro: serves_step)
  qed
  with c x show ?thesis by (auto simp: refines_def extends_def intro: tidy_update split: if_splits)
qed

text \<open>What was sent is signed for a key that had not expired at one of the times.\<close>

definition validly_signed ::
    "(public_key \<Rightarrow> digest option \<Rightarrow> byte list \<Rightarrow> byte list \<Rightarrow> bool) \<Rightarrow>
     PubKey set \<Rightarrow> int set \<Rightarrow> (nat \<Rightarrow> obj option) \<Rightarrow> byte list \<Rightarrow> byte list \<Rightarrow> bool" where
  "validly_signed valid K T h input script \<longleftrightarrow>
     (\<exists>k\<in>K. \<exists>now\<in>T. now \<le> expiry k \<and> signed_input valid h input k script)"

lemma authenticate_refines:
  assumes ok: "openssl_contents ssl heap valid" and inv: "server_inv (live_in heap) K s"
    and i: "i < MAX_CONCURRENCY" "fd (conns (res s) ! i) > 0" and xos: "writes_ok xos" and now: "now \<in> T"
    and r: "authenticate ssl i now xos s = Inr (vd, s')"
  shows "refines (validly_signed valid K T (heap (lib s))) s s'"
  using ok inv i xos r
proof (cases rule: authenticate_cases)
  case expired
  then show ?thesis by (intro refines_same)
next
  case (rejected t)
  then have "refines (validly_signed valid K T (heap (lib s))) s t" by (intro refines_same)
  moreover have "fd (conns (res t) ! i) > 0" using rejected i by simp
  ultimately show ?thesis using free_conn_refines [OF rejected(4)] by (blast intro: refines_trans)
next
  case (accepted t script n es k)
  from free_conn_conns [OF accepted(8)] obtain c where
    c: "conns (res s') = (conns (res t))[i := c]" "fd c = 0" "conn_data c = []" "i < length (conns (res t))" .
  let ?auth = "validly_signed valid K T (heap (lib s))"
  have "?auth (conn_data (conns (res s) ! i)) script" using accepted(5-7) now by (auto simp: validly_signed_def)
  moreover have "inputs (service_of s) i = Some (conn_data (conns (res s) ! i))"
    using i(2) c(4) accepted(2) by (simp add: service_of_def conn_inputs_def)
  ultimately have "serves ?auth (service_of s)
      ((service_of s)\<lparr>inputs := (inputs (service_of s))(i := None), executed := executed (service_of s) @ [script]\<rparr>)"
    by (intro serves_step service_step.ran)
  moreover have "service_of s' = (service_of s)\<lparr>inputs := (inputs (service_of s))(i := None),
      executed := executed (service_of s) @ [script]\<rparr>"
    using service_of_quiet [OF conjunct2 [OF free_conn_Inr [OF accepted(8)]] c(1)] accepted(2,3) c(2,4)
    by (simp add: conn_inputs_update service_of_def)
  moreover have "tidy s \<Longrightarrow> tidy t" by (rule tidy_same [OF _ accepted(2), where P = "\<lambda>_. True"]) (simp_all add: extends_def accepted(3))
  ultimately show ?thesis
    using c tidy_close [OF _ c(1) conjunct2 [OF free_conn_Inr [OF accepted(8)]]] by (auto simp: refines_def)
qed

lemma handle_conn_refines:
  assumes ok: "openssl_contents ssl heap valid" and inv: "server_inv (live_in heap) K s"
    and i: "i < MAX_CONCURRENCY" "fd (conns (res s) ! i) > 0"
    and rf: "evs AND EPOLLIN > 0 \<longrightarrow> recv_fits (buf_cap (conns (res s) ! i)) (buf_size (conns (res s) ! i)) (recv_chunks os)"
    and x: "writes_ok (exec_answers os)" "time_result os \<in> T"
    and r: "handle_conn ssl i evs os s = Inr (vd, s')"
  shows "refines (validly_signed valid K T (heap (lib s))) s s'"
proof -
  let ?R = "refines (validly_signed valid K T (heap (lib s)))"
  have c: "conns_inv (res s)" using inv by (simp add: server_inv_def)
  obtain t u where
    t: "t = s \<or> evs AND EPOLLIN > 0 \<and> recv_loop i (recv_chunks os) (recv_errno os) s = Inr t" "server_inv (live_in heap) K t"
    and u: "u = t \<and> vd = Continue \<or> fd (conns (res t) ! i) > 0 \<and> authenticate ssl i (time_result os) (exec_answers os) t = Inr (vd, u)"
      "server_inv (live_in heap) K u"
    and s': "s' = u \<or> fd (conns (res u) ! i) > 0 \<and> free_conn i u = Inr s'"
    by (rule handle_conn_stages [OF openssl_contentsD(1) [OF ok] inv i rf x(1) r])
  have "?R s t" using t(1) rf recv_loop_refines [OF c i] by auto
  moreover have "heap (lib t) = heap (lib s)"
    using t(1) rf safe_InrD [OF recv_loop_safe [OF c i], of "recv_chunks os" "recv_errno os" t]
    by (auto simp: recv_post_def same_keys_def)
  then have "?R t u" using u(1) authenticate_refines [OF ok t(2) i(1) _ x, of vd u] by auto
  moreover have "?R u s'" using s' free_conn_refines by auto
  ultimately show ?thesis by (blast intro: refines_trans)
qed

lemma handle_event_refines:
  assumes ok: "openssl_contents ssl heap valid" and inv: "server_inv (live_in heap) K s"
    and v: "event_valid (event, os) s" and t: "time_result os \<in> T"
    and r: "handle_event ssl event os s = Inr (vd, s')"
  shows "refines (validly_signed valid K T (heap (lib s))) s s'"
proof -
  have c: "conns_inv (res s)" using inv by (simp add: server_inv_def)
  consider (acc) "data_fd event = MAX_INT32" | (conn) "data_fd event \<noteq> MAX_INT32" "data_fd event < int MAX_CONCURRENCY"
    | (bad) "data_fd event \<noteq> MAX_INT32" "\<not> data_fd event < int MAX_CONCURRENCY" by blast
  then show ?thesis
  proof cases
    case acc
    then have "accept_ok (acc os)" using v by (simp add: event_valid_def)
    moreover from r acc have "accept_conn (acc os) s = Inr s'" by (auto simp: handle_event_def if_fail)
    ultimately show ?thesis by (rule accept_conn_refines [OF c])
  next
    case conn
    then have nn: "0 \<le> data_fd event" and lt: "nat (data_fd event) < MAX_CONCURRENCY"
      and o: "fd (conns (res s) ! nat (data_fd event)) > 0" "writes_ok (exec_answers os)"
        "events event AND EPOLLIN > 0 \<longrightarrow> recv_fits (buf_cap (conns (res s) ! nat (data_fd event)))
           (buf_size (conns (res s) ! nat (data_fd event))) (recv_chunks os)"
      using v by (auto simp: event_valid_def Let_def)
    from r conn nn have "handle_conn ssl (nat (data_fd event)) (events event) os s = Inr (vd, s')"
      by (simp add: handle_event_def)
    from handle_conn_refines [OF ok inv lt o(1,3,2) t this] show ?thesis .
  next
    case bad
    with r have "conns (res s') = conns (res s)" "extends quiet s s'" by (auto simp: handle_event_def extends_def)
    then show ?thesis by (intro refines_same)
  qed
qed

lemma returned_event_refines:
  assumes "openssl_contents ssl heap valid" "server_inv (live_in heap) K s" "kernel_ok os" "time_result os \<in> T"
    "handle_event ssl event os s = Inr (v, s')"
  shows "refines (validly_signed valid K T (heap (lib s))) s s'"
proof -
  note p = survived_event_valid [OF assms(2,3,5)]
  from handle_event_refines [OF assms(1,2) conjunct1 [OF p] _ conjunct2 [OF p]] assms(4) show ?thesis by simp
qed

text \<open>The runs of the server are runs of the service.\<close>

lemma reachable_refines:
  assumes "reachable ssl T s0 s" "openssl_contents ssl heap valid" "server_inv (live_in heap) K s0"
  shows "refines (validly_signed valid K T (heap (lib s0))) s0 s"
  using assms(1)
proof induction
  case (handled s os event s')
  from reachable_contents [OF handled(1) assms(2,3)] have s: "server_inv (live_in heap) K s" "heap (lib s) = heap (lib s0)"
    by auto
  from returned_event_refines [OF assms(2) s(1) handled(2,3,4)] handled.IH show ?case
    unfolding s(2) by (blast intro: refines_trans)
qed simp

section \<open>The program as a service\<close>

interpretation service_batch: event_run "\<lambda>e. handle_event ssl (fst e) (snd e)" "handle_events ssl"
  "\<lambda>e s. event_valid e s \<and> time_result (snd e) \<in> T" "\<lambda>es s. events_valid ssl es s \<and> batch_times es \<subseteq> T"
  "\<lambda>s. openssl_contents ssl heap valid \<and> server_inv (live_in heap) K s \<and> heap (lib s) = h \<and>
     refines (validly_signed valid K T h) start s" "signed_run valid K T h"
  for ssl heap valid K T h start
proof (unfold_locales, goal_cases)
  case (2 e es s)
  show ?case by (cases e) simp
next
  case (4 s e)
  then have ok: "openssl_contents ssl heap valid" and inv: "server_inv (live_in heap) K s" "heap (lib s) = h"
    and s: "refines (validly_signed valid K T h) start s" and v: "event_valid (fst e, snd e) s" "time_result (snd e) \<in> T" by auto
  show ?case
    by (rule safe_mono [OF handle_event_contents [OF ok inv(1) v]])
      (use s ok inv(2) handle_event_refines [OF ok inv(1) v] in \<open>auto intro: refines_trans\<close>)
qed (auto simp: batch_times_def)

interpretation service_looping: event_run "handle_wait ssl" "event_loop ssl"
  "\<lambda>x s. wait_valid ssl x s \<and> wait_times x \<subseteq> T" "\<lambda>xs s. waits_valid ssl xs s \<and> clock_times xs \<subseteq> T"
  "\<lambda>s. openssl_contents ssl heap valid \<and> server_inv (live_in heap) K s \<and> heap (lib s) = h \<and>
     refines (validly_signed valid K T h) start s" "signed_run valid K T h"
  for ssl heap valid K T h start
proof (unfold_locales, goal_cases)
  case (2 x xs s)
  show ?case by (cases x) (simp_all add: handle_wait_def)
next
  case (4 s x)
  note batch = service_batch.run_safe [where ssl = ssl and heap = heap and valid = valid and K = K and T = T and h = h and start = start]
  have "refines (validly_signed valid K T h) s (emit [Perror ''Call to epoll_wait failed''] s)"
    by (rule refines_same) (simp_all add: extends_def)
  with 4 batch show ?case
    by (cases x) (auto simp: handle_wait_def wait_valid_def wait_times_def extends_def signed_run_def intro: refines_trans)
qed (auto simp: clock_times_def)

text \<open>Until it waits for events the program touches no connection.\<close>

lemma open_sockets_conns: "open_sockets os s = (v, s') \<Longrightarrow> conns (res s') = conns (res s)"
  by (auto simp: open_sockets_def Let_def emit_def split: if_splits)

lemma grow_keys_conns [simp]: "conns (grow_keys fresh r) = conns r"
  by (simp add: grow_keys_def Let_def)

lemma read_key_conns: "read_key ssl os path i s = Inr (b, s') \<Longrightarrow> conns (res s') = conns (res s)"
  by (auto simp: read_key_def Let_def if_fail split: option.splits if_splits)

lemma load_entries_conns:
  "load_entries ssl fresh path entries cap attempts s = Inr (n, s') \<Longrightarrow> conns (res s') = conns (res s)"
proof (induction entries arbitrary: cap attempts s)
  case (Cons e entries)
  then show ?case by (cases e) (fastforce simp: Let_def dest: read_key_conns split: if_splits)
qed simp

lemma load_certs_conns:
  assumes "load_certs ssl fresh path os s = Inr (v, s')"
  shows "conns (res s') = conns (res s)"
proof (cases os)
  case (Directory dir)
  with assms show ?thesis
    by (cases dir) (auto simp: load_certs_def load_dir_def alloc_keys_def if_fail dest!: load_entries_conns split: if_splits)
qed (use assms in \<open>auto simp: load_certs_def Let_def alloc_keys_def if_fail dest!: read_key_conns\<close>)

text \<open>What may be sent, stated of the files alone: a signature for a certificate in one of them, and the script.\<close>

definition certificate_input ::
    "(public_key \<Rightarrow> digest option \<Rightarrow> byte list \<Rightarrow> byte list \<Rightarrow> bool) \<Rightarrow> cert_file set \<Rightarrow> int set \<Rightarrow>
     byte list \<Rightarrow> byte list \<Rightarrow> bool" where
  "certificate_input valid F T input script \<longleftrightarrow>
     (\<exists>os\<in>F. \<exists>expires m d sig. file_key valid os expires m d \<and> (\<exists>now\<in>T. now \<le> expires) \<and>
        input = sig @ 10 # script \<and> valid m d script sig)"

lemma validly_signed_certificate:
  assumes "keys_from valid F K h" "validly_signed valid K T h input script"
  shows "certificate_input valid F T input script"
proof -
  from assms(2) obtain k now where k: "k \<in> K" "now \<in> T" "now \<le> expiry k" "signed_input valid h input k script"
    by (auto simp: validly_signed_def)
  from assms(1) k(1) obtain m os where m: "holds_key h k m" "os \<in> F" "file_key valid os (expiry k) m (md k)"
    by (auto simp: keys_from_def)
  from k(4) m(1) obtain sig where "input = sig @ 10 # script" "valid m (md k) script sig" by (auto simp: signed_input_def)
  with k m show ?thesis unfolding certificate_input_def by blast
qed

definition idle_service :: service where "idle_service = \<lparr>inputs = (\<lambda>_. None), executed = []\<rparr>"

lemma zero_service:
  "tidy \<lparr>res = zero_resources, lib = w, trace = []\<rparr>" "service_of \<lparr>res = zero_resources, lib = w, trace = []\<rparr> = idle_service"
  by (auto simp: tidy_def zero_resources_def zero_conn_def conn_data_def service_of_def conn_inputs_def fun_eq_iff
      scripts_of_def idle_service_def)

lemma main_protected_serves:
  assumes ok: "openssl_contents ssl heap valid" and v: "main_valid ssl fresh argv os w"
  defines "s \<equiv> \<lparr>res = zero_resources, lib = w, trace = []\<rparr>"
  assumes r: "main_protected ssl fresh argv os s = Inr (vd, s')"
  shows "serves (certificate_input valid (cert_files (certs os)) (clock_times (waits os))) idle_service (service_of s')"
proof -
  let ?auth = "certificate_input valid (cert_files (certs os)) (clock_times (waits os))"
  have nk: "no_keys s" unfolding s_def by (rule zero_no_keys)
  have idle: "service_of t = idle_service" if "extends quiet s t" "conns (res t) = conns (res s)" for t
    using service_of_same [OF that] zero_service(2) [of w] by (simp add: s_def)
  show ?thesis
  proof (cases "length argv < 2")
    case True
    with r have "service_of s' = idle_service" by (intro idle) (auto simp: main_protected_def extends_def)
    then show ?thesis by simp
  next
    case argv: False
    obtain v1 s1 where o: "open_sockets (sockets os) s = (v1, s1)" by fastforce
    note s1 = open_sockets_no_keys [OF nk o] and c1 = open_sockets_conns [OF o]
    show ?thesis
    proof (cases v1)
      case (Return c)
      with r argv o have "s' = s1" by (simp add: main_protected_def)
      with idle s1 c1 show ?thesis by simp
    next
      case Continue
      with v argv o have c: "certs_valid ssl fresh (argv ! 1) (certs os) s1"
        and wv: "\<And>s2. load_certs ssl fresh (argv ! 1) (certs os) s1 = Inr (Continue, s2) \<Longrightarrow>
          waits_valid ssl (waits os) s2"
        by (auto simp: main_valid_def s_def)
      note load = load_certs_contents [OF ok conjunct1 [OF s1] c]
      have idle2: "service_of s2 = idle_service" "conns (res s2) = conns (res s)" "extends quiet s s2"
        if "load_certs ssl fresh (argv ! 1) (certs os) s1 = Inr (v2, s2)" for v2 s2
        using safe_InrD [OF load that] s1 c1 load_certs_conns [OF that] by (auto intro: idle extends_trans)
      from r argv o Continue have "check_ok (load_certs ssl fresh (argv ! 1) (certs os) s1) (\<lambda>(v, s).
          case v of Return c \<Rightarrow> Inr (Return c, s) | Continue \<Rightarrow> event_loop ssl (waits os) s) = Inr (vd, s')"
        by (simp add: main_protected_def del: check_ok_Inr)
      then show ?thesis
      proof (cases rule: check_verdict_cases)
        case (Return c s2)
        with idle2 [OF Return(1)] show ?thesis by simp
      next
        case (Continue s2)
        let ?K = "loaded_keys s2" and ?h = "heap (lib s2)" and ?T = "clock_times (waits os)"
        from safe_InrD [OF load Continue(1)] have inv: "server_inv (live_in heap) ?K s2"
          and kf: "keys_from valid (cert_files (certs os)) ?K ?h" by auto
        have "rsafe (event_loop ssl (waits os) s2) (\<lambda>(v, s'). refines (validly_signed valid ?K ?T ?h) s2 s')"
          using service_looping.run_safe [where ssl = ssl and heap = heap and valid = valid and K = ?K and T = ?T and h = ?h and start = s2 and s = s2 and es = "waits os"] ok inv wv [OF Continue(1)]
          by (auto elim: safe_mono)
        with Continue(2) have "refines (validly_signed valid ?K ?T ?h) s2 s'" by (auto dest: safe_InrD)
        moreover have "tidy s2"
          by (rule tidy_same [OF zero_service(1) [of w, folded s_def] idle2(2,3) [OF Continue(1)]])
        ultimately have "serves (validly_signed valid ?K ?T ?h) (service_of s2) (service_of s')"
          by (simp add: refines_def)
        then show ?thesis
          unfolding idle2(1) [OF Continue(1)] by (rule serves_mono) (rule validly_signed_certificate [OF kf])
      qed
    qed
  qed
qed

lemma main_serves:
  assumes ok: "openssl_contents ssl heap valid" and v: "main_valid ssl fresh argv os w"
  shows "rsafe (main ssl fresh argv os w) (\<lambda>(vd, s').
    (\<exists>a. serves (certificate_input valid (cert_files (certs os)) (clock_times (waits os))) idle_service a \<and>
       executed a = scripts_of (trace s')) \<and>
    (\<forall>c. vd = Return c \<longrightarrow> res s' = zero_resources))"
proof (rule safe_mono [OF main_safe [OF openssl_contentsD(1) [OF ok] v]], goal_cases)
  case (1 a)
  obtain vd s' where a: "a = (vd, s')" by (cases a)
  from 1(1) [unfolded a main_def] obtain s where s: "main_protected ssl fresh argv os \<lparr>res = zero_resources, lib = w, trace = []\<rparr> = Inr (vd, s)"
    "vd = Continue \<and> s' = s \<or> free_all ssl s = Inr s'"
    by (cases rule: check_verdict_cases) auto
  have "extends quiet s s'" using s(2) by (auto intro: free_all_quiet)
  then have "executed (service_of s) = scripts_of (trace s')" by (auto simp: extends_def service_of_def scripts_of_quiet)
  with main_protected_serves [OF ok v s(1)] 1(2) a show ?case by auto
qed

end
