(* ===== verification/Batch.thy ===== *)
theory Batch
  imports Service
begin

text \<open>
  The events of one \<open>epoll_wait\<close>: what an event leaves alone, why a batch that was true of the connections
  when \<open>epoll_wait\<close> returned stays so while it is handled, the events the server aborts on, and what becomes
  of an event whose connection was evicted in its batch.
\<close>

section \<open>What an event leaves alone\<close>

text \<open>No other connection is touched.\<close>

definition only_conn :: "nat \<Rightarrow> 'w server \<Rightarrow> 'w server \<Rightarrow> bool" where
  "only_conn i s s' \<longleftrightarrow> (\<exists>c. conns (res s') = (conns (res s))[i := c])"

lemma only_conn_refl [intro, simp]: "conns (res s') = conns (res s) \<Longrightarrow> only_conn i s s'"
  unfolding only_conn_def by (metis list_update_id)

lemma only_conn_trans: "only_conn i s t \<Longrightarrow> only_conn i t u \<Longrightarrow> only_conn i s u"
  by (auto simp: only_conn_def)

lemma free_conn_only: "free_conn i s = Inr s' \<Longrightarrow> only_conn i s s'"
  by (auto elim!: free_conn_conns simp: only_conn_def)

lemma authenticate_only:
  assumes "openssl_contents ssl heap valid" "server_inv (live_in heap) K s" "i < MAX_CONCURRENCY" "fd (conns (res s) ! i) > 0"
    "writes_ok xos" "authenticate ssl i now xos s = Inr (v, s')"
  shows "only_conn i s s'"
  using assms
proof (cases rule: authenticate_cases)
  case (rejected t)
  with free_conn_only [OF rejected(4)] show ?thesis by (simp add: only_conn_def)
next
  case (accepted t)
  with free_conn_only [OF accepted(8)] show ?thesis by (simp add: only_conn_def)
qed simp

lemma handle_conn_only:
  assumes ok: "openssl_contents ssl heap valid" and inv: "server_inv (live_in heap) K s"
    and i: "i < MAX_CONCURRENCY" "fd (conns (res s) ! i) > 0"
    and rf: "evs AND EPOLLIN > 0 \<longrightarrow> recv_fits (buf_cap (conns (res s) ! i)) (buf_size (conns (res s) ! i)) (recv_chunks os)"
    and x: "writes_ok (exec_answers os)" and r: "handle_conn ssl i evs os s = Inr (vd, s')"
  shows "only_conn i s s'"
proof -
  have len: "i < length (conns (res s))" using conns_inv_at [OF _ i(1)] inv by (simp add: server_inv_def)
  obtain t u where
    t: "t = s \<or> evs AND EPOLLIN > 0 \<and> recv_loop i (recv_chunks os) (recv_errno os) s = Inr t" "server_inv (live_in heap) K t"
    and u: "u = t \<and> vd = Continue \<or> fd (conns (res t) ! i) > 0 \<and> authenticate ssl i (time_result os) (exec_answers os) t = Inr (vd, u)"
    and s': "s' = u \<or> fd (conns (res u) ! i) > 0 \<and> free_conn i u = Inr s'"
    by (rule handle_conn_stages [OF openssl_contentsD(1) [OF ok] inv i rf x r])
  have "only_conn i s t" if "recv_loop i (recv_chunks os) (recv_errno os) s = Inr t"
    using recv_loop_conns [OF that i(2) len] by (auto simp: only_conn_def)
  with t(1) have "only_conn i s t" by auto
  moreover have "only_conn i t u" using u authenticate_only [OF ok t(2) i(1) _ x] by auto
  moreover have "only_conn i u s'" using s' free_conn_only by auto
  ultimately show ?thesis by (blast intro: only_conn_trans)
qed

text \<open>While there is room a new connection takes a slot that is not in use.\<close>

lemma accept_conn_free_slot:
  assumes inv: "conns_inv (res s)" and room: "unat (conns_total (res s)) < MAX_CONCURRENCY" and r: "accept_conn os s = Inr s'"
  shows "conns (res s') = conns (res s) \<or>
    (\<exists>j c. j < length (conns (res s)) \<and> fd (conns (res s) ! j) \<le> 0 \<and> conns (res s') = (conns (res s))[j := c])"
proof -
  have e: "evict s = Inr s" using room by (simp add: evict_def)
  show ?thesis
  proof (cases "unused_loop (conns (res s)) 0")
    case None
    then show ?thesis using r e by (auto simp: accept_conn_def Let_def if_fail split: if_splits)
  next
    case (Some j)
    with unused_loop_some [OF Some] have j: "j < length (conns (res s))" "fd (conns (res s) ! j) \<le> 0" by auto
    with Some r e have "conns (res s') \<in> {conns (res s), (conns (res s))[j := open_conn (conns (res s) ! j) (accept_result os) (clock_result os)]}"
      by (auto simp: accept_conn_def Let_def if_fail set_conn_def emit_def conn_at_def split: if_splits)
    with j show ?thesis by blast
  qed
qed

section \<open>Batches\<close>

text \<open>
  A batch as \<open>epoll_wait\<close> reports it: each connection once, every event possible in the state in which it
  returned, and room for a connection if there is one to accept.
\<close>

definition batch_ok :: "(epoll_event \<times> event_os) list \<Rightarrow> 'w server \<Rightarrow> bool" where
  "batch_ok evs s \<longleftrightarrow> distinct (map (\<lambda>e. data_fd (fst e)) evs) \<and> (\<forall>e\<in>set evs. event_valid e s) \<and>
     (MAX_INT32 \<in> (\<lambda>e. data_fd (fst e)) ` set evs \<longrightarrow> unat (conns_total (res s)) < MAX_CONCURRENCY)"

lemma event_valid_at:
  "data_fd event = MAX_INT32 \<or> conns (res s') ! nat (data_fd event) = conns (res s) ! nat (data_fd event) \<Longrightarrow>
   event_valid (event, os) s' = event_valid (event, os) s"
  by (auto simp: event_valid_def)

lemma event_keeps_valid:
  assumes ok: "openssl_contents ssl heap valid" and inv: "server_inv (live_in heap) K s"
    and v: "event_valid (event, os) s" and h: "handle_event ssl event os s = Inr (vd, s')"
    and room: "data_fd event = MAX_INT32 \<longrightarrow> unat (conns_total (res s)) < MAX_CONCURRENCY"
    and other: "event_valid (event', os') s" "data_fd event' \<noteq> data_fd event"
  shows "event_valid (event', os') s'"
proof -
  have c: "conns_inv (res s)" using inv by (simp add: server_inv_def)
  then have len: "length (conns (res s)) = MAX_CONCURRENCY" by (simp add: conns_inv_def)
  let ?k = "nat (data_fd event')"
  show ?thesis
  proof (cases "data_fd event' = MAX_INT32 \<or> \<not> data_fd event' < int MAX_CONCURRENCY")
    case True
    with other(1) show ?thesis by (auto simp: event_valid_def)
  next
    case k: False
    then have k': "0 \<le> data_fd event'" "fd (conns (res s) ! ?k) > 0" "?k < MAX_CONCURRENCY"
      using other(1) by (auto simp: event_valid_def Let_def)
    have "conns (res s') ! ?k = conns (res s) ! ?k"
    proof (cases "data_fd event = MAX_INT32")
      case True
      with h obtain r where "accept_conn (acc os) s = Inr r" "s' = r" by (auto simp: handle_event_def if_fail)
      with accept_conn_free_slot [OF c] room True have
        "conns (res s') = conns (res s) \<or> (\<exists>j c. fd (conns (res s) ! j) \<le> 0 \<and> conns (res s') = (conns (res s))[j := c])"
        by blast
      with k'(2) show ?thesis by (metis nth_list_update_neq not_le)
    next
      case conn: False
      show ?thesis
      proof (cases "data_fd event < int MAX_CONCURRENCY")
        case True
        let ?i = "nat (data_fd event)"
        have i: "0 \<le> data_fd event" "?i < MAX_CONCURRENCY" "fd (conns (res s) ! ?i) > 0" "writes_ok (exec_answers os)"
          "events event AND EPOLLIN > 0 \<longrightarrow> recv_fits (buf_cap (conns (res s) ! ?i)) (buf_size (conns (res s) ! ?i)) (recv_chunks os)"
          using v conn True by (auto simp: event_valid_def Let_def)
        from h conn True i(1) have "handle_conn ssl ?i (events event) os s = Inr (vd, s')" by (simp add: handle_event_def)
        from handle_conn_only [OF ok inv i(2,3,5,4) this] show ?thesis
          using other(2) i(1) k'(1) by (auto simp: only_conn_def nth_list_update_neq nat_eq_iff)
      next
        case False
        with h conn show ?thesis by (auto simp: handle_event_def)
      qed
    qed
    then show ?thesis using other(1) by (subst event_valid_at [where s = s]) auto
  qed
qed

text \<open>An event of a connection opens none.\<close>

lemma event_keeps_room:
  assumes ok: "openssl_contents ssl heap valid" and inv: "server_inv (live_in heap) K s"
    and v: "event_valid (event, os) s" and h: "handle_event ssl event os s = Inr (vd, s')"
    and e: "data_fd event \<noteq> MAX_INT32"
  shows "unat (conns_total (res s')) \<le> unat (conns_total (res s))"
proof (cases "data_fd event < int MAX_CONCURRENCY")
  case True
  have c: "conns_inv (res s)" using inv by (simp add: server_inv_def)
  let ?i = "nat (data_fd event)"
  have i: "0 \<le> data_fd event" "?i < MAX_CONCURRENCY" "fd (conns (res s) ! ?i) > 0" "writes_ok (exec_answers os)"
    "events event AND EPOLLIN > 0 \<longrightarrow> recv_fits (buf_cap (conns (res s) ! ?i)) (buf_size (conns (res s) ! ?i)) (recv_chunks os)"
    using v e True by (auto simp: event_valid_def Let_def)
  from h e True i(1) have "handle_conn ssl ?i (events event) os s = Inr (vd, s')" by (simp add: handle_event_def)
  from handle_conn_only [OF ok inv i(2,3,5,4) this] obtain d where d: "conns (res s') = (conns (res s))[?i := d]"
    by (auto simp: only_conn_def)
  have "?i < length (conns (res s))" using conns_inv_at [OF c i(2)] by simp
  from open_conns_update [OF this, of d] i(3) have "open_conns (conns (res s')) \<le> open_conns (conns (res s))"
    unfolding d by (auto simp: of_bool_def split: if_splits)
  moreover have "conns_inv (res s')"
    using safe_InrD [OF handle_event_safe [OF openssl_contentsD(1) [OF ok] inv v UNIV_I] h] by (simp add: server_inv_def)
  ultimately show ?thesis using c by (simp add: conns_inv_def)
next
  case False
  with h e show ?thesis by (auto simp: handle_event_def)
qed

lemma batch_is_valid:
  assumes "openssl_contents ssl heap valid" "server_inv (live_in heap) K s" "batch_ok evs s"
  shows "events_valid ssl evs s"
  using assms
proof (induction evs arbitrary: s)
  case (Cons e evs)
  obtain event os where e: "e = (event, os)" by (cases e)
  from Cons.prems(3) have v: "event_valid (event, os) s" by (simp add: batch_ok_def e)
  have "events_valid ssl evs s'" if h: "handle_event ssl event os s = Inr (Continue, s')" for s'
  proof (rule Cons.IH [OF Cons.prems(1)])
    show "server_inv (live_in heap) K s'"
      using safe_InrD [OF handle_event_safe [OF openssl_contentsD(1) [OF Cons.prems(1)] Cons.prems(2) v UNIV_I] h] by simp
    show "batch_ok evs s'"
      unfolding batch_ok_def
    proof (intro conjI ballI impI)
      fix e' assume e': "e' \<in> set evs"
      obtain event' os' where "e' = (event', os')" by (cases e')
      with Cons.prems(3) e e' show "event_valid e' s'"
        using event_keeps_valid [OF Cons.prems(1,2) v h, of event' os'] by (force simp: batch_ok_def)
    next
      assume "MAX_INT32 \<in> (\<lambda>e. data_fd (fst e)) ` set evs"
      with Cons.prems(3) e have "unat (conns_total (res s)) < MAX_CONCURRENCY" "data_fd event \<noteq> MAX_INT32"
        by (fastforce simp: batch_ok_def)+
      with event_keeps_room [OF Cons.prems(1,2) v h] show "unat (conns_total (res s')) < MAX_CONCURRENCY" by simp
    qed (use Cons.prems(3) in \<open>simp add: batch_ok_def\<close>)
  qed
  with v show ?case by (auto simp: e split: sum.split verdict.split prod.split)
qed simp

lemma batch_safe:
  assumes ok: "openssl_contents ssl heap valid" and inv: "server_inv (live_in heap) K s" and b: "batch_ok evs s"
  shows "rsafe (handle_events ssl evs s) (\<lambda>(v, s'). server_inv (live_in heap) K s' \<and>
    extends (signed_run valid K (batch_times evs) (heap (lib s))) s s')"
  using signed_batch.run_safe [of ssl heap valid K s "heap (lib s)" evs "batch_times evs"] assms batch_is_valid [OF assms]
  by (auto elim: safe_mono)

section \<open>The events the server aborts on\<close>

text \<open>
  With the answers of the kernel as documented these are: a connection for which \<open>epoll_ctl\<close> fails, an index
  below the array, a connection that is not open, and more bytes than there is room for. Besides these an event
  may only block the server, in a \<open>write\<close> of \<open>exec_script\<close> that never returns.
\<close>

definition aborts_on :: "epoll_event \<Rightarrow> event_os \<Rightarrow> 'w server \<Rightarrow> bool" where
  "aborts_on event os s \<longleftrightarrow>
     (if data_fd event = MAX_INT32 then 0 < accept_result (acc os) \<and> add_result (acc os) < 0
      else data_fd event < int MAX_CONCURRENCY \<and>
        (data_fd event < 0 \<or>
         (let c = conns (res s) ! nat (data_fd event) in
          fd c \<le> 0 \<or> events event AND EPOLLIN > 0 \<and> \<not> recv_fits (buf_cap c) (buf_size c) (recv_chunks os))))"

lemma aborts_on_iff: "kernel_ok os \<Longrightarrow> aborts_on event os s \<longleftrightarrow> \<not> event_valid (event, pad os) s"
  by (auto simp: aborts_on_def event_valid_def kernel_ok_def accept_ok_def pad_writes_ok Let_def)

text \<open>Accepting and receiving do not block.\<close>

lemma free_conn_not_blocked: "free_conn i s \<noteq> Inl (Fault Blocked)"
  by (auto simp: free_conn_def conn_at_def c_assert_def Let_def split: if_splits)

lemma recv_loop_not_blocked: "recv_loop i chunks errno s \<noteq> Inl (Fault Blocked)"
proof (induction chunks arbitrary: s)
  case (Cons bs chunks)
  then show ?case
    by (auto simp: Let_def conn_at_def recv_into_def free_conn_not_blocked split: option.splits)
qed (simp add: free_conn_not_blocked)

lemma accept_conn_not_blocked: "accept_conn os s \<noteq> Inl (Fault Blocked)"
proof
  assume "accept_conn os s = Inl (Fault Blocked)"
  moreover have "evict s \<noteq> Inl (Fault Blocked)"
    by (auto simp: evict_def free_conn_not_blocked split: option.splits)
  ultimately show False
    by (auto simp: accept_conn_def check_ok_Inl c_assert_def conn_at_def Let_def split: option.splits if_splits)
qed

lemma aborts_not_blocked:
  assumes a: "aborts_on event os s" and h: "handle_event ssl event os s = Inl f"
  shows "f \<noteq> Fault Blocked"
proof (cases "data_fd event = MAX_INT32 \<or> data_fd event < 0")
  case True
  with h show ?thesis
    using accept_conn_not_blocked [of "acc os" s] by (auto simp: handle_event_def Let_def check_ok_Inl split: if_splits)
next
  case False
  let ?i = "nat (data_fd event)"
  let ?c = "conns (res s) ! ?i"
  from False a have "data_fd event < int MAX_CONCURRENCY" and
    c: "fd ?c \<le> 0 \<or> events event AND EPOLLIN > 0 \<and> \<not> recv_fits (buf_cap ?c) (buf_size ?c) (recv_chunks os)"
    by (auto simp: aborts_on_def Let_def)
  with h False have e: "handle_conn ssl ?i (events event) os s = Inl f" by (simp add: handle_event_def)
  show ?thesis
  proof (cases "?i < length (conns (res s)) \<and> fd ?c > 0")
    case True
    with c have "events event AND EPOLLIN > 0" "\<nexists>t. recv_loop ?i (recv_chunks os) (recv_errno os) s = Inr t"
      using True by (auto dest: recv_loop_survives)
    with e True show ?thesis
      using recv_loop_not_blocked [of ?i "recv_chunks os" "recv_errno os" s]
      by (cases "recv_loop ?i (recv_chunks os) (recv_errno os) s") (auto simp: handle_conn_def conn_at_def)
  next
    case False
    with e show ?thesis by (auto simp: handle_conn_def conn_at_def c_assert_def split: if_splits)
  qed
qed

lemma handle_event_fault_iff:
  assumes ok: "openssl_ok ssl live" and inv: "server_inv live K s" and os: "kernel_ok os"
  shows "(\<exists>f. f \<noteq> Fault Blocked \<and> handle_event ssl event os s = Inl f) \<longleftrightarrow> aborts_on event os s"
    "handle_event ssl event os s = Inl (Fault Blocked) \<Longrightarrow> \<not> writes_ok (exec_answers os)"
proof -
  have returns: "\<exists>r. handle_event ssl event x s = Inr r" if "event_valid (event, x) s" for x
    using handle_event_safe [OF ok inv that UNIV_I] by (auto simp: run_safe_iff)
  show "(\<exists>f. f \<noteq> Fault Blocked \<and> handle_event ssl event os s = Inl f) \<longleftrightarrow> aborts_on event os s"
  proof
    assume "\<exists>f. f \<noteq> Fault Blocked \<and> handle_event ssl event os s = Inl f"
    then have "\<nexists>r. handle_event ssl event (pad os) s = Inr r" using handle_event_cut by fastforce
    with returns [of "pad os"] show "aborts_on event os s" using aborts_on_iff [OF os] by blast
  next
    assume a: "aborts_on event os s"
    then have "\<nexists>r. handle_event ssl event os s = Inr r"
      using survived_event_valid [OF inv os] aborts_on_iff [OF os] by blast
    then obtain f where "handle_event ssl event os s = Inl f" by (metis sum.exhaust)
    with aborts_not_blocked [OF a this] show "\<exists>f. f \<noteq> Fault Blocked \<and> handle_event ssl event os s = Inl f" by blast
  qed
  assume b: "handle_event ssl event os s = Inl (Fault Blocked)"
  then have "\<not> aborts_on event os s" using aborts_not_blocked by blast
  then have v: "event_valid (event, pad os) s" using aborts_on_iff [OF os] by blast
  show "\<not> writes_ok (exec_answers os)"
  proof
    assume "writes_ok (exec_answers os)"
    with v have "event_valid (event, os) s" by (auto simp: event_valid_def Let_def)
    with returns b show False by fastforce
  qed
qed

section \<open>An eviction in the middle of a batch\<close>

text \<open>
  With a full table the slot of the evicted connection is the only free one, so the new connection takes it:
  an event of the evicted connection that is still to be handled is then taken for one of the new.
\<close>

lemma accept_conn_evicts:
  assumes inv: "conns_inv (res s)" and full: "MAX_CONCURRENCY \<le> unat (conns_total (res s))"
    and os: "accept_ok os" "0 < accept_result os"
  obtains i d s' where "i < MAX_CONCURRENCY" "fd (conns (res s) ! i) > 0"
    "\<forall>c\<in>set (conns (res s)). fd c > 0 \<longrightarrow> open_time (conns (res s) ! i) \<le> open_time c"
    "accept_conn os s = Inr s'" "conns (res s') = (conns (res s))[i := d]" "fd d = accept_result os" "buf_size d = 0"
    "trace s' = trace s @ [CloseFd (fd (conns (res s) ! i)), Watch (accept_result os) (EPOLLIN OR EPOLLRDHUP) (int i)]"
proof -
  from evict_oldest [OF inv full] obtain i where e: "evict s = free_conn i s" and
    i: "i < MAX_CONCURRENCY" "fd (conns (res s) ! i) > 0"
      "\<forall>c\<in>set (conns (res s)). fd c > 0 \<longrightarrow> open_time (conns (res s) ! i) \<le> open_time c" by metis
  have len: "i < length (conns (res s))" using conns_inv_at [OF inv i(1)] by simp
  let ?c = "(conns (res s) ! i)\<lparr>fd := 0, buf_size := 0, open_time := 0\<rparr>"
  let ?cs = "(conns (res s))[i := ?c]"
  have "unused_loop ?cs 0 \<noteq> None"
  proof
    assume "unused_loop ?cs 0 = None"
    from unused_loop_none [OF this] open_conns_update [OF len, of ?c] i(2) full_all_open(2) [OF inv full]
    show False by simp
  qed
  then obtain j where j: "unused_loop ?cs 0 = Some j" by blast
  from unused_loop_some [OF j] full_all_open(1) [OF inv full] have "j = i"
    by (cases "j = i") (auto dest: bspec [OF _ nth_mem])
  with j have u: "unused_loop ?cs 0 = Some i" by simp
  let ?d = "open_conn ?c (accept_result os) (clock_result os)"
  have d: "fd ?d = accept_result os" "buf_size ?d = 0" by (auto simp: open_conn_def Let_def)
  have "\<not> accept_result os < 0" "\<not> add_result os < 0" using os by (auto simp: accept_ok_def)
  then obtain s' where "accept_conn os s = Inr s'" "conns (res s') = (conns (res s))[i := ?d]"
    "trace s' = trace s @ [CloseFd (fd (conns (res s) ! i)), Watch (accept_result os) (EPOLLIN OR EPOLLRDHUP) (int i)]"
    using e len u by (simp add: accept_conn_def free_conn_def Let_def conn_at_def set_conn_def emit_def)
  with that [OF i _ _ d] show thesis by blast
qed

text \<open>A connection too short for the signature of any key, none of which has expired, is closed.\<close>

lemma auth_loop_short:
  "i \<le> m \<Longrightarrow> m \<le> length ks \<Longrightarrow> \<forall>k\<in>set (take m ks). now \<le> expiry k \<and> n < exp_sig_size k + 1 \<Longrightarrow>
   auth_loop ssl now raw n m i ks m w = Inr (Not_Authentic, ks, m, w)"
proof (induction "m - i" arbitrary: i)
  case (Suc d)
  then have "ks ! i \<in> set (take m ks)" by (auto simp: in_set_conv_nth intro!: exI [of _ i])
  then have "now \<le> expiry (ks ! i)" "\<not> exp_sig_size (ks ! i) + 1 \<le> n" using Suc.prems(3) by (auto simp: not_le)
  with Suc show ?case by (subst auth_loop.simps) (simp add: Let_def)
qed (subst auth_loop.simps, simp)

lemma authenticate_empty:
  assumes inv: "server_inv live K s" and i: "i < MAX_CONCURRENCY" "fd (conns (res s) ! i) > 0"
    and e: "buf_size (conns (res s) ! i) = 0" "\<forall>k\<in>loaded_keys s. now \<le> expiry k"
  shows "\<exists>s'. authenticate ssl i now xos s = Inr (Continue, s') \<and>
    i < length (conns (res s')) \<and> fd (conns (res s') ! i) = 0 \<and> trace s' = trace s @
    [Printed ''Remote bash script could not be authenticated, aborting execution'', CloseFd (fd (conns (res s) ! i))]"
proof -
  let ?m = "unat (keys_size (res s))"
  have c: "conns_inv (res s)" and k: "keys_inv live K (res s) (lib s)" using inv by (auto simp: server_inv_def)
  note at = conns_inv_at [OF c i(1)]
  then obtain raw where raw: "buf (conns (res s) ! i) = Some raw" using i(2) by (auto simp: conn_inv_def split: option.splits)
  from k obtain ks N where ks: "keys (res s) = Some ks" "?m \<le> N" "N \<le> length ks" "keys_held live (lib s) (take N ks)"
    by (auto simp: keys_inv_def)
  have "now \<le> expiry k \<and> 0 < exp_sig_size k + 1" if "k \<in> set (take ?m ks)" for k
  proof -
    from that e(2) ks(1) have "now \<le> expiry k" by (simp add: loaded_keys_def)
    moreover have "k \<in> set (take N ks)" using that set_take_subset_set_take [OF ks(2), of ks] by blast
    then have "exp_sig_size k \<in> SIG_SIZES" using ks(4) by (auto simp: keys_held_def key_ok_def)
    then have "0 < exp_sig_size k + 1" using sig_sizes_small by (metis le_less_trans word_zero_le)
    ultimately show ?thesis ..
  qed
  then have "auth_loop ssl now raw 0 ?m 0 ks ?m (lib s) = Inr (Not_Authentic, ks, ?m, lib s)"
    using ks by (intro auth_loop_short) auto
  then show ?thesis
    using at by (simp add: authenticate_def raw ks(1) e(1) Let_def free_conn_def)
qed

text \<open>
  A new connection is accepted and the oldest one evicted, whose peer has hung up: in the next event the new
  connection is closed for it.
\<close>

lemma eviction_closes_the_new_connection:
  assumes ok: "openssl_ok ssl live" and inv: "server_inv live K s" and full: "MAX_CONCURRENCY \<le> unat (conns_total (res s))"
    and acc: "data_fd e1 = MAX_INT32" "accept_ok (acc os1)" "0 < accept_result (acc os1)"
    and hup: "\<forall>i < MAX_CONCURRENCY. (\<forall>c\<in>set (conns (res s)). open_time (conns (res s) ! i) \<le> open_time c) \<longrightarrow> data_fd e2 = int i"
      "events e2 AND (EPOLLRDHUP OR EPOLLHUP) > 0" "recv_chunks os2 = []" "recv_errno os2 = EAGAIN"
    and keys: "\<forall>k\<in>loaded_keys s. time_result os2 \<le> expiry k"
  shows "\<exists>i s'. handle_events ssl [(e1, os1), (e2, os2)] s = Inr (Continue, s') \<and> data_fd e2 = int i \<and>
    trace s' = trace s @ [CloseFd (fd (conns (res s) ! i)), Watch (accept_result (acc os1)) (EPOLLIN OR EPOLLRDHUP) (int i),
      Printed ''Remote bash script could not be authenticated, aborting execution'', CloseFd (accept_result (acc os1))]"
proof -
  have c: "conns_inv (res s)" using inv by (simp add: server_inv_def)
  obtain i d t where i: "i < MAX_CONCURRENCY"
      "\<forall>c\<in>set (conns (res s)). fd c > 0 \<longrightarrow> open_time (conns (res s) ! i) \<le> open_time c"
    and t: "accept_conn (acc os1) s = Inr t" "conns (res t) = (conns (res s))[i := d]" "fd d = accept_result (acc os1)" "buf_size d = 0"
      "trace t = trace s @ [CloseFd (fd (conns (res s) ! i)), Watch (accept_result (acc os1)) (EPOLLIN OR EPOLLRDHUP) (int i)]"
    by (rule accept_conn_evicts [OF c full acc(2,3)])
  have e2: "data_fd e2 = int i" using hup(1) i full_all_open(1) [OF c full] by blast
  from safe_InrD [OF accept_conn_safe [OF c acc(2)] t(1)] have tc: "conns_inv (res t)" "same_keys s t" by auto
  have ti: "server_inv live K t" by (rule server_inv_same [OF inv tc(2,1)])
  have it: "conns (res t) ! i = d" "i < length (conns (res t))" using conns_inv_at [OF tc(1) i(1)] t(2) by auto
  have "loaded_keys t = loaded_keys s" using tc(2) by (simp add: loaded_keys_def same_keys_def cong: option.case_cong)
  with authenticate_empty [OF ti i(1), of "time_result os2" ssl "exec_answers os2"] it(1) t(3,4) acc(3) keys obtain u where
    u: "authenticate ssl i (time_result os2) (exec_answers os2) t = Inr (Continue, u)" "i < length (conns (res u))" "fd (conns (res u) ! i) = 0" "trace u = trace t @
      [Printed ''Remote bash script could not be authenticated, aborting execution'', CloseFd (accept_result (acc os1))]" by auto
  have "handle_event ssl e1 os1 s = Inr (Continue, t)" using acc(1) t(1) by (simp add: handle_event_def)
  moreover have "handle_event ssl e2 os2 t = Inr (Continue, u)"
    using e2 i(1) hup it u(1-3) t(3) acc(3) by (simp add: handle_event_def handle_conn_def c_assert_def MAX_INT32_def)
  ultimately show ?thesis using e2 u(4) t(5) by auto
qed

end
