(* ===== verification/Delivery.thy ===== *)
theory Delivery
  imports Batch
begin

text \<open>
  A connection among others: what is received in any number of events, whatever happens to the other connections
  in between, is collected in its buffer in order, until the event that ends it has its script run.
\<close>

section \<open>Events of other connections\<close>

text \<open>While no key has expired the loop over the keys leaves them as they are, and the server goes on.\<close>

lemma auth_loop_unexpired:
  assumes "auth_loop ssl now raw n m i ks m w = Inr (r, ks', m', w')" "\<forall>k\<in>set (take m ks). now \<le> expiry k" "m \<le> length ks"
  shows "ks' = ks \<and> m' = m \<and> r \<noteq> All_Expired"
  using assms(1)
proof (induction "m - i" arbitrary: i w)
  case 0
  then show ?case by (subst (asm) auth_loop.simps) auto
next
  case (Suc d)
  then have i: "i < m" by simp
  with assms(3) have "ks ! i \<in> set (take m ks)" by (auto simp: in_set_conv_nth intro!: exI [of _ i])
  with assms(2) have e: "\<not> now > expiry (ks ! i)" by auto
  have IH: "auth_loop ssl now raw n m (Suc i) ks m u = Inr (r, ks', m', w') \<Longrightarrow> ks' = ks \<and> m' = m \<and> r \<noteq> All_Expired" for u
    by (rule Suc.hyps(1)) (use Suc.hyps(2) in auto)
  show ?case
    using Suc.prems e i assms(3)
    by (subst (asm) auth_loop.simps) (auto simp: Let_def dest!: IH split: if_splits)
qed

lemma free_conn_same: "free_conn i s = Inr s' \<Longrightarrow> same_keys s s'"
  by (auto simp: free_conn_def conn_at_def same_keys_def set_conn_def emit_def Let_def split: if_splits)

lemma loaded_keys_same: "same_keys s s' \<Longrightarrow> loaded_keys s' = loaded_keys s"
  by (simp add: loaded_keys_def same_keys_def cong: option.case_cong)

lemma authenticate_unexpired:
  assumes inv: "server_inv live K s" and r: "authenticate ssl i now xos s = Inr (v, s')"
    and e: "\<forall>k\<in>loaded_keys s. now \<le> expiry k"
  shows "v = Continue \<and> loaded_keys s' = loaded_keys s"
proof -
  let ?m = "unat (keys_size (res s))"
  from inv obtain ks N where ks: "keys (res s) = Some ks" "?m \<le> length ks" by (auto simp: server_inv_def keys_inv_def)
  from r ks(1) obtain raw a ks' m w where l: "auth_loop ssl now raw (buf_size (conns (res s) ! i)) ?m 0 ks ?m (lib s) = Inr (a, ks', m, w)"
    and raw: "buf (conns (res s) ! i) = Some raw" and i: "i < length (conns (res s))"
    by (auto simp: authenticate_def conn_at_def if_fail split: option.splits if_splits)
  from auth_loop_unexpired [OF l _ ks(2)] e ks(1) have a: "ks' = ks" "m = ?m" "a \<noteq> All_Expired" by (auto simp: loaded_keys_def)
  have upd: "loaded_keys (t\<lparr>lib := w, res := (res s)\<lparr>keys := Some ks, keys_size := of_nat ?m\<rparr>\<rparr>) = loaded_keys s" for t
    using ks(1) by (simp add: loaded_keys_def)
  have free: "free_conn i t = Inr s' \<Longrightarrow> keys (res t) = Some ks \<Longrightarrow> keys_size (res t) = keys_size (res s) \<Longrightarrow>
      loaded_keys s' = loaded_keys s" for t
    using loaded_keys_same [OF free_conn_same, of i t s'] ks(1) by (simp add: loaded_keys_def)
  show ?thesis
    using r i ks(1) raw l a(3)
    by (cases a) (auto simp: authenticate_def a(1,2) Let_def if_fail simp del: of_int_add dest!: free)
qed

lemma handle_event_unexpired:
  assumes ok: "openssl_contents ssl heap valid" and inv: "server_inv (live_in heap) K s"
    and v: "event_valid (event, os) s" and h: "handle_event ssl event os s = Inr (vd, s')"
    and idx: "data_fd event = MAX_INT32 \<or> data_fd event < int MAX_CONCURRENCY"
    and e: "\<forall>k\<in>loaded_keys s. time_result os \<le> expiry k"
  shows "vd = Continue \<and> loaded_keys s' = loaded_keys s"
proof (cases "data_fd event = MAX_INT32")
  case True
  with h obtain t where t: "accept_conn (acc os) s = Inr t" "vd = Continue" "s' = t" by (auto simp: handle_event_def)
  have "accept_ok (acc os)" using v True by (simp add: event_valid_def)
  from safe_InrD [OF accept_conn_safe [OF _ this] t(1)] inv have "same_keys s s'" by (simp add: server_inv_def t(3))
  with t(2) show ?thesis by (simp add: loaded_keys_same)
next
  case False
  let ?i = "nat (data_fd event)"
  have i: "0 \<le> data_fd event" "?i < MAX_CONCURRENCY" "fd (conns (res s) ! ?i) > 0" "writes_ok (exec_answers os)"
    "events event AND EPOLLIN > 0 \<longrightarrow> recv_fits (buf_cap (conns (res s) ! ?i)) (buf_size (conns (res s) ! ?i)) (recv_chunks os)"
    using v idx False by (auto simp: event_valid_def Let_def)
  from h False idx i(1) have hc: "handle_conn ssl ?i (events event) os s = Inr (vd, s')" by (simp add: handle_event_def)
  have c: "conns_inv (res s)" using inv by (simp add: server_inv_def)
  obtain t u where
    t: "t = s \<or> events event AND EPOLLIN > 0 \<and> recv_loop ?i (recv_chunks os) (recv_errno os) s = Inr t" "server_inv (live_in heap) K t"
    and u: "u = t \<and> vd = Continue \<or> fd (conns (res t) ! ?i) > 0 \<and> authenticate ssl ?i (time_result os) (exec_answers os) t = Inr (vd, u)"
    and s': "s' = u \<or> fd (conns (res u) ! ?i) > 0 \<and> free_conn ?i u = Inr s'"
    by (rule handle_conn_stages [OF openssl_contentsD(1) [OF ok] inv i(2,3,5,4) hc])
  have "same_keys s t"
    using t(1) i(5) safe_InrD [OF recv_loop_safe [OF c i(2,3)], of "recv_chunks os" "recv_errno os" t]
    by (auto simp: recv_post_def)
  then have st: "loaded_keys t = loaded_keys s" by (rule loaded_keys_same)
  have "vd = Continue \<and> loaded_keys u = loaded_keys t"
    using u authenticate_unexpired [OF t(2)] e st by auto
  moreover have "loaded_keys s' = loaded_keys u" using s' loaded_keys_same [OF free_conn_same, of ?i u s'] by blast
  ultimately show ?thesis using st by simp
qed

section \<open>Delivery\<close>

text \<open>
  The events that a connection outlives: any event of another connection, and of its own those that only say
  that there is something to receive, after which no more is there.
\<close>

definition outlived :: "nat \<Rightarrow> epoll_event \<times> event_os \<Rightarrow> bool" where
  "outlived i = (\<lambda>(event, os). (data_fd event = MAX_INT32 \<or> data_fd event < int MAX_CONCURRENCY) \<and>
     (data_fd event = int i \<longrightarrow> events event = EPOLLIN \<and> recv_errno os = EAGAIN))"

definition delivered :: "nat \<Rightarrow> (epoll_event \<times> event_os) list \<Rightarrow> byte list" where
  "delivered i evs = concat (map (\<lambda>(event, os).
     if data_fd event = int i then concat (takeWhile (\<lambda>b. b \<noteq> []) (recv_chunks os)) else []) evs)"

definition accepts :: "(epoll_event \<times> event_os) list \<Rightarrow> nat" where
  "accepts evs = length (filter (\<lambda>e. data_fd (fst e) = MAX_INT32) evs)"

lemma delivered_Nil [simp]: "delivered i [] = []"
  by (simp add: delivered_def)

lemma delivered_Cons: "delivered i (e # evs) = delivered i [e] @ delivered i evs"
  by (simp add: delivered_def)

lemma accepts_Nil [simp]: "accepts [] = 0"
  by (simp add: accepts_def)

lemma accepts_Cons: "accepts (e # evs) = accepts [e] + accepts evs"
  by (simp add: accepts_def)

text \<open>What becomes of connection \<open>i\<close> in events that it outlives.\<close>

definition collects :: "nat \<Rightarrow> (epoll_event \<times> event_os) list \<Rightarrow> 'w server \<Rightarrow> 'w server \<Rightarrow> bool" where
  "collects i evs s s' \<longleftrightarrow> loaded_keys s' = loaded_keys s \<and> fd (conns (res s') ! i) = fd (conns (res s) ! i) \<and>
     conn_data (conns (res s') ! i) = conn_data (conns (res s) ! i) @ delivered i evs \<and>
     unat (conns_total (res s')) \<le> unat (conns_total (res s)) + accepts evs"

lemma open_conns_accept: "open_conns (cs[j := c]) \<le> open_conns cs + 1"
proof (cases "j < length cs")
  case True
  from open_conns_update [OF this, of c] show ?thesis by (auto simp: of_bool_def split: if_splits)
qed (simp add: list_update_beyond)

lemma accept_event_collects:
  assumes inv: "server_inv live K s" and i: "i < MAX_CONCURRENCY" "fd (conns (res s) ! i) > 0"
    and e: "data_fd event = MAX_INT32" "unat (conns_total (res s)) < MAX_CONCURRENCY"
    and v: "event_valid (event, os) s" and h: "handle_event ssl event os s = Inr (vd, s')"
  shows "collects i [(event, os)] s s'"
proof -
  have c: "conns_inv (res s)" using inv by (simp add: server_inv_def)
  from h e(1) obtain t where t: "accept_conn (acc os) s = Inr t" "s' = t" by (auto simp: handle_event_def)
  have "accept_ok (acc os)" using v e(1) by (simp add: event_valid_def)
  from safe_InrD [OF accept_conn_safe [OF c this] t(1)] have s': "conns_inv (res s')" "same_keys s s'" by (simp_all add: t(2))
  from accept_conn_free_slot [OF c e(2) t(1)] have
    slot: "conns (res s') = conns (res s) \<or> (\<exists>j c. fd (conns (res s) ! j) \<le> 0 \<and> conns (res s') = (conns (res s))[j := c])"
    by (auto simp: t(2))
  then have "conns (res s') ! i = conns (res s) ! i" using i(2) by (metis nth_list_update_neq not_le)
  moreover have "open_conns (conns (res s')) \<le> open_conns (conns (res s)) + 1" using slot open_conns_accept by auto
  moreover have "data_fd event \<noteq> int i" using e(1) i(1) by (simp add: MAX_INT32_def)
  ultimately show ?thesis
    using s' c e(1) by (simp add: collects_def delivered_def accepts_def loaded_keys_same conns_inv_def)
qed

lemma other_event_collects:
  assumes ok: "openssl_contents ssl heap valid" and inv: "server_inv (live_in heap) K s"
    and e: "data_fd event \<noteq> MAX_INT32" "data_fd event \<noteq> int i" "data_fd event < int MAX_CONCURRENCY"
      "\<forall>k\<in>loaded_keys s. time_result os \<le> expiry k"
    and v: "event_valid (event, os) s" and h: "handle_event ssl event os s = Inr (vd, s')"
  shows "collects i [(event, os)] s s'"
proof -
  let ?j = "nat (data_fd event)"
  have j: "0 \<le> data_fd event" "?j < MAX_CONCURRENCY" "fd (conns (res s) ! ?j) > 0" "writes_ok (exec_answers os)"
    "events event AND EPOLLIN > 0 \<longrightarrow> recv_fits (buf_cap (conns (res s) ! ?j)) (buf_size (conns (res s) ! ?j)) (recv_chunks os)"
    using v e by (auto simp: event_valid_def Let_def)
  from h e(1,3) j(1) have "handle_conn ssl ?j (events event) os s = Inr (vd, s')" by (simp add: handle_event_def)
  from handle_conn_only [OF ok inv j(2,3,5,4) this] have "conns (res s') ! i = conns (res s) ! i"
    using e(2) j(1) by (auto simp: only_conn_def nth_list_update_neq)
  with handle_event_unexpired [OF ok inv v h] event_keeps_room [OF ok inv v h e(1)] e show ?thesis
    by (simp add: collects_def delivered_def accepts_def)
qed

lemma data_event_collects:
  assumes inv: "server_inv live K s" and i: "i < MAX_CONCURRENCY" "fd (conns (res s) ! i) > 0"
    and e: "data_fd event = int i" "events event = EPOLLIN" "recv_errno os = EAGAIN"
      "length (conn_data (conns (res s) ! i)) + length (delivered i [(event, os)]) < unat MAX_SCRIPT_SIZE"
    and v: "event_valid (event, os) s" and h: "handle_event ssl event os s = Inr (vd, s')"
  shows "vd = Continue \<and> collects i [(event, os)] s s'"
proof -
  let ?c = "conns (res s) ! i"
  have c: "conns_inv (res s)" using inv by (simp add: server_inv_def)
  note at = conns_inv_at [OF c i(1)]
  have ne: "data_fd event \<noteq> MAX_INT32" "data_fd event < int MAX_CONCURRENCY" using e(1) i(1) by (simp_all add: MAX_INT32_def)
  have bits: "EPOLLIN AND EPOLLIN > 0" "\<not> EPOLLIN AND (EPOLLRDHUP OR EPOLLHUP) > 0" "\<not> EPOLLIN AND EPOLLERR > 0"
    by (simp_all add: EPOLLIN_def EPOLLRDHUP_def EPOLLHUP_def EPOLLERR_def)
  have fits: "recv_fits (buf_cap ?c) (buf_size ?c) (recv_chunks os)"
    using v ne e(1,2) bits(1) by (simp add: event_valid_def Let_def)
  from recv_loop_safe [OF c i fits, of "recv_errno os"] obtain t where
    t: "recv_loop i (recv_chunks os) (recv_errno os) s = Inr t" "recv_post i (recv_chunks os) s t" unfolding run_safe_iff by blast
  have d: "delivered i [(event, os)] = concat (takeWhile (\<lambda>b. b \<noteq> []) (recv_chunks os))" using e(1) by (simp add: delivered_def)
  from at i(2) have "unat (buf_size ?c) = length (conn_data ?c)"
    by (auto simp: conn_inv_def conn_data_def split: option.splits)
  then have "unat (buf_size ?c) + length (concat (takeWhile (\<lambda>b. b \<noteq> []) (recv_chunks os))) < unat MAX_SCRIPT_SIZE"
    using e(4) by (simp only: d)
  from recv_loop_stays [OF t(1) [unfolded e(3)] conjunct1 [OF at] this] have fd: "fd (conns (res t) ! i) = fd ?c" by simp
  with t(2) i(2) have p: "conns_inv (res t)" "same_keys s t" "conn_data (conns (res t) ! i) = conn_data ?c @ delivered i [(event, os)]"
    unfolding d by (auto simp: recv_post_def)
  from recv_loop_conns [OF t(1) i(2) conjunct1 [OF at]] obtain x where x: "conns (res t) = (conns (res s))[i := x]" by blast
  with fd at have "fd x = fd ?c" by simp
  then have "open_conns (conns (res t)) = open_conns (conns (res s))"
    using open_conns_update [OF conjunct1 [OF at], of x] by (simp add: x)
  then have tot: "unat (conns_total (res t)) = unat (conns_total (res s))" using c p(1) by (simp add: conns_inv_def)
  have "i < length (conns (res t))" using conns_inv_at [OF p(1) i(1)] by simp
  with h e(1,2) ne at i t(1) bits have "vd = Continue" "s' = t"
    by (simp_all add: handle_event_def handle_conn_def c_assert_def)
  with p fd tot show ?thesis by (simp add: collects_def loaded_keys_same)
qed

lemma handle_event_collects:
  assumes ok: "openssl_contents ssl heap valid" and inv: "server_inv (live_in heap) K s"
    and i: "i < MAX_CONCURRENCY" "fd (conns (res s) ! i) > 0"
    and e: "outlived i (event, os)" "\<forall>k\<in>loaded_keys s. time_result os \<le> expiry k"
      "unat (conns_total (res s)) + accepts [(event, os)] \<le> MAX_CONCURRENCY"
      "length (conn_data (conns (res s) ! i)) + length (delivered i [(event, os)]) < unat MAX_SCRIPT_SIZE"
    and v: "event_valid (event, os) s" and h: "handle_event ssl event os s = Inr (vd, s')"
  shows "vd = Continue \<and> collects i [(event, os)] s s'"
proof -
  have idx: "data_fd event = MAX_INT32 \<or> data_fd event < int MAX_CONCURRENCY" using e(1) by (auto simp: outlived_def)
  have vd: "vd = Continue" using handle_event_unexpired [OF ok inv v h idx e(2)] by simp
  consider "data_fd event = MAX_INT32" | "data_fd event = int i" | "data_fd event \<noteq> MAX_INT32" "data_fd event \<noteq> int i" by blast
  then show ?thesis
  proof cases
    case 1
    with e(3) have "unat (conns_total (res s)) < MAX_CONCURRENCY" by (simp add: accepts_def)
    from accept_event_collects [OF inv i 1 this v h] vd show ?thesis by simp
  next
    case 2
    with e(1) have "events event = EPOLLIN" "recv_errno os = EAGAIN" by (auto simp: outlived_def)
    from data_event_collects [OF inv i 2 this e(4) v h] show ?thesis .
  next
    case 3
    with idx other_event_collects [OF ok inv 3 _ e(2) v h] vd show ?thesis by simp
  qed
qed

lemma handle_events_collects:
  assumes "openssl_contents ssl heap valid" "server_inv (live_in heap) K s" "i < MAX_CONCURRENCY" "fd (conns (res s) ! i) > 0"
    "\<forall>e\<in>set evs. outlived i e" "\<forall>k\<in>loaded_keys s. \<forall>now\<in>batch_times evs. now \<le> expiry k"
    "unat (conns_total (res s)) + accepts evs \<le> MAX_CONCURRENCY"
    "length (conn_data (conns (res s) ! i)) + length (delivered i evs) < unat MAX_SCRIPT_SIZE"
    "events_valid ssl evs s"
  shows "\<exists>s'. handle_events ssl evs s = Inr (Continue, s') \<and> server_inv (live_in heap) K s' \<and> heap (lib s') = heap (lib s) \<and>
    collects i evs s s'"
  using assms(2-)
proof (induction evs arbitrary: s)
  case Nil
  then show ?case by (simp add: collects_def)
next
  case (Cons e evs)
  obtain event os where e: "e = (event, os)" by (cases e)
  have v: "event_valid (event, os) s" using Cons.prems(8) by (simp add: e)
  from handle_event_contents [OF assms(1) Cons.prems(1) v UNIV_I] obtain vd t where
    t: "handle_event ssl event os s = Inr (vd, t)" "server_inv (live_in heap) K t" "heap (lib t) = heap (lib s)"
    by (auto simp: run_safe_iff)
  have "\<forall>k\<in>loaded_keys s. time_result os \<le> expiry k" using Cons.prems(5) by (auto simp: batch_times_def e)
  moreover have "unat (conns_total (res s)) + accepts [(event, os)] \<le> MAX_CONCURRENCY"
    using Cons.prems(6) by (simp add: accepts_Cons [of "(event, os)" evs] e)
  moreover have "length (conn_data (conns (res s) ! i)) + length (delivered i [(event, os)]) < unat MAX_SCRIPT_SIZE"
    using Cons.prems(7) by (simp add: delivered_Cons [of i "(event, os)" evs] e)
  ultimately have c: "vd = Continue" "collects i [e] s t"
    using handle_event_collects [OF assms(1) Cons.prems(1-3) _ _ _ _ v t(1)] Cons.prems(4) by (simp_all add: e)
  then have c': "loaded_keys t = loaded_keys s" "fd (conns (res t) ! i) = fd (conns (res s) ! i)"
    "conn_data (conns (res t) ! i) = conn_data (conns (res s) ! i) @ delivered i [e]"
    "unat (conns_total (res t)) \<le> unat (conns_total (res s)) + accepts [e]" by (simp_all add: collects_def)
  have "\<exists>s'. handle_events ssl evs t = Inr (Continue, s') \<and> server_inv (live_in heap) K s' \<and> heap (lib s') = heap (lib t) \<and>
      collects i evs t s'"
  proof (rule Cons.IH [OF t(2) Cons.prems(2)])
    show "unat (conns_total (res t)) + accepts evs \<le> MAX_CONCURRENCY"
      using c'(4) Cons.prems(6) by (simp add: accepts_Cons [of e evs])
    show "length (conn_data (conns (res t) ! i)) + length (delivered i evs) < unat MAX_SCRIPT_SIZE"
      using Cons.prems(7) by (simp add: c'(3) delivered_Cons [of i e evs])
  qed (use c c' Cons.prems t(1) in \<open>simp_all add: batch_times_def e\<close>)
  then obtain s' where s': "handle_events ssl evs t = Inr (Continue, s')" "server_inv (live_in heap) K s'"
    "heap (lib s') = heap (lib t)" "collects i evs t s'" by blast
  have "collects i (e # evs) s s'" using c' s'(4) by (simp add: collects_def delivered_Cons [of i e evs] accepts_Cons [of e evs])
  with s' t(1,3) c(1) show ?case by (simp add: e)
qed

section \<open>Batches in a row\<close>

text \<open>Batches that are handled one after the other are one long batch.\<close>

lemma handle_events_append:
  "handle_events ssl (evs @ evs') s = check_ok (handle_events ssl evs s) (\<lambda>(v, s).
     case v of Return c \<Rightarrow> Inr (Return c, s) | Continue \<Rightarrow> handle_events ssl evs' s)"
proof (induction evs arbitrary: s)
  case (Cons e evs)
  obtain event os where "e = (event, os)" by (cases e)
  with Cons show ?case by (cases "handle_event ssl event os s") (auto split: verdict.split)
qed simp

lemma event_loop_batches: "event_loop ssl (map Inr batches) s = handle_events ssl (concat batches) s"
proof (induction batches arbitrary: s)
  case (Cons evs batches)
  then show ?case
    by (cases "handle_events ssl evs s") (auto simp: handle_events_append split: verdict.split)
qed simp

lemma events_valid_append:
  "events_valid ssl (evs @ evs') s \<longleftrightarrow> events_valid ssl evs s \<and>
     (\<forall>s'. handle_events ssl evs s = Inr (Continue, s') \<longrightarrow> events_valid ssl evs' s')"
proof (induction evs arbitrary: s)
  case (Cons e evs)
  obtain event os where e: "e = (event, os)" by (cases e)
  with Cons show ?case
    by (cases "handle_event ssl event os s") (auto split: verdict.splits)
qed simp

text \<open>
  A script that a client sends in any number of packets, in batches with any events of other connections, is run
  in the event that ends its connection.
\<close>

lemma delivered_script_is_run:
  assumes ok: "openssl_contents ssl heap valid" "openssl_accepts ssl heap valid" and inv: "server_inv (live_in heap) K s"
    and i: "i < MAX_CONCURRENCY" "fd (conns (res s) ! i) > 0"
    and evs: "concat batches = evs @ [(event, os)]" "\<forall>e\<in>set evs. outlived i e" "events_valid ssl (evs @ [(event, os)]) s"
      "unat (conns_total (res s)) + accepts evs \<le> MAX_CONCURRENCY"
    and e: "data_fd event = int i" "events event AND EPOLLIN > 0" "events event AND (EPOLLRDHUP OR EPOLLHUP) > 0"
      "recv_errno os = EAGAIN"
    and k: "\<forall>k\<in>loaded_keys s. \<forall>now\<in>batch_times (evs @ [(event, os)]). now \<le> expiry k" "k \<in> loaded_keys s"
      "holds_key (heap (lib s)) k pk"
    and data: "conn_data (conns (res s) ! i) @ delivered i (evs @ [(event, os)]) = sig @ 10 # script"
    and sz: "length sig + length script + 1 < unat MAX_SCRIPT_SIZE"
    and sig: "of_nat (length sig) = exp_sig_size k" "valid pk (md k) script sig"
  shows "\<exists>t s' script' es. handle_events ssl evs s = Inr (Continue, t) \<and> event_loop ssl (map Inr batches) s = Inr (Continue, s') \<and>
    (all_written (exec_answers os) \<longrightarrow> fed es = script' \<and> (\<exists>p. Reaped p \<in> set es)) \<and>
    trace s' = trace t @ [Ran script' (script_n (res t) + 1) es, CloseFd (fd (conns (res s) ! i))] \<and>
    (\<exists>k'\<in>loaded_keys s. signed_input valid (heap (lib s)) (sig @ 10 # script) k' script')"
proof -
  let ?last = "concat (takeWhile (\<lambda>b. b \<noteq> []) (recv_chunks os))"
  have split: "conn_data (conns (res s) ! i) @ delivered i evs @ ?last = sig @ 10 # script"
    using data e(1) by (simp add: delivered_def)
  have "length (conn_data (conns (res s) ! i)) + length (delivered i evs) < unat MAX_SCRIPT_SIZE"
    using arg_cong [OF split, of length] sz by simp
  moreover have v: "events_valid ssl evs s" "\<And>t. handle_events ssl evs s = Inr (Continue, t) \<Longrightarrow> event_valid (event, os) t"
    using evs(3) by (auto simp: events_valid_append)
  moreover have "\<forall>k\<in>loaded_keys s. \<forall>now\<in>batch_times evs. now \<le> expiry k" "\<forall>k\<in>loaded_keys s. time_result os \<le> expiry k"
    using k(1) by (auto simp: batch_times_def)
  ultimately obtain t where t: "handle_events ssl evs s = Inr (Continue, t)" "server_inv (live_in heap) K t"
    "heap (lib t) = heap (lib s)" "collects i evs s t" and time: "\<forall>k\<in>loaded_keys s. time_result os \<le> expiry k"
    using handle_events_collects [OF ok(1) inv i evs(2) _ evs(4)] by blast
  then have c: "loaded_keys t = loaded_keys s" "fd (conns (res t) ! i) = fd (conns (res s) ! i)"
    "conn_data (conns (res t) ! i) @ ?last = sig @ 10 # script" using split by (simp_all add: collects_def)
  obtain s' script' es where s': "handle_event ssl event os t = Inr (Continue, s')" "all_written (exec_answers os) \<longrightarrow> fed es = script' \<and> (\<exists>p. Reaped p \<in> set es)"
    "trace s' = trace t @ [Ran script' (script_n (res t) + 1) es, CloseFd (fd (conns (res t) ! i))]"
    "\<exists>k'\<in>loaded_keys t. signed_input valid (heap (lib t)) (sig @ 10 # script) k' script'"
    using handle_event_signed [OF ok t(2) v(2) [OF t(1)] e(1) i(1) e(2-4) time [folded c(1)] k(2) [folded c(1)]
        k(3) [folded t(3)] c(3) sz sig] by blast
  have "event_loop ssl (map Inr batches) s = Inr (Continue, s')"
    using t(1) s'(1) by (simp add: event_loop_batches evs(1) handle_events_append)
  with t(1,3) s'(2-4) c(1,2) show ?thesis by metis
qed

end
