(* ===== verification/Pipe.thy ===== *)
theory Pipe
  imports Exec
begin

text \<open>
  The parent and the child of \<open>exec_script\<close> with the pipe between them, as a transition system. The parent
  is in its write loop and keeps the read end of the pipe open, then it closes both ends and waits for the child; the
  child reads its standard input. The kernel moves bytes while there is room and lets a \<open>write\<close> fail only when
  no read end is open. Shown are what the child reads, that a child which reads to the end of the file gets the
  whole script and the parent returns, and that a child which exits before leaves the parent blocked for ever.
\<close>

section \<open>The two processes\<close>

text \<open>\<open>Writing\<close>: in the loop, both ends open; \<open>Waiting\<close>: both closed, in \<open>waitpid\<close>.\<close>

datatype parent_phase = Writing | Waiting | Returned

datatype child_phase = Reading | Exited

text \<open>
  What is left to write, what is in the pipe and what the child has read; \<open>answers\<close> are the answers of
  \<open>write\<close> so far.
\<close>

record pipe_state =
  unwritten :: "byte list"
  piped :: "byte list"
  seen :: "byte list"
  answers :: "int list"
  parent :: parent_phase
  child :: child_phase

definition pipe_start :: "byte list \<Rightarrow> pipe_state" where
  "pipe_start script = \<lparr>unwritten = script, piped = [], seen = [], answers = [], parent = Writing, child = Reading\<rparr>"

text \<open>\<open>in_pipe[0]\<close> is open in the parent until the loop is over, and as the standard input of the child.\<close>

definition read_ends :: "pipe_state \<Rightarrow> nat" where
  "read_ends s = of_bool (parent s = Writing) + of_bool (child s = Reading)"

text \<open>
  The steps, for a pipe that holds \<open>cap\<close> bytes. With \<open>early\<close> the child may exit at any time, as when
  \<open>execlp\<close> fails, or the script exits; otherwise it reads until the end of the file.
\<close>

inductive pipe_step :: "nat \<Rightarrow> bool \<Rightarrow> pipe_state \<Rightarrow> pipe_state \<Rightarrow> bool" for cap early where
  written: "parent s = Writing \<Longrightarrow> 0 < n \<Longrightarrow> n \<le> length (unwritten s) \<Longrightarrow> length (piped s) + n \<le> cap \<Longrightarrow>
    pipe_step cap early s (s\<lparr>unwritten := drop n (unwritten s), piped := piped s @ take n (unwritten s),
      answers := answers s @ [int n]\<rparr>)"
| broken: "parent s = Writing \<Longrightarrow> unwritten s \<noteq> [] \<Longrightarrow> read_ends s = 0 \<Longrightarrow>
    pipe_step cap early s (s\<lparr>parent := Waiting, answers := answers s @ [- 1]\<rparr>)"
| finished: "parent s = Writing \<Longrightarrow> unwritten s = [] \<Longrightarrow> pipe_step cap early s (s\<lparr>parent := Waiting\<rparr>)"
| "read": "child s = Reading \<Longrightarrow> 0 < n \<Longrightarrow> n \<le> length (piped s) \<Longrightarrow>
    pipe_step cap early s (s\<lparr>piped := drop n (piped s), seen := seen s @ take n (piped s)\<rparr>)"
| end_of_file: "child s = Reading \<Longrightarrow> piped s = [] \<Longrightarrow> parent s \<noteq> Writing \<Longrightarrow>
    pipe_step cap early s (s\<lparr>child := Exited\<rparr>)"
| quits: "early \<Longrightarrow> child s = Reading \<Longrightarrow> pipe_step cap early s (s\<lparr>child := Exited\<rparr>)"
| reaped: "parent s = Waiting \<Longrightarrow> child s = Exited \<Longrightarrow> pipe_step cap early s (s\<lparr>parent := Returned\<rparr>)"

inductive_cases pipe_stepE: "pipe_step cap early s t"

abbreviation pipe_steps :: "nat \<Rightarrow> bool \<Rightarrow> pipe_state \<Rightarrow> pipe_state \<Rightarrow> bool" where
  "pipe_steps cap early \<equiv> (pipe_step cap early)\<^sup>*\<^sup>*"

section \<open>What the child reads\<close>

text \<open>
  Nothing is lost, reordered or added; the pipe never holds more than its capacity; and no \<open>write\<close> has
  failed, as the parent itself keeps a read end open.
\<close>

definition pipe_inv :: "nat \<Rightarrow> bool \<Rightarrow> byte list \<Rightarrow> pipe_state \<Rightarrow> bool" where
  "pipe_inv cap early script s \<longleftrightarrow>
     seen s @ piped s @ unwritten s = script \<and> length (piped s) \<le> cap \<and>
     (\<forall>r\<in>set (answers s). 0 < r) \<and> sum_list (answers s) = int (length (seen s) + length (piped s)) \<and>
     (parent s \<noteq> Writing \<longrightarrow> unwritten s = []) \<and> (parent s = Returned \<longrightarrow> child s = Exited) \<and>
     (\<not> early \<and> child s = Exited \<longrightarrow> parent s \<noteq> Writing \<and> piped s = [])"

lemma pipe_start_inv: "pipe_inv cap early script (pipe_start script)"
  by (simp add: pipe_inv_def pipe_start_def)

lemma pipe_step_inv:
  assumes "pipe_step cap early s t" "pipe_inv cap early script s"
  shows "pipe_inv cap early script t"
  using assms
proof cases
  case (read n)
  have "take n (piped s) @ drop n (piped s) @ ys = piped s @ ys" for ys by (simp flip: append_assoc)
  with read assms(2) show ?thesis by (auto simp: pipe_inv_def)
qed (auto simp: pipe_inv_def read_ends_def)

lemma pipe_steps_inv: "pipe_steps cap early s t \<Longrightarrow> pipe_inv cap early script s \<Longrightarrow> pipe_inv cap early script t"
  by (induction rule: rtranclp_induct) (auto intro: pipe_step_inv)

section \<open>A child that reads to the end\<close>

text \<open>Every step comes closer to the end.\<close>

definition pipe_measure :: "pipe_state \<Rightarrow> nat" where
  "pipe_measure s = 2 * length (unwritten s) + length (piped s) +
     (case parent s of Writing \<Rightarrow> 2 | Waiting \<Rightarrow> 1 | Returned \<Rightarrow> 0) + (case child s of Reading \<Rightarrow> 1 | Exited \<Rightarrow> 0)"

lemma pipe_step_measure: "pipe_step cap early s t \<Longrightarrow> pipe_measure t < pipe_measure s"
  by (erule pipe_stepE) (auto simp: pipe_measure_def split: child_phase.split)

text \<open>Unless the parent has returned some step is possible.\<close>

lemma pipe_progress:
  assumes "pipe_inv cap False script s" "0 < cap" "parent s \<noteq> Returned"
  shows "\<exists>t. pipe_step cap False s t"
proof (cases "parent s")
  case Writing
  show ?thesis
  proof (cases "unwritten s = []")
    case True
    from pipe_step.finished [OF Writing this] show ?thesis by blast
  next
    case unwritten: False
    show ?thesis
    proof (cases "length (piped s) < cap")
      case True
      with pipe_step.written [OF Writing, of 1 cap False] unwritten show ?thesis by (fastforce simp: Suc_le_eq)
    next
      case False
      with assms Writing have "child s = Reading" "0 < length (piped s)"
        by (auto simp: pipe_inv_def intro: child_phase.exhaust)
      from pipe_step.read [OF this(1) this(2) order_refl] show ?thesis by blast
    qed
  qed
next
  case Waiting
  show ?thesis
  proof (cases "child s")
    case Reading
    show ?thesis
    proof (cases "piped s = []")
      case True
      with pipe_step.end_of_file [OF Reading] Waiting show ?thesis by force
    next
      case False
      then have "0 < length (piped s)" by simp
      from pipe_step.read [OF Reading this order_refl] show ?thesis by blast
    qed
  next
    case Exited
    from pipe_step.reaped [OF Waiting this] show ?thesis by blast
  qed
qed (use assms(3) in simp)

lemma pipe_ends:
  assumes "pipe_inv cap False script s" "0 < cap"
  shows "\<exists>t. pipe_steps cap False s t \<and> parent t = Returned"
  using assms(1)
proof (induction s rule: measure_induct_rule [of pipe_measure])
  case (less s)
  show ?case
  proof (cases "parent s = Returned")
    case False
    from pipe_progress [OF less.prems assms(2) False] obtain t where t: "pipe_step cap False s t" by blast
    from less.IH [OF pipe_step_measure [OF t] pipe_step_inv [OF t less.prems]] t show ?thesis
      by (blast intro: converse_rtranclp_into_rtranclp)
  qed blast
qed

lemma pipe_returned:
  "pipe_inv cap False script s \<Longrightarrow> parent s = Returned \<Longrightarrow> seen s = script"
  by (auto simp: pipe_inv_def)

section \<open>A child that exits\<close>

text \<open>
  Once the child has gone and more is left than the pipe holds, the parent stays in its write loop: the
  read end it has kept open itself is the reason that \<open>write\<close> does not fail.
\<close>

definition stuck_writing :: "nat \<Rightarrow> pipe_state \<Rightarrow> bool" where
  "stuck_writing cap s \<longleftrightarrow> parent s = Writing \<and> child s = Exited \<and> cap < length (piped s) + length (unwritten s)"

lemma stuck_step: "pipe_step cap early s t \<Longrightarrow> stuck_writing cap s \<Longrightarrow> length (piped s) \<le> cap \<Longrightarrow>
    stuck_writing cap t \<and> length (piped t) \<le> cap"
  by (erule pipe_stepE) (auto simp: stuck_writing_def read_ends_def)

lemma stuck_steps:
  assumes "pipe_steps cap early s t" "stuck_writing cap s" "length (piped s) \<le> cap"
  shows "stuck_writing cap t \<and> length (piped t) \<le> cap"
  using assms(1) by (induction rule: rtranclp_induct) (use assms(2,3) stuck_step in auto)

section \<open>The answers of the kernel\<close>

text \<open>Answers that have put \<open>sum_list rets\<close> bytes of the script into the pipe.\<close>

lemma write_loop_answers:
  assumes "valid_end script n" "unat n < 2 ^ 31" "\<forall>r\<in>set rets. 0 < r" "unat i + nat (sum_list rets) \<le> unat n"
  shows "\<exists>es. write_loop script n i rets = Inr es \<and> fed es = take (nat (sum_list rets)) (drop (unat i) script) \<and>
     (NoAnswer \<in> set es \<longleftrightarrow> unat i + nat (sum_list rets) < unat n) \<and> (\<forall>m. ExecPerror m \<notin> set es)"
  using assms(3,4)
proof (induction rets arbitrary: i)
  case (Cons r rets)
  have pos: "0 < r" "0 \<le> sum_list rets" using Cons.prems(1) by (auto intro!: sum_list_nonneg)
  then have sum: "nat (sum_list (r # rets)) = nat r + nat (sum_list rets)" by (simp add: nat_add_distrib)
  let ?r = "of_int r :: uinta"
  have le: "unat i + nat r \<le> unat n" using Cons.prems(2) unfolding sum by simp
  then have small: "nat r < 2 ^ 64" "unat i + nat r < 2 ^ 64" using assms(2) by simp_all
  have "?r = of_nat (nat r)" using pos by simp
  then have ur: "unat ?r = nat r" using small(1) by (simp only: unat_of_nat_small)
  have ui: "unat (i + ?r) = unat i + nat r" using small(2) by (simp add: unat_word_ariths(1) ur)
  have i: "i < n" "i \<le> i + ?r" "i + ?r \<le> n" using le pos by (simp_all add: word_less_nat_alt word_le_nat_alt ui)
  have rd: "rd_bytes script i ?r = (Inr (slice script i (i + ?r)) :: byte list run)"
    using rd_bytes_slice [OF valid_end_mono [OF assms(1) i(3)] i(2)] by simp
  have sl: "slice script i (i + ?r) = take (nat r) (drop (unat i) script)" by (simp add: slice_def ui take_drop)
  have "unat (i + ?r) + nat (sum_list rets) \<le> unat n" using Cons.prems(2) unfolding sum ui by simp
  from Cons.IH [OF _ this] Cons.prems(1) obtain es where es: "write_loop script n (i + ?r) rets = Inr es"
    "fed es = take (nat (sum_list rets)) (drop (unat i + nat r) script)"
    "NoAnswer \<in> set es \<longleftrightarrow> unat i + nat r + nat (sum_list rets) < unat n" "\<forall>m. ExecPerror m \<notin> set es"
    unfolding ui by auto
  have f: "take (nat r) (drop (unat i) script) @ take (nat (sum_list rets)) (drop (unat i + nat r) script) =
      take (nat r + nat (sum_list rets)) (drop (unat i) script)" by (simp add: take_add add.commute)
  show ?case
    unfolding sum using i(1) pos(1) rd es f by (auto simp: sl add.assoc)
qed (use assms(1) in \<open>auto simp: word_less_nat_alt\<close>)

text \<open>In every state the model of the write loop, given the answers so far, has fed what the state says.\<close>

lemma pipe_refines_write_loop:
  assumes "pipe_inv cap early script s" "length script < 2 ^ 31"
  shows "\<exists>es. write_loop script (of_nat (length script)) 0 (answers s) = Inr es \<and> fed es = seen s @ piped s \<and>
    (NoAnswer \<in> set es \<longleftrightarrow> unwritten s \<noteq> []) \<and> (\<forall>m. ExecPerror m \<notin> set es)"
proof -
  have u: "unat (of_nat (length script) :: uinta) = length script" using assms(2) by (intro unat_of_nat_small) simp
  have v: "valid_end script (of_nat (length script))"
    using assms(2) u by (simp add: valid_end_def object_size_def PTRDIFF_MAX_def)
  from assms(1) have s: "script = (seen s @ piped s) @ unwritten s" "\<forall>r\<in>set (answers s). 0 < r"
    "nat (sum_list (answers s)) = length (seen s @ piped s)" by (auto simp: pipe_inv_def)
  have "unat (0 :: uinta) + nat (sum_list (answers s)) \<le> unat (of_nat (length script) :: uinta)"
    unfolding u s(3) by (subst s(1)) simp
  from write_loop_answers [OF v _ s(2) this] assms(2) u obtain es where
    es: "write_loop script (of_nat (length script)) 0 (answers s) = Inr es"
      "fed es = take (length (seen s @ piped s)) script" "NoAnswer \<in> set es \<longleftrightarrow> length (seen s @ piped s) < length script"
      "\<forall>m. ExecPerror m \<notin> set es" unfolding s(3) by auto
  have "take (length (seen s @ piped s)) script = seen s @ piped s" by (subst s(1)) simp
  moreover have "length (seen s @ piped s) < length script \<longleftrightarrow> unwritten s \<noteq> []" by (subst s(1)) simp
  ultimately show ?thesis using es by auto
qed

end
