(* ===== verification/Gen_Sig.thy ===== *)
theory Gen_Sig
  imports Exec
begin

text \<open>
  \<open>src/gen_sig.c\<close>, the client: it reads a key and a script, signs the script and writes the
  signature, a newline and the script to its standard output, which is what the server expects of a
  connection. OpenSSL and the operating system are inputs.
\<close>

section \<open>Inputs\<close>

text \<open>
  \<open>script_chunks\<close> are the answers of \<open>fread\<close> that carry data; \<open>write_answers_of\<close> those of the
  successive \<open>write\<close> calls on standard output. \<open>sign_key\<close> is \<open>EVP_DigestSign\<close> with the key and the
  digest that have been set up.
\<close>

record gen_os =
  gen_argv :: "string list"
  key_opens :: bool
  key_parses :: bool
  ctx_created :: bool
  sign_init :: "string option \<Rightarrow> int"
  script_opens :: bool
  script_chunks :: "byte list list"
  sign_key :: "byte list \<Rightarrow> byte list option"
  stdout_answers :: "int list"

text \<open>What goes to standard error: the usage with the name of the program, \<open>perror\<close>, OpenSSL's errors.\<close>

datatype gen_message = Usage string | GenPerror string | SslErrors

definition CHUNK :: uinta where "CHUNK = push_bit 18 1"

section \<open>Reading the script\<close>

text \<open>
  The loop around \<open>fread\<close> into a block of \<open>data_cap\<close> bytes that doubles when it is full; more than
  there is room for would be a write out of bounds.
\<close>

fun read_script :: "uinta \<Rightarrow> byte list \<Rightarrow> byte list list \<Rightarrow> byte list run" where
  "read_script data_cap data [] = Inr data"
| "read_script data_cap data (bs # chunks) =
    (if length bs > unat (data_cap - of_nat (length data)) then Inl (Fault OutOfBounds)
     else if bs = [] then Inr data
     else
       let data = data @ bs;
           data_cap = (if of_nat (length data) \<ge> data_cap then data_cap * 2 else data_cap)
       in read_script data_cap data chunks)"

section \<open>Writing\<close>

text \<open>
  The loop around \<open>write\<close>: the answer is stored in a \<open>size_t\<close>, so an error (-1) is not below zero
  but the largest number. The result is whether the loop has ended (a \<open>write\<close> without an answer
  blocks), the bytes that reached standard output, and the answers left.
\<close>

fun write_all :: "byte list \<Rightarrow> uinta \<Rightarrow> uinta \<Rightarrow> int list \<Rightarrow> (bool \<times> byte list \<times> int list) run" where
  "write_all data n write_start [] = Inr (\<not> write_start < n, [], [])"
| "write_all data n write_start (r # rs) =
    (if write_start < n then
       check_ok (if r > 0 then rd_bytes data write_start (of_int r) else Inr []) (\<lambda>bs.
       let ret = of_int r :: uinta in
       if ret > 0 then
         check_ok (write_all data n (write_start + ret) rs) (\<lambda>(ended, out, rest). Inr (ended, bs @ out, rest))
       else Inr (True, bs, rs))
     else Inr (True, [], r # rs))"

section \<open>The program\<close>

text \<open>The exit status, \<open>None\<close> while a \<open>write\<close> blocks, what reached standard output, and the messages.\<close>

type_synonym gen_result = "(int option \<times> byte list \<times> gen_message list) run"

definition write_output :: "byte list \<Rightarrow> byte list \<Rightarrow> int list \<Rightarrow> gen_result" where
  "write_output sig data answers =
    check_ok (write_all sig (of_nat (length sig)) 0 answers) (\<lambda>(ended, out1, rest).
    if \<not> ended then Inr (None, out1, [])
    else
      case rest of
        [] \<Rightarrow> Inr (None, out1, [])
      | r # rest \<Rightarrow>
          if r < 1 then Inr (Some (- 1), out1, [GenPerror ''Error writing to stdout''])
          else
            check_ok (write_all data (of_nat (length data)) 0 rest) (\<lambda>(ended, out2, rest).
              Inr (if ended then Some 0 else None, out1 @ 10 # out2, [])))"

definition gen_sig_main :: "gen_os \<Rightarrow> gen_result" where
  "gen_sig_main os =
    (if length (gen_argv os) < 3 then Inr (Some (- 1), [], [Usage (case gen_argv os of [] \<Rightarrow> ''(null)'' | prog # _ \<Rightarrow> prog)])
     else if \<not> key_opens os then Inr (Some (- 1), [], [GenPerror ''Error opening key file''])
     else if \<not> key_parses os then Inr (Some (- 1), [], [SslErrors])
     else if \<not> ctx_created os then Inr (Some (- 1), [], [SslErrors])
     else
       let mdname = (if length (gen_argv os) > 3 then Some (gen_argv os ! 3) else None) in
       if sign_init os mdname \<noteq> 1 then Inr (Some (- 1), [], [SslErrors])
       else if \<not> script_opens os then Inr (Some (- 1), [], [GenPerror ''Error opening input file''])
       else
         check_ok (read_script CHUNK [] (script_chunks os)) (\<lambda>data.
         case sign_key os data of
           None \<Rightarrow> Inr (Some (- 1), [], [SslErrors])
         | Some sig \<Rightarrow> write_output sig data (stdout_answers os)))"

section \<open>What a run without errors writes\<close>

text \<open>
  The answers \<open>write_answers\<close> of the parent in \<open>exec_script\<close> are those of any \<open>write\<close>; here without
  an error, and as many as there are bytes at most.
\<close>

fun full_writes :: "nat \<Rightarrow> int list \<Rightarrow> int list \<Rightarrow> bool" where
  "full_writes n rest [] \<longleftrightarrow> n = 0 \<and> rest = []"
| "full_writes n rest (r # rs) \<longleftrightarrow>
     n = 0 \<and> rest = r # rs \<or> 0 < r \<and> r \<le> int n \<and> full_writes (n - nat r) rest rs"

lemma write_all_full:
  assumes v: "valid_end data n" and i: "i \<le> n" and w: "full_writes (unat n - unat i) rest rs"
  shows "write_all data n i rs = Inr (True, slice data i n, rest)"
  using i w
proof (induction rs arbitrary: i)
  case Nil
  then have "i = n" by (auto simp: word_le_nat_alt word_unat_eq_iff)
  then show ?case using Nil by simp
next
  case (Cons r rs)
  show ?case
  proof (cases "i = n")
    case True
    then show ?thesis using Cons.prems by auto
  next
    case False
    then have lt: "i < n" using Cons.prems(1) by auto
    then have ult: "unat i < unat n" by (simp add: word_less_nat_alt)
    with Cons.prems(2) have r: "0 < r" "r \<le> int (unat n - unat i)" "full_writes (unat n - unat i - nat r) rest rs"
      by auto
    let ?r = "of_int r :: uinta"
    have room: "nat r \<le> unat n - unat i" using r(2) by linarith
    have nb: "unat n < 2 ^ 63" using v by (simp add: valid_end_def object_size_def PTRDIFF_MAX_def)
    have "?r = of_nat (nat r)" using r(1) by simp
    moreover have "nat r < 2 ^ 64" using room nb by simp
    ultimately have ur: "unat ?r = nat r" by (simp only: unat_of_nat_small)
    have "unat i + nat r < 2 ^ 64" using room nb ult by simp
    then have ui: "unat (i + ?r) = unat i + nat r" by (simp add: unat_word_ariths(1) ur)
    have le: "i \<le> i + ?r" "i + ?r \<le> n" using room ult by (simp_all add: word_le_nat_alt ui)
    have rd: "rd_bytes data i ?r = (Inr (slice data i (i + ?r)) :: byte list run)"
      using rd_bytes_slice [OF valid_end_mono [OF v le(2)] le(1)] by simp
    have pos: "?r > 0" using ur r(1) by (simp add: word_less_nat_alt)
    have "full_writes (unat n - unat (i + ?r)) rest rs" using r(3) by (simp add: ui)
    from Cons.IH [OF le(2) this] show ?thesis
      using lt r(1) rd pos slice_append [OF le, of data] by (simp add: Let_def)
  qed
qed

lemma whole_valid:
  "length xs \<le> PTRDIFF_MAX \<Longrightarrow> valid_end xs (of_nat (length xs)) \<and> slice xs 0 (of_nat (length xs)) = xs \<and>
   unat (of_nat (length xs) :: uinta) = length xs"
  by (simp add: valid_end_def object_size_def slice_def unat_of_nat_small PTRDIFF_MAX_def)

lemma write_output_full:
  assumes l: "length sig \<le> PTRDIFF_MAX" "length data \<le> PTRDIFF_MAX"
    and w: "full_writes (length sig) (1 # rest) answers" "full_writes (length data) [] rest"
  shows "write_output sig data answers = Inr (Some 0, sig @ 10 # data, [])"
proof -
  note s = whole_valid [OF l(1)] and d = whole_valid [OF l(2)]
  have "write_all sig (of_nat (length sig)) 0 answers = Inr (True, sig, 1 # rest)"
    using write_all_full [of sig "of_nat (length sig)" 0 "1 # rest" answers] s w(1) by simp
  moreover have "write_all data (of_nat (length data)) 0 rest = Inr (True, data, [])"
    using write_all_full [of data "of_nat (length data)" 0 "[]" rest] d w(2) by simp
  ultimately show ?thesis by (simp add: write_output_def)
qed

section \<open>A \<open>write\<close> that fails\<close>

lemma sum_pos: "\<forall>r\<in>set rs. 0 < r \<Longrightarrow> 0 \<le> sum_list (rs :: int list)"
  by (intro sum_list_nonneg) auto

text \<open>After the answers \<open>pre\<close>, none of them an error, their sum has been written.\<close>

lemma write_all_part:
  assumes v: "valid_end data n"
  shows "\<forall>r\<in>set pre. 0 < r \<Longrightarrow> int (unat i) + sum_list pre < int (unat n) \<Longrightarrow>
    write_all data n i (pre @ rs) = check_ok (write_all data n (i + of_int (sum_list pre)) rs)
      (\<lambda>(ended, out, rest). Inr (ended, slice data i (i + of_int (sum_list pre)) @ out, rest)) \<and>
    unat (i + of_int (sum_list pre) :: uinta) = unat i + nat (sum_list pre)"
proof (induction pre arbitrary: i)
  case Nil
  then show ?case by (cases "write_all data n i rs") auto
next
  case (Cons r pre)
  let ?r = "of_int r :: uinta" and ?s = "of_int (sum_list pre) :: uinta"
  have s: "0 < r" "0 \<le> sum_list pre" using Cons.prems(1) sum_pos [of pre] by auto
  have nb: "unat n < 2 ^ 63" using v by (simp add: valid_end_def object_size_def PTRDIFF_MAX_def)
  have "r < int (unat n)" using Cons.prems(2) s by (simp del: of_nat_unat)
  then have r: "?r = of_nat (nat r)" "nat r < 2 ^ 64" using s nb by (simp_all add: nat_less_iff del: of_nat_unat)
  then have ur: "unat ?r = nat r" by (simp only: unat_of_nat_small)
  have "int (unat i + nat r) < int (unat n)" using Cons.prems(2) s by (simp del: of_nat_unat)
  then have room: "unat i + nat r < unat n" by (simp only: of_nat_less_iff)
  then have "unat i + nat r < 2 ^ 64" using nb by simp
  then have ui: "unat (i + ?r) = unat i + nat r" by (simp add: unat_word_ariths(1) ur)
  have lt: "int (unat (i + ?r)) + sum_list pre < int (unat n)" using Cons.prems(2) s ui by simp
  with Cons.IH [of "i + ?r"] Cons.prems(1) have
    IH: "write_all data n (i + ?r) (pre @ rs) = check_ok (write_all data n (i + ?r + ?s) rs)
      (\<lambda>(ended, out, rest). Inr (ended, slice data (i + ?r) (i + ?r + ?s) @ out, rest))"
      "unat (i + ?r + ?s) = unat (i + ?r) + nat (sum_list pre)" by auto
  have le: "i \<le> i + ?r" "i + ?r \<le> i + ?r + ?s" "i + ?r \<le> n" "i < n" "?r > 0"
    using ui IH(2) room s ur by (auto simp: word_le_nat_alt word_less_nat_alt)
  have rd: "rd_bytes data i ?r = (Inr (slice data i (i + ?r)) :: byte list run)"
    using rd_bytes_slice [OF valid_end_mono [OF v le(3)] le(1)] by simp
  have "write_all data n i ((r # pre) @ rs) = check_ok (write_all data n (i + ?r + ?s) rs)
      (\<lambda>(ended, out, rest). Inr (ended, slice data i (i + ?r + ?s) @ out, rest))"
    using le s rd IH(1) slice_append [OF le(1,2), of data]
    by (cases "write_all data n (i + ?r + ?s) rs") (auto simp: Let_def)
  moreover have "unat (i + ?r + ?s) = unat i + nat (r + sum_list pre)" using IH(2) ui s by simp
  ultimately show ?case by (simp add: add.assoc)
qed

text \<open>The error counts as -1 byte: the loop is over if nothing had been written, otherwise a byte is repeated.\<close>

lemma write_all_error:
  assumes l: "length data \<le> PTRDIFF_MAX" and pre: "\<forall>r\<in>set pre. 0 < r" "sum_list pre < int (length data)"
    and post: "if pre = [] then post = rest
      else full_writes (length data - (nat (sum_list pre) - 1)) rest post"
  shows "write_all data (of_nat (length data)) 0 (pre @ - 1 # post) =
    Inr (True, if pre = [] then [] else take (nat (sum_list pre)) data @ drop (nat (sum_list pre) - 1) data, rest)"
proof -
  note d = whole_valid [OF l]
  let ?n = "of_nat (length data) :: uinta" and ?k = "of_int (sum_list pre) :: uinta" and ?j = "nat (sum_list pre)"
  have n: "unat ?n = length data" using d by simp
  have sum: "int (unat (0 :: uinta)) + sum_list pre < int (unat ?n)" using pre(2) n by simp
  from write_all_part [OF conjunct1 [OF d] pre(1) sum, of "- 1 # post"] have
    p: "write_all data ?n 0 (pre @ - 1 # post) = check_ok (write_all data ?n ?k (- 1 # post))
      (\<lambda>(ended, out, rest). Inr (ended, slice data 0 ?k @ out, rest))" and k: "unat ?k = ?j" by auto
  have lt: "?k < ?n" using pre k n sum_pos [OF pre(1)] by (simp add: word_less_nat_alt nat_less_iff)
  have "(- 1 :: uinta) > 0" by (rule word_greater_zero_iff [THEN iffD2]) simp
  then have e: "write_all data ?n ?k (- 1 # post) = write_all data ?n (?k - 1) post"
    using lt by (cases "write_all data ?n (?k - 1) post") (auto simp: Let_def)
  show ?thesis
  proof (cases "pre = []")
    case True
    have "\<not> (- 1 :: uinta) < ?n" by (rule word_order.extremum_strict)
    then have "write_all data ?n (- 1) post = Inr (True, [], post)" by (cases post) simp_all
    with True p e post show ?thesis by (simp add: slice_def del: write_all.simps)
  next
    case False
    with pre(1) have pos: "0 < sum_list pre" by (cases pre) (auto intro!: add_pos_nonneg sum_pos)
    then have "?k \<noteq> 0" using k by auto
    then have k1: "unat (?k - 1) = ?j - 1" using k by (simp add: unat_minus_one)
    have le: "?k - 1 \<le> ?n" using k1 n pre(2) by (simp add: word_le_nat_alt)
    have "full_writes (unat ?n - unat (?k - 1)) rest post" using post False by (simp only: n k1 if_False)
    from write_all_full [OF conjunct1 [OF d] le this] show ?thesis
      using False p e k k1 n by (simp add: slice_def del: write_all.simps)
  qed
qed

text \<open>The answers of \<open>fread\<close> that fit the block as it grows.\<close>

fun fread_fits :: "uinta \<Rightarrow> nat \<Rightarrow> byte list list \<Rightarrow> bool" where
  "fread_fits cap n [] \<longleftrightarrow> True"
| "fread_fits cap n (bs # chunks) \<longleftrightarrow>
     length bs \<le> unat (cap - of_nat n) \<and> bs \<noteq> [] \<and>
     fread_fits (if of_nat (n + length bs) \<ge> cap then cap * 2 else cap) (n + length bs) chunks"

lemma read_script_data:
  "fread_fits cap (length data) chunks \<Longrightarrow> read_script cap data chunks = Inr (data @ concat chunks)"
  by (induction cap data chunks rule: read_script.induct) (auto simp: Let_def not_le)

text \<open>
  A run of the client in which every call succeeds: the key and the script are read, the signature is
  \<open>sig\<close>, and every \<open>write\<close> answers with a number of bytes.
\<close>

definition gen_runs :: "gen_os \<Rightarrow> byte list \<Rightarrow> bool" where
  "gen_runs os sig \<longleftrightarrow>
     3 \<le> length (gen_argv os) \<and> key_opens os \<and> key_parses os \<and> ctx_created os \<and> script_opens os \<and>
     sign_init os (if length (gen_argv os) > 3 then Some (gen_argv os ! 3) else None) = 1 \<and>
     fread_fits CHUNK 0 (script_chunks os) \<and> sign_key os (concat (script_chunks os)) = Some sig \<and>
     length sig \<le> PTRDIFF_MAX \<and> length (concat (script_chunks os)) \<le> PTRDIFF_MAX \<and>
     (\<exists>rest. full_writes (length sig) (1 # rest) (stdout_answers os) \<and>
        full_writes (length (concat (script_chunks os))) [] rest)"

lemma gen_sig_main_writes:
  assumes "gen_runs os sig"
  shows "gen_sig_main os = Inr (Some 0, sig @ 10 # concat (script_chunks os), [])"
proof -
  from assms obtain rest where w: "full_writes (length sig) (1 # rest) (stdout_answers os)"
    "full_writes (length (concat (script_chunks os))) [] rest" by (auto simp: gen_runs_def)
  have "write_output sig (concat (script_chunks os)) (stdout_answers os) = Inr (Some 0, sig @ 10 # concat (script_chunks os), [])"
    by (rule write_output_full [OF _ _ w]) (use assms in \<open>auto simp: gen_runs_def\<close>)
  moreover have "read_script CHUNK [] (script_chunks os) = Inr (concat (script_chunks os))"
    using read_script_data [of CHUNK "[]"] assms by (simp add: gen_runs_def)
  ultimately show ?thesis using assms by (simp add: gen_sig_main_def gen_runs_def Let_def)
qed

end
