(* ===== verification/Loops.thy ===== *)
theory Loops
  imports Server
begin

text \<open>
  The loops of the program that might not end. The loop over the keys in \<open>main.c\<close> counts down as well as up:
  it is given here as the source writes it, on a signed 64-bit counter that becomes -1 for a moment, as a
  partial function, and shown to return what \<open>auth_loop\<close> does. The loops of the parser are bounded by the
  bytes they have left, and the loop over the extensions by the size of its table as well.
\<close>

unbundle bit_operations_syntax

section \<open>The loop over the keys\<close>

type_synonym inta = "64 word"
type_synonym 'w key_state = "PubKey list \<times> uinta \<times> 'w"

text \<open>
  What one round of \<open>for_each_lt(i, resources->keys_size)\<close> does: \<open>Go i\<close> reaches the end of the body with the
  counter \<open>i\<close>, as \<open>continue\<close> does; \<open>Stop\<close> leaves the loop.
\<close>

datatype 'w round_end = Go inta "'w key_state" | Stop auth_result "'w key_state"

definition key_round :: "'w OpenSSL \<Rightarrow> int \<Rightarrow> byte list \<Rightarrow> uinta \<Rightarrow> inta \<Rightarrow> 'w key_state \<Rightarrow> 'w round_end run" where
  "key_round ssl now raw n i = (\<lambda>(ks, ksz, w).
    if length ks \<le> unat i \<or> length ks < unat ksz then Inl (Fault OutOfBounds)
    else
      let pub_key = ks ! unat i in
      if now > expiry pub_key then
        if ksz > 1 then Inr (Go (i - 1) (swap_keys ks (unat i) (unat (ksz - 1)), ksz - 1, w))
        else Inr (Stop All_Expired (ks, ksz, w))
      else
        let sig_end = exp_sig_size pub_key;
            script_start = exp_sig_size pub_key + 1
        in
        check_ok (if script_start \<le> n then check_ok (rd raw sig_end) (\<lambda>b. Inr (b = 10)) else Inr False) (\<lambda>sep.
        if sep then
          check_ok (rd_bytes raw script_start (n - script_start)) (\<lambda>script.
          check_ok (rd_bytes raw 0 sig_end) (\<lambda>sig.
          check_ok (pub_key_verify ssl pub_key script sig w) (\<lambda>(valid, w).
          if valid then Inr (Stop (Authentic script_start) (ks, ksz, w)) else Inr (Go i (ks, ksz, w)))))
        else Inr (Go i (ks, ksz, w))))"

text \<open>
  \<open>for (inta i = 0; i < bound; i += 1)\<close>, with \<open>None\<close> for a loop that does not end.
\<close>

partial_function (option) for_each_key ::
    "'w OpenSSL \<Rightarrow> int \<Rightarrow> byte list \<Rightarrow> uinta \<Rightarrow> inta \<Rightarrow> inta \<Rightarrow> 'w key_state \<Rightarrow> (auth_result \<times> 'w key_state) run option" where
  "for_each_key ssl now raw n bound i st =
    (if i <s bound then
       case key_round ssl now raw n i st of
         Inl e \<Rightarrow> Some (Inl e)
       | Inr (Stop r st) \<Rightarrow> Some (Inr (r, st))
       | Inr (Go i st) \<Rightarrow> for_each_key ssl now raw n bound (i + 1) st
     else Some (Inr (Not_Authentic, st)))"

lemma signed_take_small: "n < 2 ^ 63 \<Longrightarrow> signed_take_bit 63 (int n) = int n"
  by (intro signed_take_bit_int_eq_self) simp_all

lemma sint_small:
  assumes "unat (x :: inta) < 2 ^ 63"
  shows "sint x = int (unat x)"
proof -
  have "sint x = signed_take_bit 63 (uint x)" by (simp add: sint_uint)
  also have "uint x = int (unat x)" by (rule uint_nat)
  also have "signed_take_bit 63 (int (unat x)) = int (unat x)" by (rule signed_take_small [OF assms])
  finally show ?thesis .
qed

lemma signed_less_small:
  assumes "unat bound < 2 ^ 63" "unat i \<le> unat bound"
  shows "(i :: inta) <s bound \<longleftrightarrow> unat i < unat bound"
  unfolding word_sless_alt sint_small [OF assms(1)] sint_small [OF order.strict_trans1 [OF assms(2,1)]]
  by (rule of_nat_less_iff)

lemma for_each_key_auth_loop:
  assumes "unat bound < 2 ^ 63"
  shows "unat i \<le> unat bound \<Longrightarrow> for_each_key ssl now raw n bound i (ks, ksz, w) =
    Some (map_sum id (\<lambda>(r, ks, m, w). (r, ks, of_nat m, w)) (auth_loop ssl now raw n (unat bound) (unat i) ks (unat ksz) w))"
proof (induction "(unat bound - unat i) + unat ksz" arbitrary: i ks ksz w rule: less_induct)
  case less
  note lt = signed_less_small [OF assms less.prems]
  show ?case
  proof (cases "unat i < unat bound \<and> unat i < length ks \<and> unat ksz \<le> length ks")
    case False
    then show ?thesis
      by (subst for_each_key.simps, subst auth_loop.simps) (auto simp: lt key_round_def)
  next
    case True
    then have i: "unat (i + 1) = unat i + 1" by (intro unat_add1 [of i bound]) (simp add: word_less_nat_alt)
    have next_key: "for_each_key ssl now raw n bound (i + 1) (ks, ksz, u) = Some (map_sum id (\<lambda>(r, ks, m, w). (r, ks, of_nat m, w))
        (auth_loop ssl now raw n (unat bound) (unat i + 1) ks (unat ksz) u))" for u
      using less.hyps [of "i + 1" ksz ks u] True unfolding i by linarith
    show ?thesis
    proof (cases "expiry (ks ! unat i) < now")
      case expired: True
      show ?thesis
      proof (cases "ksz > 1")
        case gt: True
        then have "ksz \<noteq> 0" by auto
        note k = unat_minus_one [OF this]
        have g: "unat ksz > 1" using gt by (simp add: word_less_nat_alt)
        with k have "unat bound - unat i + unat (ksz - 1) < unat bound - unat i + unat ksz" by linarith
        from less.hyps [OF this less.prems] k g gt expired True show ?thesis
          by (subst for_each_key.simps, subst auth_loop.simps) (simp add: lt key_round_def Let_def)
      next
        case False
        then have "\<not> unat ksz > 1" by (simp add: word_less_nat_alt)
        with False expired True show ?thesis
          by (subst for_each_key.simps, subst auth_loop.simps) (simp add: lt key_round_def Let_def)
      qed
    next
      case False
      let ?k = "ks ! unat i" and ?bytes = "rd_bytes raw :: uinta \<Rightarrow> uinta \<Rightarrow> byte list run"
      let ?sep = "(if exp_sig_size ?k + 1 \<le> n then check_ok (rd raw (exp_sig_size ?k)) (\<lambda>b. Inr (b = 10)) else Inr False) :: bool run"
      have round: "key_round ssl now raw n i (ks, ksz, w) = check_ok ?sep (\<lambda>sep.
          if sep then
            check_ok (?bytes (exp_sig_size ?k + 1) (n - (exp_sig_size ?k + 1))) (\<lambda>script.
            check_ok (?bytes 0 (exp_sig_size ?k)) (\<lambda>sig.
            check_ok (pub_key_verify ssl ?k script sig w) (\<lambda>(valid, w).
            if valid then Inr (Stop (Authentic (exp_sig_size ?k + 1)) (ks, ksz, w)) else Inr (Go i (ks, ksz, w)))))
          else Inr (Go i (ks, ksz, w)))"
        using True False by (simp add: key_round_def Let_def)
      have loop: "auth_loop ssl now raw n (unat bound) (unat i) ks (unat ksz) w = check_ok ?sep (\<lambda>sep.
          if sep then
            check_ok (?bytes (exp_sig_size ?k + 1) (n - (exp_sig_size ?k + 1))) (\<lambda>script.
            check_ok (?bytes 0 (exp_sig_size ?k)) (\<lambda>sig.
            check_ok (pub_key_verify ssl ?k script sig w) (\<lambda>(valid, w).
            if valid then Inr (Authentic (exp_sig_size ?k + 1), ks, unat ksz, w)
            else auth_loop ssl now raw n (unat bound) (unat i + 1) ks (unat ksz) w)))
          else auth_loop ssl now raw n (unat bound) (unat i + 1) ks (unat ksz) w)"
        using True False by (subst auth_loop.simps) (simp add: Let_def)
      show ?thesis
        using True unfolding loop
        by (subst for_each_key.simps, unfold round)
          (cases ?sep; cases "?bytes (exp_sig_size ?k + 1) (n - (exp_sig_size ?k + 1))"; cases "?bytes 0 (exp_sig_size ?k)";
            auto simp: lt next_key check_ok_def split: sum.splits)
    qed
  qed
qed

section \<open>The loops of the parser\<close>

text \<open>A round of the extension loop that succeeds adds an object identifier to the table.\<close>

lemma extension_step_table:
  assumes "extension_step raw e (idx, seen, f) = Inr (idx', seen', f')"
  shows "length seen < MAX_EXTN" "length seen' = Suc (length seen)"
  using assms by (auto simp: extension_step_def add_oid_def Let_def split: if_splits)

lemma extension_loop_rounds:
  "length seen \<le> MAX_EXTN \<Longrightarrow> rounds (Suc MAX_EXTN - length seen) (\<lambda>s. fst s < e) (extension_step raw e) (idx, seen, f) =
    Some (extension_loop raw e (idx, seen, f))"
proof (induction "MAX_EXTN - length seen" arbitrary: idx seen f)
  case 0
  then have k: "Suc MAX_EXTN - length seen = Suc 0" "MAX_EXTN \<le> length seen" by simp_all
  then show ?case by (subst extension_loop.simps) (simp add: extension_step_def)
next
  case (Suc k)
  then have n: "Suc MAX_EXTN - length seen = Suc (Suc k)" by simp
  show ?case
  proof (cases "extension_step raw e (idx, seen, f)")
    case (Inl x)
    then show ?thesis by (subst extension_loop.simps) (simp add: n)
  next
    case (Inr s)
    obtain idx' seen' f' where s: "s = (idx', seen', f')" by (cases s)
    note t = extension_step_table [OF Inr [unfolded s]]
    then have "k = MAX_EXTN - length seen'" "length seen' \<le> MAX_EXTN" "Suc MAX_EXTN - length seen' = Suc k" using Suc.hyps(2) by simp_all
    with Suc.hyps(1) [of seen' idx' f'] Inr s show ?thesis by (subst extension_loop.simps) (simp add: n)
  qed
qed

end
