(* ===== verification/Examples.thy ===== *)
theory Examples
  imports Basic Delivery Pipe Gen_Sig Loops "HOL-Library.AList"
begin

text \<open>
  A concrete library behind the OpenSSL parameter, and concrete inputs, on which the properties are
  applied. The library's state is the list of its live objects with their contents; the signature of some
  bytes is their sum and a byte of the key, repeated. It satisfies \<open>openssl_contents\<close> and \<open>openssl_accepts\<close>.
\<close>

section \<open>A library\<close>

text \<open>A digest context remembers the key and the digest it was initialised with.\<close>

datatype sum_obj =
    Sum_Key public_key
  | Sum_Number nat
  | Sum_Params "(string \<times> nat option) list"
  | Sum_Context "(public_key \<times> digest option) option"
  | Sum_Other

type_synonym sum_lib = "(nat \<times> sum_obj) list"

fun sum_view :: "sum_obj \<Rightarrow> obj" where
  "sum_view (Sum_Key m) = Public_Key m"
| "sum_view (Sum_Number n) = Number n"
| "sum_view (Sum_Params ps) = Parameters ps"
| "sum_view (Sum_Context c) = Digest_Context"
| "sum_view Sum_Other = Other_Object"

definition sum_heap :: "sum_lib \<Rightarrow> nat \<Rightarrow> obj option" where
  "sum_heap w a = map_option sum_view (map_of w a)"

fun key_byte :: "public_key \<Rightarrow> byte" where
  "key_byte (Raw_Public_Key kt bs) = sum_list bs"
| "key_byte (RSA_Public_Key n e) = of_nat (n + e)"

definition sum_valid :: "public_key \<Rightarrow> digest option \<Rightarrow> byte list \<Rightarrow> byte list \<Rightarrow> bool" where
  "sum_valid m d data sig \<longleftrightarrow> (\<forall>b\<in>set sig. b = sum_list data + key_byte m)"

definition sum_fresh :: "sum_lib \<Rightarrow> nat" where
  "sum_fresh w = Suc (sum_list (map fst w))"

definition sum_new :: "sum_obj \<Rightarrow> sum_lib \<Rightarrow> nat option \<times> sum_lib" where
  "sum_new x w = (Some (sum_fresh w), (sum_fresh w, x) # w)"

definition sum_free :: "ptr \<Rightarrow> sum_lib \<Rightarrow> sum_lib run" where
  "sum_free p w =
    (case p of
       Indeterminate \<Rightarrow> Inl (Fault BadPointer)
     | Null \<Rightarrow> Inr w
     | Addr a \<Rightarrow> if a \<in> fst ` set w then Inr (filter (\<lambda>x. fst x \<noteq> a) w) else Inl (Fault BadPointer))"

definition sum_push :: "nat \<Rightarrow> string \<Rightarrow> nat option \<Rightarrow> sum_lib \<Rightarrow> int \<times> sum_lib" where
  "sum_push b name x w =
    (case (map_of w b, x) of
       (Some (Sum_Params ps), None) \<Rightarrow> (1, AList.update b (Sum_Params (ps @ [(name, None)])) w)
     | (Some (Sum_Params ps), Some a) \<Rightarrow>
         (case map_of w a of
            Some (Sum_Number n) \<Rightarrow> (1, AList.update b (Sum_Params (ps @ [(name, Some n)])) w)
          | _ \<Rightarrow> (0, w))
     | _ \<Rightarrow> (0, w))"

definition sum_params :: "nat \<Rightarrow> sum_lib \<Rightarrow> nat option \<times> sum_lib" where
  "sum_params b w = (case map_of w b of Some (Sum_Params ps) \<Rightarrow> sum_new (Sum_Params ps) w | _ \<Rightarrow> (None, w))"

definition sum_fromdata :: "ptr \<Rightarrow> nat \<Rightarrow> sum_lib \<Rightarrow> (int \<times> ptr \<times> sum_lib) run" where
  "sum_fromdata p d w =
    (case p of
       Indeterminate \<Rightarrow> Inl (Fault BadPointer)
     | Addr a \<Rightarrow> if a \<in> fst ` set w then Inr (1, p, w) else Inl (Fault BadPointer)
     | Null \<Rightarrow>
         (case map_of w d of
            Some (Sum_Params ps) \<Rightarrow>
              (case (map_of ps ''n'', map_of ps ''e'') of
                 (Some (Some n), Some (Some e)) \<Rightarrow>
                   Inr (1, Addr (sum_fresh w), (sum_fresh w, Sum_Key (RSA_Public_Key n e)) # w)
               | _ \<Rightarrow> Inr (0, Null, w))
          | _ \<Rightarrow> Inr (0, Null, w)))"

definition sum_init :: "ptr \<Rightarrow> digest option \<Rightarrow> ptr \<Rightarrow> sum_lib \<Rightarrow> (int \<times> sum_lib) run" where
  "sum_init c d k w =
    (case (c, k) of
       (Addr c, Addr k) \<Rightarrow>
         (case (map_of w c, map_of w k) of
            (Some (Sum_Context x), Some (Sum_Key m)) \<Rightarrow> Inr (1, AList.update c (Sum_Context (Some (m, d))) w)
          | (Some _, Some _) \<Rightarrow> Inr (0, w)
          | _ \<Rightarrow> Inl (Fault BadPointer))
     | _ \<Rightarrow> Inl (Fault BadPointer))"

definition sum_verify :: "ptr \<Rightarrow> byte list \<Rightarrow> byte list \<Rightarrow> sum_lib \<Rightarrow> (int \<times> sum_lib) run" where
  "sum_verify c sig data w =
    (case c of
       Addr c \<Rightarrow>
         (case map_of w c of
            Some (Sum_Context (Some (m, d))) \<Rightarrow> Inr (if sum_valid m d data sig then 1 else 0, w)
          | Some _ \<Rightarrow> Inr (0, w)
          | None \<Rightarrow> Inl (Fault BadPointer))
     | _ \<Rightarrow> Inl (Fault BadPointer))"

definition sum_ssl :: "sum_lib OpenSSL" where
  "sum_ssl = \<lparr>
     EVP_PKEY_new_raw_public_key = (\<lambda>kt bs. sum_new (Sum_Key (Raw_Public_Key kt bs))),
     EVP_MD_CTX_new = sum_new (Sum_Context None),
     BN_bin2bn = (\<lambda>bs n. sum_new (Sum_Number (be_val bs 0))),
     OSSL_PARAM_BLD_new = sum_new (Sum_Params []),
     OSSL_PARAM_BLD_push_BN = sum_push,
     OSSL_PARAM_BLD_to_param = sum_params,
     EVP_PKEY_CTX_new_id = sum_new Sum_Other,
     EVP_PKEY_fromdata_init = (\<lambda>_ w. (1, w)),
     EVP_PKEY_fromdata = (\<lambda>_. sum_fromdata),
     EVP_DigestVerifyInit = sum_init,
     EVP_DigestVerify = sum_verify,
     EVP_PKEY_free = sum_free,
     EVP_MD_CTX_free = sum_free,
     EVP_PKEY_CTX_free = sum_free,
     OSSL_PARAM_free = sum_free,
     OSSL_PARAM_BLD_free = sum_free,
     BN_free = sum_free\<rparr>"

lemma dom_sum_heap: "dom (sum_heap w) = fst ` set w"
  unfolding dom_map_of_conv_image_fst [symmetric] by (auto simp: sum_heap_def)

lemma sum_fresh_new: "sum_fresh w \<notin> fst ` set w" "map_of w (sum_fresh w) = None"
proof -
  show "sum_fresh w \<notin> fst ` set w"
  proof
    assume "sum_fresh w \<in> fst ` set w"
    then have "sum_fresh w \<le> sum_list (map fst w)" by (intro member_le_sum_list) auto
    then show False by (simp add: sum_fresh_def)
  qed
  then show "map_of w (sum_fresh w) = None" by (simp add: map_of_eq_None_iff)
qed

lemma sum_heap_Cons: "sum_heap ((a, x) # w) = (sum_heap w)(a \<mapsto> sum_view x)"
  by (simp add: sum_heap_def fun_eq_iff)

lemma sum_heap_update: "sum_heap (AList.update a x w) = (sum_heap w)(a \<mapsto> sum_view x)"
  by (simp add: sum_heap_def fun_eq_iff update_conv')

lemma sum_heap_filter: "sum_heap (filter (\<lambda>x. fst x \<noteq> a) w) = (sum_heap w)(a := None)"
  by (induction w) (auto simp: sum_heap_def fun_eq_iff)


lemma sum_heap_None: "sum_heap w a = None \<longleftrightarrow> a \<notin> fst ` set w"
  by (simp add: sum_heap_def map_of_eq_None_iff)

lemma sum_heap_fresh: "sum_heap w (sum_fresh w) = None"
  by (simp add: sum_heap_None sum_fresh_new)

lemma sum_new_ok:
  "allocates (live_in sum_heap) w (sum_new x w)" "P (sum_view x) \<Longrightarrow> new_object sum_heap P w (sum_new x w)"
  by (auto simp: allocates_def new_object_def sum_new_def sum_heap_Cons sum_heap_fresh map_le_def domIff)

lemma sum_free_ok: "frees (live_in sum_heap) sum_free" "frees_only sum_heap sum_free"
  by (auto simp: frees_def frees_only_def sum_free_def sum_heap_filter dom_sum_heap domIff sum_heap_None split: if_splits)

lemma sum_push_ok: "live_in sum_heap (snd (sum_push b name x w)) = live_in sum_heap w" "pushes sum_heap b name x w (sum_push b name x w)"
proof -
  have "live_in sum_heap (AList.update b y w) = live_in sum_heap w" if "map_of w b = Some z" for y z
    using that by (auto simp: sum_heap_update sum_heap_def)
  then show "live_in sum_heap (snd (sum_push b name x w)) = live_in sum_heap w"
    by (auto simp: sum_push_def split: option.splits sum_obj.splits)
  show "pushes sum_heap b name x w (sum_push b name x w)"
    by (cases x) (auto simp: pushes_def sum_push_def update_conv' sum_heap_def split: option.splits sum_obj.splits
        elim!: sum_view.elims)
qed


lemma sum_params_ok:
  "allocates (live_in sum_heap) w (sum_params b w)"
  "new_object sum_heap (\<lambda>x. \<forall>ps. sum_heap w b = Some (Parameters ps) \<longrightarrow> x = Parameters ps) w (sum_params b w)"
proof -
  have "sum_params b w = (None, w) \<or> (\<exists>ps. map_of w b = Some (Sum_Params ps) \<and> sum_params b w = sum_new (Sum_Params ps) w)"
    by (auto simp: sum_params_def split: option.splits sum_obj.splits)
  moreover have "allocates (live_in sum_heap) w (None, w)" "new_object sum_heap P w (None, w)" for P
    by (simp_all add: allocates_def new_object_def)
  ultimately show "allocates (live_in sum_heap) w (sum_params b w)"
    "new_object sum_heap (\<lambda>x. \<forall>ps. sum_heap w b = Some (Parameters ps) \<longrightarrow> x = Parameters ps) w (sum_params b w)"
    using sum_new_ok(1) by (metis, auto intro!: sum_new_ok(2) simp: sum_heap_def)
qed

lemma sum_fromdata_ok:
  "rsafe (sum_fromdata Null d w) (\<lambda>(r, p, w'). (p = Null \<and> r \<noteq> 1 \<and> live_in sum_heap w' = live_in sum_heap w) \<or>
     (\<exists>a. p = Addr a \<and> a \<notin> live_in sum_heap w \<and> live_in sum_heap w' = insert a (live_in sum_heap w)))"
  "sum_fromdata Null d w = Inr r \<Longrightarrow> key_from_params sum_heap d w r"
proof -
  show "rsafe (sum_fromdata Null d w) (\<lambda>(r, p, w'). (p = Null \<and> r \<noteq> 1 \<and> live_in sum_heap w' = live_in sum_heap w) \<or>
     (\<exists>a. p = Addr a \<and> a \<notin> live_in sum_heap w \<and> live_in sum_heap w' = insert a (live_in sum_heap w)))"
    by (auto simp: sum_fromdata_def sum_heap_Cons sum_heap_fresh domIff split: option.splits sum_obj.splits)
  assume r: "sum_fromdata Null d w = Inr r"
  have "sum_heap w \<subseteq>\<^sub>m (sum_heap w)(sum_fresh w \<mapsto> x)" for x
    using sum_heap_fresh [of w] by (auto simp: map_le_def)
  with r show "key_from_params sum_heap d w r"
    by (auto simp: key_from_params_def sum_fromdata_def sum_heap_Cons split: option.splits sum_obj.splits)
      (auto simp: sum_heap_def)
qed

lemma sum_init_ok:
  assumes "c \<in> live_in sum_heap w" "k \<in> live_in sum_heap w"
  shows "\<exists>i v. sum_init (Addr c) d (Addr k) w = Inr (i, v) \<and> sum_heap v = sum_heap w \<and>
    (i \<noteq> 0 \<longrightarrow> (\<exists>m. map_of w k = Some (Sum_Key m) \<and> map_of v c = Some (Sum_Context (Some (m, d)))))"
proof -
  from assms obtain x y where xy: "map_of w c = Some x" "map_of w k = Some y" by (auto simp: sum_heap_def)
  have upd: "sum_heap (AList.update c (Sum_Context z) w) = sum_heap w" if "x = Sum_Context u" for u z
    unfolding sum_heap_update using xy(1) that by (auto simp: sum_heap_def)
  show ?thesis
  proof (cases "(\<exists>u m. x = Sum_Context u \<and> y = Sum_Key m)")
    case True
    with xy upd show ?thesis by (auto simp: sum_init_def update_conv')
  next
    case False
    with xy have "sum_init (Addr c) d (Addr k) w = Inr (0, w)"
      by (cases x; cases y) (simp_all add: sum_init_def)
    then show ?thesis by simp
  qed
qed

lemma sum_verify_ok:
  assumes "c \<in> live_in sum_heap w"
  shows "\<exists>r. sum_verify (Addr c) sig data w = Inr (r, w) \<and>
    (\<forall>m d. map_of w c = Some (Sum_Context (Some (m, d))) \<longrightarrow> (r = 1 \<longleftrightarrow> sum_valid m d data sig))"
proof -
  from assms obtain x where x: "map_of w c = Some x" by (auto simp: sum_heap_def)
  show ?thesis
  proof (cases "\<exists>m d. x = Sum_Context (Some (m, d))")
    case True
    with x show ?thesis by (auto simp: sum_verify_def)
  next
    case False
    with x have "sum_verify (Addr c) sig data w = Inr (0, w)"
      by (auto simp: sum_verify_def split: sum_obj.split option.split)
    with False x show ?thesis by simp
  qed
qed

lemma sum_unchanged: "live_in sum_heap (snd (1 :: int, w)) = live_in sum_heap w" "sum_heap (snd (1 :: int, w)) = sum_heap w"
  by simp_all

lemma sum_ssl_ok: "openssl_ok sum_ssl (live_in sum_heap)"
proof -
  have init: "rsafe (sum_init (Addr c) d (Addr k) w) (\<lambda>(r, v). live_in sum_heap v = live_in sum_heap w)"
    if "c \<in> live_in sum_heap w" "k \<in> live_in sum_heap w" for c d k w
    using sum_init_ok [OF that, of d] by (auto simp: run_safe_iff)
  have ver: "rsafe (sum_verify (Addr c) s d w) (\<lambda>(r, v). live_in sum_heap v = live_in sum_heap w)"
    if "c \<in> live_in sum_heap w" for c s d w
    using sum_verify_ok [OF that, of s d] by (auto simp: run_safe_iff)
  show ?thesis
    unfolding openssl_ok_def sum_ssl_def OpenSSL.select_convs
    by (intro conjI allI impI)
      (rule sum_new_ok(1) sum_params_ok(1) sum_push_ok(1) sum_fromdata_ok(1) sum_free_ok(1) init ver sum_unchanged | assumption)+
qed

lemma sum_verification: "verification sum_ssl sum_heap sum_valid"
  unfolding verification_def
proof (intro conjI allI impI, goal_cases)
  case (1 c d k w r v)
  with sum_init_ok [OF 1(1,2), of d] show ?case by (auto simp: sum_ssl_def)
next
  case (2 c d k w r v sig data r' u m)
  with sum_init_ok [OF 2(1,2), of d] have i: "sum_heap v = sum_heap w" "map_of w k = Some (Sum_Key m)"
    "map_of v c = Some (Sum_Context (Some (m, d)))" by (auto simp: sum_ssl_def sum_heap_def)
  then have "c \<in> live_in sum_heap v" using 2(1) by simp
  from sum_verify_ok [OF this, of sig data] i(3) 2 show ?case by (auto simp: sum_ssl_def)
next
  case (3 c sig data w r w')
  with sum_verify_ok [OF 3(1), of sig data] show ?case by (auto simp: sum_ssl_def)
qed

lemma sum_ssl_contents: "openssl_contents sum_ssl sum_heap sum_valid"
  using sum_ssl_ok sum_verification
  unfolding openssl_contents_def sum_ssl_def OpenSSL.select_convs
  by (intro conjI allI impI) (rule sum_new_ok(2) sum_params_ok(2) sum_push_ok(2) sum_free_ok(2) sum_fromdata_ok(2)
    sum_unchanged | assumption | simp)+

lemma sum_ssl_accepts: "openssl_accepts sum_ssl sum_heap sum_valid"
  unfolding openssl_accepts_def
proof (intro allI impI)
  fix c d k w m data sig
  assume c: "sum_heap w c = Some Digest_Context" and k: "sum_heap w k = Some (Public_Key m)" and v: "sum_valid m d data sig"
  from c obtain x where x: "map_of w c = Some (Sum_Context x)"
    by (auto simp: sum_heap_def elim!: sum_view.elims)
  from k have k: "map_of w k = Some (Sum_Key m)" by (auto simp: sum_heap_def elim!: sum_view.elims)
  with x v show "\<exists>i v u. EVP_DigestVerifyInit sum_ssl (Addr c) d (Addr k) w = Inr (i, v) \<and> i \<noteq> 0 \<and>
      EVP_DigestVerify sum_ssl (Addr c) sig data v = Inr (1, u)"
    by (simp add: sum_ssl_def sum_init_def sum_verify_def update_conv')
qed

section \<open>Keys\<close>

definition ed_key :: PubKey where
  "ed_key = \<lparr>expiry = 100, exp_sig_size = 64, alg_idx = 0, pkey = Addr 1, md_ctx = Addr 2, md = None\<rparr>"

definition old_key :: PubKey where
  "old_key = \<lparr>expiry = 10, exp_sig_size = 64, alg_idx = 0, pkey = Addr 3, md_ctx = Addr 4, md = None\<rparr>"

definition null_key :: PubKey where
  "null_key = \<lparr>expiry = 0, exp_sig_size = 0, alg_idx = 0, pkey = Null, md_ctx = Null, md = None\<rparr>"

text \<open>A library that holds the first of these keys, and one that holds both.\<close>

definition ed_public :: public_key where "ed_public = Raw_Public_Key EVP_PKEY_ED25519 [4]"

definition ed_lib :: sum_lib where "ed_lib = [(1, Sum_Key ed_public), (2, Sum_Context None)]"

definition two_lib :: sum_lib where
  "two_lib = ed_lib @ [(3, Sum_Key (Raw_Public_Key EVP_PKEY_ED25519 [9])), (4, Sum_Context None)]"

lemma ed_key_ok: "key_ok (live_in sum_heap) ed_lib ed_key" "key_ok (live_in sum_heap) two_lib ed_key"
  "key_ok (live_in sum_heap) two_lib old_key"
  by (auto simp: key_ok_def owns_def ed_key_def old_key_def SIG_SIZES_def dom_sum_heap ed_lib_def two_lib_def)

lemma ed_key_holds: "holds_key (sum_heap ed_lib) ed_key ed_public"
  by (simp add: holds_key_def ed_key_def sum_heap_def ed_lib_def)

section \<open>A connection\<close>

definition sum_script :: "byte list" where "sum_script = [1, 2]"
definition sum_input :: "byte list" where "sum_input = replicate 64 7 @ 10 # sum_script"

definition sum_conn :: Connection where
  "sum_conn = \<lparr>fd = 9, open_time = 5, buf_size = 67, buf_cap = 1024, buf = Some sum_input\<rparr>"

definition sum_server :: "sum_lib server" where
  "sum_server = \<lparr>res = zero_resources\<lparr>keys := Some (ed_key # replicate 3 null_key), keys_size := 1, keys_cap := 4,
       conns := sum_conn # replicate 127 zero_conn, conns_total := 1\<rparr>, lib = ed_lib, trace = []\<rparr>"

lemma sum_conn_inv: "conn_inv sum_conn" "conn_inv zero_conn"
  by (auto simp: conn_inv_def sum_conn_def zero_conn_def sum_input_def sum_script_def MAX_INT64_def
      MAX_SCRIPT_SIZE_def)

lemma sum_conns_inv: "conns_inv (res sum_server)"
  using sum_conn_inv
  by (auto simp: conns_inv_def sum_server_def open_conns_def filter_replicate sum_conn_def zero_conn_def)

lemma sum_server_inv: "server_inv (live_in sum_heap) {ed_key} sum_server"
  using sum_conns_inv ed_key_ok(1)
  by (auto simp: server_inv_def keys_inv_def sum_server_def keys_held_def key_addrs_def ptr_addr_def ed_key_def
      zero_resources_def intro!: exI [of _ 1])

section \<open>The fields of a certificate\<close>

text \<open>
  The fields of a certificate with an Ed25519 key, in 81 bytes that hold just the ranges a check of
  the self-signature looks at. The sum of the signed bytes is 0, and so is every byte of the signature.
\<close>

definition sum_cert :: "byte list" where
  "sum_cert = replicate 5 0 @ ed25519_oid @ replicate 3 0 @ ed25519_oid @ replicate 67 0"

definition sum_fields :: x509Fields where
  "sum_fields = zero_fields\<lparr>
     signed_data_start := 1, signed_data_end := 16, cert_serial_start := 3, cert_serial_end := 4,
     sig_id_start := 4, sig_id_end := 8, sig_oid_start := 5, sig_oid_end := 8,
     pub_key_id_start := 10, pub_key_id_end := 14, pub_key_oid_start := 11, pub_key_oid_end := 14,
     pub_key_start := 15, pub_key_end := 16, sig_start := 17, sig_end := 81,
     not_before := 0, not_after := 100, key_cert_sign := True, path_len_constraint := 0xffffffff,
     has_key_usage := True, has_ext_key_usage := True, key_usage_flags := usage_mask\<rparr>"

lemma sum_cert_end: "valid_end sum_cert 81"
  by (simp add: valid_end_def object_size_def PTRDIFF_MAX_def sum_cert_def ed25519_oid_def)

lemma sum_fields_ok: "fields_ok sum_cert 81 sum_fields"
proof -
  have "extn_inv sum_cert [basic_constraint_oid, key_usage_oid, ext_key_usage_oid] sum_fields"
    by (simp add: extn_inv_def sum_fields_def zero_fields_def opt_range_def IDX_NONE_def extn_oids)
  moreover have "distinct [basic_constraint_oid, key_usage_oid, ext_key_usage_oid]"
    by (simp add: extn_oids)
  ultimately show ?thesis
    unfolding fields_ok_def
    by (intro conjI exI [of _ 2] exI [of _ 9] exI [of _ 16]
          exI [of _ "[basic_constraint_oid, key_usage_oid, ext_key_usage_oid]"])
      (simp_all add: sum_fields_def zero_fields_def issuer_ranges_def key_ranges_def signature_ranges_def MAX_EXTN_def)
qed

lemma sum_self_sign_ok: "self_sign_ok sum_cert sum_fields 50"
  by (simp add: self_sign_ok_def sum_fields_def zero_fields_def IDX_NONE_def)

lemma null_fits: "slot_fits raw f null_key"
  by (simp add: slot_fits_def null_key_def)

section \<open>Dates\<close>

definition epoch :: tm where
  "epoch = \<lparr>tm_sec = 0, tm_min = 0, tm_hour = 0, tm_mday = 1, tm_mon = 0, tm_year = 70\<rparr>"

definition epoch_bytes :: "byte list" where
  "epoch_bytes = [0x17, 13, 55, 48, 48, 49, 48, 49, 48, 48, 48, 48, 48, 48, 90]"

lemma epoch_time: "valid_tm epoch" "timegm_secs epoch = 0" "epoch_bytes = date_bytes (epoch, False)" "date_ok (epoch, False)"
  by (simp_all add: valid_tm_def epoch_def epoch_bytes_def timegm_secs_def month_length_def days_before_month_def
      days_before_year_def date_bytes_def date_ok_def date_written_def secs_read_def utctime_bytes_def time_bytes_def two_digits_def digit_def
      der_tlv_def der_length_def der_tags)


text \<open>1 January 2050, the first date for which certificates use a \<open>GeneralizedTime\<close>.\<close>

definition date_2050 :: "byte list" where
  "date_2050 = [0x18, 15, 50, 48, 53, 48, 48, 49, 48, 49, 48, 48, 48, 48, 48, 48, 90]"

definition tm_2050 :: tm where
  "tm_2050 = \<lparr>tm_sec = 0, tm_min = 0, tm_hour = 0, tm_mday = 1, tm_mon = 0, tm_year = 150\<rparr>"

lemma date_2050_element: "valid_tm tm_2050" "timegm_secs tm_2050 = 2524608000" "date_2050 = date_bytes (tm_2050, True)"
  "date_ok (tm_2050, True)" "secs_read (tm_2050, True) = 62482752000"
  by (simp_all add: valid_tm_def tm_2050_def date_2050_def timegm_secs_def month_length_def days_before_month_def
      is_leap_def date_bytes_def date_ok_def date_written_def secs_read_def
      days_before_year_def gentime_bytes_def time_bytes_def two_digits_def four_digits_def
      digit_def der_tlv_def der_length_def der_tags)

section \<open>Calls that succeed\<close>

text \<open>\<open>write\<close> takes one byte of the script at a time.\<close>

definition echo_all :: "uinta \<Rightarrow> exec_os" where
  "echo_all n = \<lparr>pipe_result = 0, fork_result = 77, write_results = replicate (unat n) 1\<rparr>"

lemma single_writes: "write_answers n (replicate n 1)"
  by (induction n) (simp_all add: nat_diff_distrib)

lemma echo_all_written: "all_written echo_all"
  by (simp add: all_written_def writes_all_def echo_all_def single_writes)

end
