(* ===== verification/Example_Run.thy ===== *)
theory Example_Run
  imports Examples
begin

text \<open>
  A concrete certificate, with an Ed25519 key, that the library of \<open>Examples\<close> verifies, and a run of the
  server with it: the certificate is loaded, a connection accepted, a signed script received and run.
\<close>

unbundle bit_operations_syntax

section \<open>A certificate\<close>

definition year_2020 :: tm where
  "year_2020 = \<lparr>tm_sec = 0, tm_min = 0, tm_hour = 0, tm_mday = 1, tm_mon = 0, tm_year = 120\<rparr>"

definition code_signing :: "byte list" where "code_signing = [0x2b, 6, 1, 5, 5, 7, 3, 3]"

definition unsigned_certificate :: certificate where
  "unsigned_certificate = \<lparr>c_serial = [1], c_sig_alg = (ed25519_oid, []), c_issuer = [[([85, 4, 3], 12, [65])]],
     c_from = (epoch, False), c_until = (year_2020, False), c_subject = [[([85, 4, 3], 12, [65])]],
     c_key_alg = (ed25519_oid, []), c_key = [4], c_issuer_uid = None, c_subject_uid = None,
     c_extns = Some [Supported True (Basic_Constraints True None), Supported True (Key_Usage 2 [0x84]),
       Supported False (Key_Purposes [code_signing])], c_signature = []\<rparr>"

definition sum_certificate :: certificate where
  "sum_certificate = unsigned_certificate\<lparr>c_signature := replicate 64 (sum_list (tbs_bytes unsigned_certificate) + 4)\<rparr>"

lemma sum_certificate_ok: "certificate_ok sum_certificate"
  by (simp add: certificate_ok_def sum_certificate_def unsigned_certificate_def name_ok_def date_ok_def date_written_def
      secs_read_def epoch_def
      year_2020_def valid_tm_def month_length_def is_leap_def timegm_secs_def days_before_month_def days_before_year_def
      extensions_ok_def listed_def MAX_EXTN_def extn_oids)

lemma sum_certificate_signs: "signs_code sum_certificate 50"
  by (simp add: signs_code_def sum_certificate_def unsigned_certificate_def epoch_def secs_read_def cert_info_def extensions_info_def
      year_2020_def valid_tm_def month_length_def is_leap_def timegm_secs_def days_before_month_def days_before_year_def
      listed_def no_info_def code_signing_def add_purpose_def oid_flag_def KP_OID_def purpose_flag_def usage_mask_def 
      KEY_USAGE_FLAG_SIGN_def KEY_USAGE_FLAG_KEY_CERT_SIGN_def KEY_USAGE_FLAG_CODE_SIGNING_def)

lemma length_der_tlv:
  "length x < 128 \<Longrightarrow> length (der_tlv t x) = length x + 2"
  "128 \<le> length x \<Longrightarrow> length x < 256 \<Longrightarrow> length (der_tlv t x) = length x + 3"
  "256 \<le> length x \<Longrightarrow> length x < 65536 \<Longrightarrow> length (der_tlv t x) = length x + 4"
  by (auto simp add: der_tlv_def der_length_def be_bytes.simps [of "length x"] be_bytes.simps [of "length x div 256"]
      div_greater_zero_iff)

lemma length_time: "length (utctime_bytes t) = 13"
  by (simp add: utctime_bytes_def time_bytes_def two_digits_def)

lemma sum_tbs: "tbs_bytes sum_certificate = tbs_bytes unsigned_certificate"
  by (simp add: sum_certificate_def tbs_bytes_def validity_bytes_def key_info_bytes_def)

lemma sum_certificate_alg: "c_sig_alg sum_certificate = (ed25519_oid, [])"
  by (simp add: sum_certificate_def unsigned_certificate_def)

lemma sum_certificate_length: "length (certificate_bytes sum_certificate) = 226"
proof -
  have a: "length (alg_id_bytes (ed25519_oid, [])) = 7"
    by (simp add: alg_id_bytes_def ed25519_oid_def length_der_tlv)
  have n: "length (name_bytes [[([85, 4, 3], 12, [65])]]) = 14"
    by (simp add: name_bytes_def relative_name_bytes_def attribute_bytes_def length_der_tlv)
  have e: "length (extensions_bytes (c_extns unsigned_certificate)) = 58"
    by (simp add: extensions_bytes_def unsigned_certificate_def length_der_tlv extn_oids code_signing_def bool_bytes_def)
  have "length (tbs_bytes unsigned_certificate) = 149"
    using e by (simp add: tbs_bytes_def unsigned_certificate_def length_der_tlv a n version_bytes_def validity_bytes_def
      date_bytes_def key_info_bytes_def length_time)
  moreover have "length (der_tlv DER_BITSTRING (0 # c_signature sum_certificate)) = 67"
    by (simp add: sum_certificate_def length_der_tlv)
  ultimately show ?thesis
    by (simp add: certificate_bytes_def sum_tbs sum_certificate_alg a length_der_tlv)
qed

section \<open>A run of the server\<close>

definition echo_os :: exec_os where
  "echo_os = \<lparr>pipe_result = 0, fork_result = 77, write_results = [1, 1]\<rparr>"

text \<open>The file of the certificate, the key it gives, and the library after that.\<close>

definition sum_file :: cert_file where
  "sum_file = \<lparr>open_result = 5, fstat_result = 0, file_size = 226,
     map_result = Inr (certificate_bytes sum_certificate), clock_now = 50\<rparr>"

definition sum_key :: PubKey where
  "sum_key = \<lparr>expiry = timegm_secs year_2020, exp_sig_size = 64, alg_idx = 0, pkey = Addr 1, md_ctx = Addr 2, md = None\<rparr>"

definition run_lib :: sum_lib where
  "run_lib = [(2, Sum_Context (Some (ed_public, None))), (1, Sum_Key ed_public)]"

lemma sum_gives_key: "gives_key sum_ssl sum_certificate 50 null_key [] sum_key run_lib"
proof -
  have "key_made sum_ssl sum_certificate null_key [] (sum_key\<lparr>expiry := 0\<rparr>) [(2, Sum_Context None), (1, Sum_Key ed_public)]"
    by (simp add: key_made_def ed_key_made_def sum_certificate_def unsigned_certificate_def sum_ssl_def sum_new_def
        sum_fresh_def sum_key_def null_key_def ed_public_def)
  moreover have "openssl_verify sum_ssl (sum_key\<lparr>expiry := 0\<rparr>) (tbs_bytes sum_certificate) (c_signature sum_certificate)
      [(2, Sum_Context None), (1, Sum_Key ed_public)] = Inr (True, run_lib)"
    by (simp add: openssl_verify_def sum_ssl_def sum_init_def sum_verify_def sum_valid_def sum_key_def sum_tbs run_lib_def
        ed_public_def) (simp add: sum_certificate_def)
  moreover have "sum_key = (sum_key\<lparr>expiry := 0\<rparr>)\<lparr>expiry := secs_read (c_until sum_certificate)\<rparr>"
    by (simp add: sum_key_def sum_certificate_def unsigned_certificate_def secs_read_def)
  ultimately show ?thesis using sum_certificate_signs unfolding gives_key_def by blast
qed

lemma sum_file_ok: "cert_file_ok sum_file"
  by (simp add: cert_file_ok_def sum_file_def sum_certificate_length PTRDIFF_MAX_def)

lemma sum_accept: "accept_cert sum_ssl (certificate_bytes sum_certificate) 226 50 path null_key [] =
    Inr (True, sum_key, run_lib, [])"
  using file_valid_end [OF sum_file_ok] sum_certificate_ok sum_gives_key
  by (subst accept_cert_iff) (auto simp: sum_file_def)

lemma sum_read_cert: "read_cert sum_ssl sum_file path null_key [] = Inr (True, sum_key, run_lib, [Unmap, CloseFile 5])"
  by (simp add: read_cert_def sum_file_def sum_accept)

lemma replicate_4: "replicate 4 x = x # replicate 3 x"
  by (simp flip: replicate_Suc)

definition good_sockets :: socket_os where
  "good_sockets = \<lparr>socket_result = 3, bind_result = 0, listen_result = 0, epoll_create_result = 4, epoll_ctl_result = 0\<rparr>"

definition run_accept :: "epoll_event \<times> event_os" where
  "run_accept = (\<lparr>data_fd = MAX_INT32, events = EPOLLIN\<rparr>,
     \<lparr>acc = \<lparr>accept_result = 9, add_result = 0, clock_result = 5\<rparr>, recv_chunks = [], recv_errno = EAGAIN,
       time_result = 0, exec_answers = echo_all\<rparr>)"

definition run_data :: "epoll_event \<times> event_os" where
  "run_data = (\<lparr>data_fd = 0, events = EPOLLIN OR EPOLLRDHUP\<rparr>,
     \<lparr>acc = \<lparr>accept_result = 9, add_result = 0, clock_result = 5\<rparr>, recv_chunks = [sum_input], recv_errno = EAGAIN,
       time_result = 60, exec_answers = echo_all\<rparr>)"

definition run_os :: main_os where
  "run_os = \<lparr>sockets = good_sockets, certs = Single sum_file, waits = [Inr [run_accept], Inr [run_data], Inl 4]\<rparr>"

definition run_loaded :: "sum_lib server" where
  "run_loaded = \<lparr>res = zero_resources\<lparr>socket_fd := 3, epoll_fd := 4, keys := Some (sum_key # replicate 3 null_key),
     keys_size := 1, keys_cap := 4\<rparr>, lib = run_lib,
     trace = [Bind DEFAULT_PORT, Listen TCP_BACKLOG, Watch 3 EPOLLIN MAX_INT32, File Unmap, File (CloseFile 5)]\<rparr>"

lemma run_loads:
  "(case open_sockets good_sockets \<lparr>res = zero_resources, lib = [], trace = []\<rparr> of
     (Continue, s) \<Rightarrow> load_certs sum_ssl null_key ''cert'' (Single sum_file) s | _ \<Rightarrow> Inl (Fault AssertFailed)) =
   Inr (Continue, run_loaded)"
  by (simp add: open_sockets_def good_sockets_def load_certs_def read_key_def alloc_keys_def sum_read_cert run_loaded_def
      zero_resources_def emit_def replicate_4)

definition run_accepted :: "sum_lib server" where
  "run_accepted = (emit [Watch 9 (EPOLLIN OR EPOLLRDHUP) 0] run_loaded)\<lparr>res := (res run_loaded)\<lparr>conns := \<lparr>fd = 9, open_time = 5, buf_size = 0, buf_cap = 1024, buf = Some []\<rparr> #
     replicate 127 zero_conn, conns_total := 1\<rparr>\<rparr>"

lemma replicate_128: "replicate 128 x = x # replicate 127 x"
  by (simp flip: replicate_Suc)

lemma run_accepts: "handle_event sum_ssl (fst run_accept) (snd run_accept) run_loaded = Inr (Continue, run_accepted)"
  by (simp add: handle_event_def run_accept_def accept_conn_def evict_def run_loaded_def zero_resources_def replicate_128
      conn_at_def set_conn_def open_conn_def zero_conn_def run_accepted_def KILOBYTE_def)


definition run_received :: "sum_lib server" where
  "run_received = run_accepted\<lparr>res := (res run_loaded)\<lparr>
     conns := \<lparr>fd = 9, open_time = 5, buf_size = 67, buf_cap = 1024, buf = Some sum_input\<rparr> # replicate 127 zero_conn,
     conns_total := 1\<rparr>\<rparr>"

lemma run_receives: "recv_loop 0 [sum_input] EAGAIN run_accepted = Inr run_received"
  by (simp add: run_accepted_def run_received_def run_loaded_def recv_into_def set_conn_def MAX_SCRIPT_SIZE_def
      sum_input_def sum_script_def)

lemma run_authenticates:
  "auth_loop sum_ssl 60 sum_input 67 1 0 (sum_key # replicate 3 null_key) 1 run_lib =
     Inr (Authentic 65, sum_key # replicate 3 null_key, 1, run_lib)"
  by (subst auth_loop.simps) (simp add: nth_append Let_def sum_key_def rd_def rd_bytes_def object_size_def
      PTRDIFF_MAX_def sum_input_def sum_script_def pub_key_verify_def alg_of_def supported_algs_def ed25519_def
      openssl_verify_def sum_ssl_def sum_init_def sum_verify_def sum_valid_def run_lib_def ed_public_def timegm_secs_def year_2020_def days_before_month_def days_before_year_def is_leap_def)

lemma two_writes: "replicate (unat (2 :: uinta)) (1 :: int) = [1, 1]"
  by code_simp

lemma echo_all_2: "echo_all 2 = echo_os"
  unfolding echo_all_def echo_os_def two_writes ..

lemma run_executes:
  "exec_script sum_script 2 1 (echo_all 2) =
   Inr [ExecMessage ''Remote bash script #%d received and authenticated, executing now...'' 1, Fed [1], Fed [2],
     ClosePipe False, ClosePipe True, Reaped 77]"
  by (simp add: exec_script_def echo_all_2 echo_os_def sum_script_def rd_bytes_def object_size_def PTRDIFF_MAX_def)

definition run_done :: "sum_lib server" where
  "run_done = run_loaded\<lparr>res := (res run_loaded)\<lparr>script_n := 1,
     conns := \<lparr>fd = 0, open_time = 0, buf_size = 0, buf_cap = 1024, buf = Some sum_input\<rparr> # replicate 127 zero_conn\<rparr>,
     trace := trace run_accepted @
      [Ran sum_script 1 [ExecMessage ''Remote bash script #%d received and authenticated, executing now...'' 1,
         Fed [1], Fed [2], ClosePipe False, ClosePipe True, Reaped 77], CloseFd 9]\<rparr>"

lemma sum_input_script: "rd_bytes sum_input 65 2 = (Inr sum_script :: byte list run)"
  by (simp add: rd_bytes_def object_size_def PTRDIFF_MAX_def sum_input_def sum_script_def)

lemma run_handles: "handle_event sum_ssl (fst run_data) (snd run_data) run_accepted = Inr (Continue, run_done)"
proof -
  have r: "recv_loop 0 [sum_input] EAGAIN run_accepted = Inr run_received" by (rule run_receives)
  have a: "authenticate sum_ssl 0 60 echo_all run_received =
      Inr (Continue, run_done)"
    by (simp add: authenticate_def run_received_def run_accepted_def run_loaded_def run_authenticates sum_input_script run_executes
        free_conn_def set_conn_def emit_def run_done_def zero_resources_def del: One_nat_def)
  have c: "conn_at run_accepted 0 = Inr \<lparr>fd = 9, open_time = 5, buf_size = 0, buf_cap = 1024, buf = Some []\<rparr>"
    "conn_at run_received 0 = Inr \<lparr>fd = 9, open_time = 5, buf_size = 67, buf_cap = 1024, buf = Some sum_input\<rparr>"
    "conn_at run_done 0 = Inr \<lparr>fd = 0, open_time = 0, buf_size = 0, buf_cap = 1024, buf = Some sum_input\<rparr>"
    by (simp_all add: run_accepted_def run_received_def run_done_def)
  show ?thesis
    by (simp add: handle_event_def run_data_def handle_conn_def c r a MAX_INT32_def EPOLLIN_def
      EPOLLRDHUP_def EPOLLHUP_def EPOLLERR_def del: recv_loop.simps)
qed

lemma handle_events_step: "handle_events ssl (e # evs) s = check_ok (handle_event ssl (fst e) (snd e) s) (\<lambda>(v, s).
    case v of Return c \<Rightarrow> Inr (Return c, s) | Continue \<Rightarrow> handle_events ssl evs s)"
  by (cases e) simp

lemma run_slot_null:
  assumes "open_sockets good_sockets \<lparr>res = zero_resources, lib = [], trace = []\<rparr> = (v, s)"
  shows "null_slots sum_ssl null_key ''cert'' (Single sum_file) s"
  using open_sockets_no_keys [OF zero_no_keys assms]
  by (intro null_slots_single) (simp_all add: null_key_def no_keys_def)

lemma run_valid: "main_valid sum_ssl null_key [''server'', ''cert''] run_os []"
proof -
  have e: "event_valid run_accept run_loaded" "event_valid run_data run_accepted"
    by (simp_all add: event_valid_def run_accept_def run_data_def accept_ok_def run_accepted_def all_written_ok [OF echo_all_written]
        MAX_INT64_def MAX_INT32_def sum_input_def sum_script_def MAX_SCRIPT_SIZE_def del: write_answers.simps)
  have c: "certs_valid sum_ssl null_key ''cert'' (Single sum_file) s"
    if "open_sockets good_sockets \<lparr>res = zero_resources, lib = [], trace = []\<rparr> = (Continue, s)" for s
    using run_slot_null [OF that] by (simp add: certs_valid_def certs_ok_def path_ok_def sum_file_ok)
  show ?thesis
    using run_loads c e run_accepts run_handles
    by (simp add: main_valid_def run_os_def handle_events_step handle_wait_def wait_valid_def split: prod.splits verdict.splits)
qed

lemma run_documented: "documented_os [''server'', ''cert''] run_os"
  by (simp add: documented_os_def certs_ok_def sum_file_ok run_os_def kernel_wait_ok_def kernel_ok_def run_accept_def
      run_data_def writes_ok_fit [OF all_written_ok [OF echo_all_written]] MAX_INT64_def)

lemma run_keys_into_null: "keys_into_null sum_ssl null_key [''server'', ''cert''] run_os []"
  using run_slot_null by (auto simp: keys_into_null_def run_os_def split: prod.splits verdict.splits)

lemma run_opens:
  obtains s where "open_sockets good_sockets \<lparr>res = zero_resources, lib = [], trace = []\<rparr> = (Continue, s)"
    "load_certs sum_ssl null_key ''cert'' (Single sum_file) s = Inr (Continue, run_loaded)"
  using run_loads by (auto split: prod.splits verdict.splits)

lemma run_main:
  "main_protected sum_ssl null_key [''server'', ''cert''] run_os \<lparr>res = zero_resources, lib = [], trace = []\<rparr> =
     Inr (Return (- 1), emit [Perror ''Call to epoll_wait failed''] run_done)"
proof (rule run_opens)
  fix s assume "open_sockets good_sockets \<lparr>res = zero_resources, lib = [], trace = []\<rparr> = (Continue, s)"
    "load_certs sum_ssl null_key ''cert'' (Single sum_file) s = Inr (Continue, run_loaded)"
  then show ?thesis
    by (simp add: main_protected_def run_os_def handle_events_step run_accepts run_handles)
qed

lemma free_all_trace: "free_all ssl s = Inr s' \<Longrightarrow> \<exists>es. trace s' = trace s @ es"
  by (auto simp: free_all_def Let_def split: option.splits if_splits)

text \<open>The run returns, and has had the script run.\<close>

lemma run_returns:
  obtains s' es where "main sum_ssl null_key [''server'', ''cert''] run_os [] = Inr (Return (- 1), s')"
    "Ran sum_script 1 es \<in> set (trace s')"
proof -
  obtain v s' where m: "main sum_ssl null_key [''server'', ''cert''] run_os [] = Inr (v, s')"
    using main_safe [OF openssl_contentsD(1) [OF sum_ssl_contents] run_valid] unfolding run_safe_iff by blast
  then have "v = Return (- 1)" and s: "free_all sum_ssl (emit [Perror ''Call to epoll_wait failed''] run_done) = Inr s'"
    by (auto simp: main_def run_main)
  moreover have "\<exists>es. Ran sum_script 1 es \<in> set (trace s')"
    using free_all_trace [OF s] by (auto simp: run_done_def)
  ultimately show thesis using m that by blast
qed

end
