(* ===== verification/Spec2Isabelle.thy ===== *)
theory Spec2Isabelle
  imports Example_Run
begin

text \<open>
  A server that executes shell scripts it receives over TCP, if they are signed with the key of a
  trusted, self-signed X.509 certificate; and the client that signs them. This library models the C
  sources under \<open>src/src\<close> and proves what makes them correct.

  \<^bold>\<open>The program.\<close> \<open>main\<close> (\<open>main.c\<close>) opens a listening socket and an epoll instance, loads
  the certificates of a file or a directory with \<open>read_cert\<close> (\<open>read_cert.c\<close>), and handles epoll
  events until one ends the server. \<open>read_cert\<close> maps a file, has \<open>parse_x509\<close> (\<open>x509.c\<close>)
  fill in a record of indices, and has \<open>extract_self_sign_for_code_sign\<close> (\<open>crypto.c\<close>) check the
  fields, build a key with OpenSSL and verify the self-signature. A connection collects bytes in a buffer
  until the peer closes it; then the keys are tried in turn, and the first that verifies the signature in
  front of the newline has the script behind it run by \<open>exec_script\<close> (\<open>exec.c\<close>), which feeds it
  to \<open>bash\<close> through a pipe. \<open>gen_sig.c\<close> is the client.

  \<^bold>\<open>Theories.\<close>
  \<^item> \<open>Prelude\<close>: machine words, failures as values (\<open>Code\<close>: an error code is returned; \<open>Fault\<close>:
    a read or write outside an object, a failed assertion, the use of an uninitialised or dangling
    pointer, a call that never returns), the early-return idiom \<open>check_ok\<close>, the contract \<open>safe\<close>, buffers and cursors.
  \<^item> \<open>Basic\<close>: the constants and the byte macros of \<open>basic.h\<close>.
  \<^item> \<open>X509_Types\<close>: \<open>x509.h\<close>; the locale \<open>element_loop\<close>, the interface of every loop of the
    parser, with its loop rule and its contract.
  \<^item> \<open>Der\<close>, \<open>Der_Spec\<close>: the DER primitives of \<open>x509.c\<close>, their contracts, and that
    \<open>parse_any\<close> accepts exactly the headers of DER.
  \<^item> \<open>Cert_Time\<close>: \<open>parse_time\<close> with the calendar of \<open>timegm\<close>. \<open>date_bytes\<close> is the encoding of a date as the standard
    has it; \<open>as_read\<close> and \<open>secs_read\<close> are the date and the seconds that the code makes of it, 1900 years later for a
    \<open>GeneralizedTime\<close>, and \<open>date_ok\<close> says that what is read is a date of the calendar from the epoch on. \<open>parse_time\<close>
    accepts exactly the encodings of such dates. \<open>Date_Order\<close>: dates are a linear order, and seconds compare as dates do.
  \<^item> \<open>Extensions\<close>: the five extension parsers, the table and its dispatch; the locale
    \<open>extn_parser\<close> is the contract of a row of the table and is interpreted for each.
  \<^item> \<open>X509\<close>: names, the extension loop and \<open>parse_x509\<close>, cut into stages at its ASN.1 comments.
  \<^item> \<open>Grammar\<close>, \<open>Extension_Grammar\<close>, \<open>Certificate_Grammar\<close>: the reference for the parser, an abstract
    syntax of certificates with its bytes. The locale \<open>element_grammar\<close> extends \<open>element_loop\<close> by the
    grammar of the elements of a loop and gives its soundness and completeness once; it is interpreted for
    attributes, relative names, key purposes and extensions. \<open>extn_grammar\<close> extends \<open>extn_parser\<close> and is
    interpreted for the five extension parsers. \<open>parse_x509\<close> accepts exactly the certificates, \<open>describes\<close>
    says what its fields mean, and \<open>extension_fields\<close> what \<open>x509.h\<close> says of the fields of the extensions.
  \<^item> \<open>Crypto\<close>: keys and self-signatures. \<open>Crypto_Contracts\<close>: the rules of OpenSSL (\<open>openssl_ok\<close>) and the
    contracts of \<open>crypto.c\<close>; the locale \<open>signature_alg\<close> is the contract of a row of the algorithm table.
  \<^item> \<open>Read_Cert\<close>, \<open>Exec\<close>: \<open>read_cert.c\<close> and \<open>exec.c\<close>. \<open>Pipe\<close>: the parent and the child of \<open>exec.c\<close> with the
    pipe between them as a step relation, where the kernel gives the answers that are an input of \<open>Exec\<close>.
  \<^item> \<open>Server\<close>: the connections, the receive loop, authentication and the event loop of \<open>main.c\<close>.
    \<open>Connections\<close>, \<open>Authentication\<close>, \<open>Events\<close>: the invariant of the table of connections, and the contracts of
    its operations, of the loop over the keys and of the event handlers. The locale \<open>event_run\<close> is the interface of a
    run of handlers, interpreted for the batch of one \<open>epoll_wait\<close> and for the loop around it. \<open>Survival\<close>: the
    locale \<open>surviving_run\<close> extends it and shows that a run which neither faults nor blocks was valid, whatever the events, once its lists of
    answers of \<open>write\<close> are made longer by ones it did not use (\<open>pad\<close>);
    \<open>reachable\<close>, the server as a transition system. \<open>Startup\<close>: the rest of \<open>main.c\<close>.
  \<^item> \<open>Certificate_Check\<close>: what the program accepts, stated of certificates: \<open>signs_code\<close>, \<open>key_made\<close>
    and \<open>gives_key\<close> are the abstract specification of \<open>crypto.c\<close> and \<open>accept_cert\<close>, and \<open>certified\<close>
    that of the keys the server trusts.
  \<^item> \<open>Key_Contents\<close>: what the objects of OpenSSL hold and what a signature means, over a heap of them;
    a key that \<open>crypto.c\<close> makes holds the public key in the certificate. \<open>Signed_Scripts\<close>: this carried
    through the loading of the certificates, the loop over the keys, the events and \<open>main\<close>, so that what a
    script was signed with is stated of the files the server was given.
  \<^item> \<open>Service\<close>: the abstract specification of the server, a step relation on what the open connections have
    sent and the scripts run. \<open>service_of\<close> is the abstraction, \<open>refines\<close> the simulation with the invariant it
    needs (\<open>tidy\<close>); every handler of \<open>main.c\<close> is a sequence of steps, and so is the program.
  \<^item> \<open>Batch\<close>: what an event leaves alone, the batches that are handled without a fault, the events that abort the
    server, and an eviction in the middle of a batch. \<open>Delivery\<close>: a connection among others collects what is sent
    to it over any number of events until its script is run.
  \<^item> \<open>Loops\<close>: the loop over the keys on the counter of the source, as a partial function that may not return,
    and bounds on the rounds of the loops of the parser (\<open>rounds\<close> of \<open>X509_Types\<close>).
  \<^item> \<open>Gen_Sig\<close>: the client. \<open>Examples\<close>, \<open>Example_Run\<close>: a concrete library behind the OpenSSL
    parameter, concrete inputs, a certificate and a run of the server with it, on which the properties
    below are applied.

  \<^bold>\<open>Conventions.\<close> A C function is a HOL function of the same name; out parameters are results; a
  loop is a recursive function over the state it updates, total by a measure or by the list of answers it
  consumes, so a statement that a call is \<open>safe\<close> says that it returns. Indices are 64-bit words and
  wrap around; \<open>time_t\<close> and descriptors are integers. A buffer is the list of the bytes that may be
  read, and no object is larger than \<open>PTRDIFF_MAX\<close>. What the operating system answers is an input of
  the operation that asks; what the program does to it is a list of effects. OpenSSL is the record
  \<open>OpenSSL\<close> of the functions the source calls, over a state of its own; \<open>openssl_ok\<close> states its
  documented ownership rules: a constructor returns a new object or null, a free of a live object
  releases it, other calls neither allocate nor release. It promises nothing of indeterminate or dangling
  pointers. \<open>openssl_contents\<close> adds what the objects hold: a key made of bytes or of parameters holds that
  public key, nothing else changes it, and a verification that answers 1 shows that the signature is \<open>valid\<close>,
  a relation between public key, digest, data and signature of which nothing is assumed. \<open>openssl_accepts\<close>,
  the converse, is assumed only where a property says that a valid script is run. The reference library of
  \<open>Examples\<close> satisfies all three. The time is what the clock answered to the calls of the run
  (\<open>clock_times\<close>), in any order. Of the operating system \<open>documented_os\<close> (\<open>kernel_ok\<close> for one event, \<open>certs_ok\<close>
  for the files) says what does not depend on the program: \<open>write\<close> takes no more than it is given, \<open>accept\<close> does not
  return the descriptor 0, the clock has not reached its end, a file is mapped with its size, and a directory has no more
  than \<open>2 ^ 32\<close> entries. \<open>main_valid\<close> (\<open>event_valid\<close> for an event, \<open>certs_valid\<close> for the files) adds what the program needs
  to go on: an event is of an open connection with room for what is received, \<open>epoll_ctl\<close> succeeds for an accepted
  connection, every \<open>write\<close> to \<open>bash\<close> returns, and the path of a directory has more than one character. \<open>aborts_on\<close>
  characterises the events on which the server aborts otherwise. That an RSA key is only made in place of a null pointer
  is a hypothesis of its own (\<open>slot_fits\<close> for a key, \<open>slot_reads\<close> for a file, \<open>null_slots\<close> for the files to load,
  \<open>keys_into_null\<close> for a run): the source passes elements of an array from \<open>malloc\<close>, and OpenSSL takes a pointer
  that is not null for a key to reuse. It concerns certificates that pass every check and have an RSA key, and no others.

  \<^bold>\<open>Bounds.\<close> The counter of the loop over the keys is a signed 64-bit word and the number of keys less than
  \<open>2 ^ 63\<close>. A loop of the parser makes at most one round for every byte left and a last one; the loop over the
  extensions at most \<open>MAX_EXTN + 1\<close>. No other definition has fuel: the remaining loops consume the list of
  the answers of the operating system.

  \<^bold>\<open>Not modelled.\<close> The addresses of sockets, the exact text of the numbers in messages,
  \<open>malloc\<close> returning null (the source does not look at it), signals, what \<open>bash\<close> does, and
  the macros of \<open>basic.h\<close> on raw pointers and floating-point numbers, which the program does not use. The
  build and test scripts hold no logic of the program. Line 159 of \<open>main.c\<close> reads
  \<open>malloc(PubKey, 4)\<close>, which does not compile; it is modelled as the macro \<open>malloct\<close> of
  \<open>basic.h\<close>.

  The properties below span the components; each is a few steps over the lemmas of the library. Some
  state what the code does where it does not do what it means to.
\<close>

section \<open>The program\<close>

text \<open>C1 Whatever its peers send and in whatever order events arrive, the server runs only validly signed scripts:
  one of the given files holds a certificate which was allowed to sign code when it was read and is validly
  signed with its own key, a signature of the script is valid for the public key in that certificate, and the
  certificate had not expired at an answer of the clock, by its last date as the server reads it
  (\<open>secs_read\<close>; 1900 years late for a \<open>GeneralizedTime\<close>). What \<open>bash\<close> is given to read is a part of the script
  from its start. Assumed are the rules of OpenSSL, an operating system that answers as documented
  (\<open>documented_os\<close>: a file is mapped with its size, a directory has no more than \<open>2 ^ 32\<close> entries, with shorter names and a
  shorter path, \<open>write\<close> takes no more than it is given, the clock has not reached its end, and \<open>accept\<close> does not return the
  descriptor 0), and, because nothing is known of OpenSSL otherwise, that no RSA key is made in an element of the array
  of keys whose pointer is not null (\<open>keys_into_null\<close>; the source does not see to that). The theorem is about runs that
  neither fault nor block; what happens before an abort is the run with fewer events, and what happens before a
  \<open>write\<close> that does not return is the run in which it fails.\<close>
theorem only_signed_scripts_run:
  assumes "openssl_contents ssl heap valid" "documented_os argv os" "keys_into_null ssl fresh argv os w"
    "main ssl fresh argv os w = Inr (v, s')" "Ran script n es \<in> set (trace s')"
  shows "(\<exists>j. fed es = take j script) \<and>
    (\<exists>crt\<in>cert_files (certs os). \<exists>c m d sig. map_result crt = Inr (certificate_bytes c) \<and>
       certificate_ok c \<and> signs_code c (clock_now crt) \<and> certificate_key c m d \<and>
       valid m d (tbs_bytes c) (c_signature c) \<and> valid m d script sig \<and>
       (\<exists>now\<in>clock_times (waits os). now \<le> secs_read (c_until c)))"
proof -
  from main_survives [OF openssl_contentsD(1) [OF assms(1)] assms(2-4)]
  have p: "main_valid ssl fresh argv (pad_main os) w" "main ssl fresh argv (pad_main os) w = Inr (v, s')" by auto
  from safe_InrD [OF main_signed [OF assms(1) p(1)] p(2)] assms(5)
  show ?thesis by (fastforce simp: certificate_signed_def file_key_def pad_times)
qed

lemma only_signed_scripts_run_witness:
  "\<exists>s' es c m d sig. main sum_ssl null_key [''server'', ''cert''] run_os [] = Inr (Return (- 1), s') \<and>
     Ran sum_script 1 es \<in> set (trace s') \<and> map_result sum_file = Inr (certificate_bytes c) \<and>
     certificate_key c m d \<and> sum_valid m d sum_script sig \<and> 0 \<le> secs_read (c_until c)"
proof -
  obtain s' es where m: "main sum_ssl null_key [''server'', ''cert''] run_os [] = Inr (Return (- 1), s')"
    "Ran sum_script 1 es \<in> set (trace s')" by (rule run_returns)
  have files: "cert_files (certs run_os) = {sum_file}" by (simp add: cert_files_def run_os_def)
  have times: "clock_times (waits run_os) = {0, 60}"
    by (auto simp: clock_times_def wait_times_def batch_times_def run_os_def run_accept_def run_data_def)
  from only_signed_scripts_run [OF sum_ssl_contents run_documented run_keys_into_null m, unfolded files times] obtain c m d sig now where
    "map_result sum_file = Inr (certificate_bytes c)" "certificate_key c m d"
    "sum_valid m d sum_script sig" "now \<in> {0, 60}" "now \<le> secs_read (c_until c)" by blast
  moreover from this(4,5) have "0 \<le> secs_read (c_until c)" by auto
  ultimately show ?thesis using m by blast
qed



text \<open>C3 A single event, whatever it is, keeps the invariant of the server (the table of connections and its counter
  agree, every buffer is within its block, the keys are allocated and share no object), when the kernel answers as
  \<open>kernel_ok\<close> says (\<open>write\<close> takes no more than it is given, \<open>accept\<close> does not return the descriptor 0, and the clock has not
  reached its end). If the handler returns, the invariant holds in the new state, what the keys hold is
  unchanged, and a script that was run on the way came behind a signature that is valid for one of the keys,
  which had not expired at the time the clock answered. It does return, without a fault, unless the event is one of
  those the server aborts on (\<open>aborts_on\<close>) or a \<open>write\<close> to \<open>bash\<close> does not return.\<close>
theorem handle_event_keeps_invariant:
  assumes "openssl_contents ssl heap valid" "server_inv (live_in heap) K s" "kernel_ok os"
  shows "case handle_event ssl event os s of
    Inl f \<Rightarrow> aborts_on event os s \<or> f = Fault Blocked \<and> \<not> writes_ok (exec_answers os)
  | Inr (v, s') \<Rightarrow> server_inv (live_in heap) K s' \<and> heap (lib s') = heap (lib s) \<and>
      extends (signed_run valid K {time_result os} (heap (lib s))) s s'"
proof (cases "handle_event ssl event os s")
  case (Inl f)
  with handle_event_fault_iff [OF openssl_contentsD(1) [OF assms(1)] assms(2,3), of event]
  show ?thesis by (cases "f = Fault Blocked") auto
next
  case (Inr r)
  then obtain v s' where "handle_event ssl event os s = Inr (v, s')" by (cases r) simp
  then show ?thesis using returned_event_contents [OF assms singletonI] by auto
qed

definition no_os :: event_os where
  "no_os = \<lparr>acc = \<lparr>accept_result = - 1, add_result = 0, clock_result = 0\<rparr>, recv_chunks = [], recv_errno = EAGAIN,
     time_result = 50, exec_answers = (\<lambda>n. \<lparr>pipe_result = - 1, fork_result = 0, write_results = []\<rparr>)\<rparr>"

definition hangup :: epoll_event where
  "hangup = \<lparr>data_fd = 0, events = EPOLLIN OR EPOLLRDHUP\<rparr>"

lemma hangup_valid: "event_valid (hangup, no_os) sum_server"
  by (simp add: event_valid_def hangup_def no_os_def sum_server_def sum_conn_def writes_ok_def write_returns_def MAX_INT32_def)

lemma no_os_kernel: "kernel_ok no_os"
  by (simp add: kernel_ok_def writes_fit_def no_os_def MAX_INT64_def)

lemma handle_event_keeps_invariant_witness:
  "\<exists>v s'. handle_event sum_ssl hangup no_os sum_server = Inr (v, s') \<and> server_inv (live_in sum_heap) {ed_key} s' \<and>
    sum_heap (lib s') = sum_heap ed_lib \<and> extends (signed_run sum_valid {ed_key} {50} (sum_heap ed_lib)) sum_server s'"
proof -
  have "\<not> aborts_on hangup no_os sum_server" "writes_ok (exec_answers no_os)"
    by (simp_all add: aborts_on_def hangup_def no_os_def sum_server_def sum_conn_def writes_ok_def write_returns_def MAX_INT32_def)
  with handle_event_keeps_invariant [OF sum_ssl_contents sum_server_inv no_os_kernel, of hangup] show ?thesis
    by (auto simp: no_os_def split: sum.splits) (auto simp: sum_server_def)
qed

text \<open>C4 The server as a transition system: the invariant holds in every state it reaches while the
  kernel answers as documented, whatever the events and what is received, what the keys hold never changes, and every script run on the way there is validly signed for one of the keys it started with.\<close>
theorem reachable_states_keep_invariant:
  assumes "reachable ssl T s0 s" "openssl_contents ssl heap valid" "server_inv (live_in heap) K s0"
  shows "server_inv (live_in heap) K s \<and> heap (lib s) = heap (lib s0) \<and>
    extends (signed_run valid K T (heap (lib s0))) s0 s"
  by (rule reachable_contents [OF assms])

definition refused :: epoll_event where "refused = \<lparr>data_fd = MAX_INT32, events = EPOLLIN\<rparr>"

lemma refused_reachable:
  "reachable sum_ssl {50} sum_server (emit [Perror ''Failed to accept a TCP connection''] sum_server)"
proof (rule reachable.handled [OF reachable.started])
  show "kernel_ok no_os" by (rule no_os_kernel)
  show "time_result no_os \<in> {50}" by (simp add: no_os_def)
  show "handle_event sum_ssl refused no_os sum_server =
      Inr (Continue, emit [Perror ''Failed to accept a TCP connection''] sum_server)"
    by (simp add: handle_event_def refused_def no_os_def accept_conn_def evict_def sum_server_def)
qed

lemma reachable_states_keep_invariant_witness:
  "let s = emit [Perror ''Failed to accept a TCP connection''] sum_server in
   server_inv (live_in sum_heap) {ed_key} s \<and> sum_heap (lib s) = sum_heap (lib sum_server) \<and>
   extends (signed_run sum_valid {ed_key} {50} (sum_heap (lib sum_server))) sum_server s"
  unfolding Let_def by (rule reachable_states_keep_invariant [OF refused_reachable sum_ssl_contents sum_server_inv])

section \<open>Authentication\<close>

text \<open>C5 The loop over the keys returns without a fault, only permutes the keys, and changes nothing of what they
  hold. When it ends with a script, the connection's bytes are a signature of the size of one of the keys, a
  newline and the script; the signature is valid for the public key that key holds, and the key has not expired.\<close>
theorem authentication_is_sound:
  assumes "openssl_contents ssl heap valid" "valid_end raw n" "unat ksz \<le> length ks" "0 < ksz"
    "\<forall>k\<in>set (take (unat ksz) ks). key_ok (live_in heap) w k"
  shows "safe () (auth_loop ssl now raw n (unat ksz) 0 ks (unat ksz) w) (\<lambda>(r, ks', ksz', w').
    mset (take (unat ksz) ks') = mset (take (unat ksz) ks) \<and> heap w' = heap w \<and>
    (\<forall>start. r = Authentic start \<longrightarrow> (\<exists>k\<in>set (take (unat ksz) ks). now \<le> expiry k \<and>
       signed_input valid (heap w) (slice raw 0 n) k (slice raw start n))))"
proof -
  have one: "1 \<le> unat ksz" using assms(4) by (simp add: word_less_nat_alt)
  note ok = openssl_contentsD(1) [OF assms(1)]
  show ?thesis
    by (rule safe_mono [OF auth_loop_safe [OF ok assms(2,3) order_refl one order_refl assms(5)]])
      (use auth_loop_heap [OF assms(1-3) order_refl one order_refl assms(5)] in \<open>auto simp: auth_post_def\<close>)
qed

lemma sum_input_end: "valid_end sum_input 67" "slice sum_input 0 67 = replicate 64 7 @ 10 # sum_script"
  by (simp_all add: valid_end_def object_size_def PTRDIFF_MAX_def slice_def sum_input_def sum_script_def)

lemma sum_input_valid: "sum_valid ed_public (md ed_key) sum_script (replicate 64 7)"
  by (simp add: sum_valid_def sum_script_def ed_public_def)

lemma authentication_is_sound_witness:
  "safe () (auth_loop sum_ssl 50 sum_input 67 1 0 [ed_key] 1 ed_lib) (\<lambda>(r, ks', ksz', w').
    mset (take 1 ks') = mset [ed_key] \<and> sum_heap w' = sum_heap ed_lib \<and>
    (\<forall>start. r = Authentic start \<longrightarrow> (\<exists>k\<in>{ed_key}. 50 \<le> expiry k \<and>
       signed_input sum_valid (sum_heap ed_lib) (slice sum_input 0 67) k (slice sum_input start 67))))"
  using authentication_is_sound [OF sum_ssl_contents sum_input_end(1), of 1 "[ed_key]" ed_lib 50] ed_key_ok(1)
  by simp

text \<open>C6 While no key has expired, and with a library that accepts valid signatures, a connection that carries
  a valid signature of one of the keys is accepted, with a script that is validly signed for one of them.\<close>
theorem authentication_is_complete:
  assumes "openssl_contents ssl heap valid" "openssl_accepts ssl heap valid" "valid_end raw n" "m \<le> length ks"
    "\<forall>k\<in>set (take m ks). key_ok (live_in heap) w k \<and> now \<le> expiry k"
    "k \<in> set (take m ks)" "holds_key (heap w) k pk"
    "slice raw 0 n = sig @ 10 # script" "of_nat (length sig) = exp_sig_size k" "valid pk (md k) script sig"
  shows "\<exists>start w' k'. auth_loop ssl now raw n m 0 ks m w = Inr (Authentic start, ks, m, w') \<and>
    k' \<in> set (take m ks) \<and> signed_input valid (heap w) (slice raw 0 n) k' (slice raw start n)"
  by (rule auth_loop_signed [OF assms])

lemma authentication_is_complete_witness:
  "\<exists>start w' k'. auth_loop sum_ssl 50 sum_input 67 1 0 [ed_key] 1 ed_lib = Inr (Authentic start, [ed_key], 1, w') \<and>
    k' \<in> {ed_key} \<and> signed_input sum_valid (sum_heap ed_lib) (slice sum_input 0 67) k' (slice sum_input start 67)"
  using authentication_is_complete [OF sum_ssl_contents sum_ssl_accepts sum_input_end(1),
      of 1 "[ed_key]" ed_lib 50 ed_key ed_public "replicate 64 7" sum_script]
    sum_input_end(2) sum_input_valid ed_key_holds ed_key_ok(1) by (simp add: ed_key_def)

text \<open>C7 An event that reports the peer's end of an open connection, after which its buffer and the bytes received are
  a valid signature for one of the keys, a newline and a script, has a script run: a script that
  is validly signed for a key runs under the next number; if the calls of \<open>exec_script\<close> succeed, \<open>bash\<close> is given
  all of it and is awaited. Then the connection is closed and the server goes on. Provided are that signature, newline and
  script are fewer than \<open>MAX_SCRIPT_SIZE\<close> bytes together (with that many the connection is dropped), that no key has
  expired, that OpenSSL accepts valid signatures (\<open>openssl_accepts\<close>), that the last call of \<open>recv\<close> answers
  \<open>EAGAIN\<close>, and that the event is one the server does not abort on or block in (\<open>event_valid\<close>: the connection is open,
  \<open>recv\<close> returns no more than there is room for, and every \<open>write\<close> to \<open>bash\<close> returns).\<close>
theorem signed_script_is_run:
  assumes "openssl_contents ssl heap valid" "openssl_accepts ssl heap valid" "server_inv (live_in heap) K s"
    "event_valid (event, os) s" "data_fd event = int i" "i < MAX_CONCURRENCY" "events event AND EPOLLIN > 0"
    "events event AND (EPOLLRDHUP OR EPOLLHUP) > 0" "recv_errno os = EAGAIN"
    "\<forall>k\<in>loaded_keys s. time_result os \<le> expiry k" "k \<in> loaded_keys s" "holds_key (heap (lib s)) k pk"
    "conn_data (conns (res s) ! i) @ concat (takeWhile (\<lambda>b. b \<noteq> []) (recv_chunks os)) = sig @ 10 # script"
    "length sig + length script + 1 < unat MAX_SCRIPT_SIZE"
    "of_nat (length sig) = exp_sig_size k" "valid pk (md k) script sig"
  shows "\<exists>s' script' es. handle_event ssl event os s = Inr (Continue, s') \<and>
    (all_written (exec_answers os) \<longrightarrow> fed es = script' \<and> (\<exists>p. Reaped p \<in> set es)) \<and>
    trace s' = trace s @ [Ran script' (script_n (res s) + 1) es, CloseFd (fd (conns (res s) ! i))] \<and>
    (\<exists>k'\<in>loaded_keys s. signed_input valid (heap (lib s)) (sig @ 10 # script) k' script')"
  by (rule handle_event_signed [OF assms])

definition hangup_os :: event_os where
  "hangup_os = no_os\<lparr>recv_chunks := [[2]], exec_answers := echo_all\<rparr>"

definition part_server :: "sum_lib server" where
  "part_server = sum_server\<lparr>res := (res sum_server)\<lparr>conns := sum_conn\<lparr>buf_size := 66\<rparr> # replicate 127 zero_conn\<rparr>\<rparr>"

lemma part_server_ok: "server_inv (live_in sum_heap) {ed_key} part_server" "event_valid (hangup, hangup_os) part_server"
proof -
  have "conn_inv (sum_conn\<lparr>buf_size := 66\<rparr>)"
    by (auto simp: conn_inv_def sum_conn_def sum_input_def sum_script_def MAX_INT64_def MAX_SCRIPT_SIZE_def)
  then have "conns_inv (res part_server)" using sum_conn_inv(2)
    by (auto simp: conns_inv_def part_server_def sum_server_def open_conns_def filter_replicate sum_conn_def zero_conn_def)
  then show "server_inv (live_in sum_heap) {ed_key} part_server"
    using sum_server_inv by (auto simp: server_inv_def keys_inv_def part_server_def)
  show "event_valid (hangup, hangup_os) part_server"
    by (simp add: event_valid_def hangup_def hangup_os_def no_os_def part_server_def sum_conn_def
        all_written_ok [OF echo_all_written] MAX_INT32_def MAX_SCRIPT_SIZE_def)
qed

lemma signed_script_is_run_witness:
  "\<exists>s' script' es. handle_event sum_ssl hangup hangup_os part_server = Inr (Continue, s') \<and>
    fed es = script' \<and> trace s' = [Ran script' 1 es, CloseFd 9] \<and>
    signed_input sum_valid (sum_heap ed_lib) (replicate 64 7 @ 10 # sum_script) ed_key script'"
proof -
  have l: "loaded_keys part_server = {ed_key}" "lib part_server = ed_lib"
    by (simp_all add: loaded_keys_def part_server_def sum_server_def)
  have d: "conn_data (conns (res part_server) ! 0) @ concat (takeWhile (\<lambda>b. b \<noteq> []) (recv_chunks hangup_os)) =
      replicate 64 7 @ 10 # sum_script"
    by (simp add: part_server_def sum_server_def sum_conn_def conn_data_def hangup_os_def sum_input_def sum_script_def)
  have e: "of_nat (length (replicate 64 (7 :: byte))) = exp_sig_size ed_key" "time_result hangup_os = 50" "expiry ed_key = 100"
    "script_n (res part_server) = 0" "trace part_server = []" "fd (conns (res part_server) ! 0) = 9" "recv_errno hangup_os = EAGAIN" "exec_answers hangup_os = echo_all"
    by (simp_all add: ed_key_def hangup_os_def no_os_def part_server_def sum_server_def sum_conn_def zero_resources_def)
  show ?thesis
    using signed_script_is_run [OF sum_ssl_contents sum_ssl_accepts part_server_ok, of 0 ed_key ed_public
        "replicate 64 7" sum_script] ed_key_holds sum_input_valid echo_all_written
    unfolding l d e(1)
    by (auto simp: l d e hangup_def EPOLLIN_def EPOLLRDHUP_def EPOLLHUP_def sum_script_def MAX_SCRIPT_SIZE_def del: One_nat_def)
qed

text \<open>C8 What the client writes the server runs: when every call of \<open>gen_sig\<close> succeeds it writes bytes which, sent over a
  connection in any number of packets, in any batches and among events of other connections, have the server run
  a validly signed script in the event that ends the connection and, if the calls of \<open>exec_script\<close> succeed, give all
  of it to \<open>bash\<close>. This is provided the signature that \<open>gen_sig\<close> made is valid for the public key of one of the server's
  keys and OpenSSL accepts valid signatures (\<open>openssl_accepts\<close>), no key has expired at the time of any of the events, the
  bytes are fewer than \<open>MAX_SCRIPT_SIZE\<close>, there is room for the connections that are accepted meanwhile, the last call of
  \<open>recv\<close> answers \<open>EAGAIN\<close>, none of the other events ends this connection (\<open>outlived\<close>), and the server neither aborts on one
  of the events nor blocks in it (\<open>events_valid\<close>: \<open>epoll_ctl\<close> succeeds for every accepted connection, every event is
  of an open connection with room for what is received, and every \<open>write\<close> to \<open>bash\<close> returns).\<close>
theorem server_runs_what_gen_sig_writes:
  assumes "gen_runs gos sig" "openssl_contents ssl heap valid" "openssl_accepts ssl heap valid" "server_inv (live_in heap) K s"
    "i < MAX_CONCURRENCY" "fd (conns (res s) ! i) > 0" "concat batches = evs @ [(event, os)]" "\<forall>e\<in>set evs. outlived i e"
    "events_valid ssl (evs @ [(event, os)]) s" "unat (conns_total (res s)) + accepts evs \<le> MAX_CONCURRENCY"
    "data_fd event = int i" "events event AND EPOLLIN > 0" "events event AND (EPOLLRDHUP OR EPOLLHUP) > 0"
    "recv_errno os = EAGAIN"
    "\<forall>k\<in>loaded_keys s. \<forall>now\<in>batch_times (evs @ [(event, os)]). now \<le> expiry k" "k \<in> loaded_keys s" "holds_key (heap (lib s)) k pk"
    "of_nat (length sig) = exp_sig_size k" "valid pk (md k) (concat (script_chunks gos)) sig"
    "length sig + length (concat (script_chunks gos)) + 1 < unat MAX_SCRIPT_SIZE"
  shows "\<exists>out. gen_sig_main gos = Inr (Some 0, out, []) \<and>
    (conn_data (conns (res s) ! i) @ delivered i (evs @ [(event, os)]) = out \<longrightarrow>
     (\<exists>t s' script es. handle_events ssl evs s = Inr (Continue, t) \<and> event_loop ssl (map Inr batches) s = Inr (Continue, s') \<and>
        (all_written (exec_answers os) \<longrightarrow> fed es = script \<and> (\<exists>p. Reaped p \<in> set es)) \<and>
        trace s' = trace t @ [Ran script (script_n (res t) + 1) es, CloseFd (fd (conns (res s) ! i))] \<and>
        (\<exists>k'\<in>loaded_keys s. signed_input valid (heap (lib s)) out k' script)))"
  unfolding gen_sig_main_writes [OF assms(1)]
  using delivered_script_is_run [OF assms(2-17) _ assms(20,18,19)] by blast

definition sum_gen :: gen_os where
  "sum_gen = \<lparr>gen_argv = [''gen_sig'', ''key'', ''script''], key_opens = True, key_parses = True, ctx_created = True,
     sign_init = (\<lambda>_. 1), script_opens = True, script_chunks = [[1], [2]], sign_key = (\<lambda>_. Some (replicate 64 7)),
     stdout_answers = [64, 1, 2]\<rparr>"

lemma server_runs_what_gen_sig_writes_witness:
  "\<exists>out s' script es. gen_sig_main sum_gen = Inr (Some 0, out, []) \<and>
    event_loop sum_ssl [Inr [(refused, no_os)], Inr [(hangup, hangup_os)]] part_server = Inr (Continue, s') \<and> fed es = script \<and>
    trace s' = [Perror ''Failed to accept a TCP connection'', Ran script 1 es, CloseFd 9] \<and>
    signed_input sum_valid (sum_heap ed_lib) out ed_key script"
proof -
  let ?t = "emit [Perror ''Failed to accept a TCP connection''] part_server"
  have g: "gen_runs sum_gen (replicate 64 7)"
    by (auto simp: gen_runs_def sum_gen_def CHUNK_def PTRDIFF_MAX_def intro!: exI [of _ "[2]"])
  have l: "loaded_keys part_server = {ed_key}" "lib part_server = ed_lib"
    by (simp_all add: loaded_keys_def part_server_def sum_server_def)
  have s: "trace part_server = []" "fd (conns (res part_server) ! 0) = 9" "script_n (res part_server) = 0"
    "conns_total (res part_server) = 1"
    by (simp_all add: part_server_def sum_server_def sum_conn_def zero_resources_def)
  have d: "conn_data (conns (res part_server) ! 0) @ delivered 0 ([(refused, no_os)] @ [(hangup, hangup_os)]) =
      replicate 64 7 @ 10 # sum_script"
    by (simp add: part_server_def sum_server_def sum_conn_def conn_data_def delivered_def refused_def hangup_def hangup_os_def
        sum_input_def sum_script_def MAX_INT32_def)
  have c: "concat (script_chunks sum_gen) = sum_script" by (simp add: sum_gen_def sum_script_def)
  have h: "handle_event sum_ssl refused no_os part_server = Inr (Continue, ?t)"
    by (simp add: handle_event_def refused_def no_os_def accept_conn_def evict_def s(4))
  have v: "event_valid (refused, no_os) part_server" by (simp add: event_valid_def refused_def accept_ok_def no_os_def)
  have v': "event_valid (hangup, hangup_os) ?t" using part_server_ok(2) by (simp add: event_valid_def)
  have ev: "events_valid sum_ssl ([(refused, no_os)] @ [(hangup, hangup_os)]) part_server"
    using v v' h by (simp split: sum.split verdict.split prod.split)
  have b: "concat [[(refused, no_os)], [(hangup, hangup_os)]] = [(refused, no_os)] @ [(hangup, hangup_os)]" by simp
  have o: "gen_sig_main sum_gen = Inr (Some 0, replicate 64 7 @ 10 # sum_script, [])"
    using gen_sig_main_writes [OF g] by (simp only: c)
  have times: "batch_times ([(refused, no_os)] @ [(hangup, hangup_os)]) = {50}"
    by (simp add: batch_times_def hangup_os_def no_os_def)
  have x: "\<forall>e\<in>set [(refused, no_os)]. outlived 0 e" by (simp add: outlived_def refused_def MAX_INT32_def)
  have last: "data_fd hangup = int 0" "events hangup AND EPOLLIN > 0" "events hangup AND (EPOLLRDHUP OR EPOLLHUP) > 0"
    "recv_errno hangup_os = EAGAIN"
    by (simp_all add: hangup_def hangup_os_def no_os_def EPOLLIN_def EPOLLRDHUP_def EPOLLHUP_def)
  have k: "\<forall>k\<in>loaded_keys part_server. \<forall>now\<in>batch_times ([(refused, no_os)] @ [(hangup, hangup_os)]). now \<le> expiry k"
    "ed_key \<in> loaded_keys part_server" "holds_key (sum_heap (lib part_server)) ed_key ed_public"
    unfolding l times using ed_key_holds by (simp_all add: ed_key_def)
  have n: "0 < MAX_CONCURRENCY" "fd (conns (res part_server) ! 0) > 0"
    "unat (conns_total (res part_server)) + accepts [(refused, no_os)] \<le> MAX_CONCURRENCY"
    by (simp_all add: s accepts_def)
  have sz: "of_nat (length (replicate 64 (7 :: byte))) = exp_sig_size ed_key"
    "sum_valid ed_public (md ed_key) (concat (script_chunks sum_gen)) (replicate 64 7)"
    "length (replicate 64 (7 :: byte)) + length (concat (script_chunks sum_gen)) + 1 < unat MAX_SCRIPT_SIZE"
    using sum_input_valid by (simp_all add: c ed_key_def sum_script_def MAX_SCRIPT_SIZE_def)
  note server = server_runs_what_gen_sig_writes [OF g sum_ssl_contents sum_ssl_accepts part_server_ok(1) n(1,2) b x ev n(3) last k sz] d o h
  have "all_written (exec_answers hangup_os)" using echo_all_written by (simp add: hangup_os_def)
  with server show ?thesis by (auto simp: l s)
qed

text \<open>C9 With an expired key behind a valid one, a connection too short for a signature of the valid key
  ends the loop with the verdict that all keys have expired, which closes the server: the bound of the
  loop is the number of keys before the removal, so the removed key is looked at again.\<close>
theorem expired_key_hides_valid_keys:
  assumes "now \<le> expiry a" "expiry b < now" "n < exp_sig_size a + 1"
  shows "auth_loop ssl now raw n 2 0 [a, b] 2 w = Inr (All_Expired, [a, b], 1, w)"
  by (rule auth_loop_revisits [OF assms])

lemma expired_key_hides_valid_keys_witness:
  "auth_loop sum_ssl 50 sum_input 10 2 0 [ed_key, old_key] 2 two_lib = Inr (All_Expired, [ed_key, old_key], 1, two_lib)"
  by (rule expired_key_hides_valid_keys) (simp_all add: ed_key_def old_key_def)

section \<open>Certificates\<close>

text \<open>C10 \<open>parse_x509\<close> accepts exactly the certificates: a buffer is accepted if and only if it is the
  encoding of a certificate whose names have no empty relative name, whose dates are read as dates of the calendar from
  the epoch on (\<open>date_ok\<close>), and that has at most 64 extensions with distinct identifiers, every supported one with a legal value
  and criticality and no other one critical. A \<open>UTCTime\<close> is read as the date it encodes, a \<open>GeneralizedTime\<close> as the one
  1900 years later: 29 February 2400 is refused, because the year 4300 has no such day, and the digits
  \<open>21000229000000Z\<close> are accepted, which are not a date.\<close>
theorem parse_x509_accepts_certificates:
  assumes "valid_end raw sz"
  shows "(\<exists>g. parse_x509 raw sz flds = Inr g) \<longleftrightarrow>
    (\<exists>c. certificate_ok c \<and> slice raw 0 sz = certificate_bytes c)"
  using parse_x509_is_certificate [OF assms] parse_x509_accepts [OF assms] by metis

lemma sum_certificate_end:
  "valid_end (certificate_bytes sum_certificate) 226"
  "slice (certificate_bytes sum_certificate) 0 226 = certificate_bytes sum_certificate"
  using file_valid_end [OF sum_file_ok] by (simp_all add: sum_file_def)

lemma parse_x509_accepts_certificates_witness:
  "\<exists>g. parse_x509 (certificate_bytes sum_certificate) 226 zero_fields = Inr g"
  using parse_x509_accepts_certificates [OF sum_certificate_end(1)] sum_certificate_end(2) sum_certificate_ok by blast

text \<open>C11 The encoding of a certificate parses, and the fields describe the certificate: the ranges are
  those of the signed part, the serial number, the algorithms, the key and the signature, the times are
  the seconds of its dates as the code reads them (\<open>secs_read\<close>: those of the date for a \<open>UTCTime\<close>, those of the date
  1900 years later for a \<open>GeneralizedTime\<close>), and the extension fields are what its extensions say.\<close>
theorem parse_x509_describes_the_certificate:
  assumes "valid_end raw sz" "slice raw 0 sz = certificate_bytes c" "certificate_ok c"
  shows "\<exists>g. parse_x509 raw sz flds = Inr g \<and> describes raw c g"
  using parse_x509_accepts [OF assms] by metis

lemma parse_x509_describes_the_certificate_witness:
  "\<exists>g. parse_x509 (certificate_bytes sum_certificate) 226 zero_fields = Inr g \<and>
     describes (certificate_bytes sum_certificate) sum_certificate g"
  by (rule parse_x509_describes_the_certificate [OF sum_certificate_end sum_certificate_ok])

text \<open>C12 \<open>accept_cert\<close> fills in a key if and only if the buffer is a certificate that gives it: the
  certificate may sign code now, by its dates as they are read, the key is made by OpenSSL from the bytes of the certificate's key alone,
  and OpenSSL verifies the certificate's signature over its signed part with that key.\<close>
theorem accept_cert_gives_the_key_of_a_certificate:
  assumes "valid_end raw sz"
  shows "accept_cert ssl raw sz now path k0 w = Inr (True, k, w', out) \<longleftrightarrow>
    out = [] \<and> (\<exists>c. certificate_ok c \<and> slice raw 0 sz = certificate_bytes c \<and> gives_key ssl c now k0 w k w')"
  by (rule accept_cert_iff [OF assms])

lemma accept_cert_gives_the_key_of_a_certificate_witness:
  "accept_cert sum_ssl (certificate_bytes sum_certificate) 226 50 ''cert'' null_key [] = Inr (True, sum_key, run_lib, [])"
  using sum_certificate_end(2) sum_certificate_ok sum_gives_key
  by (subst accept_cert_gives_the_key_of_a_certificate [OF sum_certificate_end(1)]) auto

text \<open>C13 What \<open>parse_extensions\<close> accepts are no extensions or a sequence of legal ones, and it refines
  their meaning: the extension fields are the composition of the effects of the single values, in order,
  on the defaults; nothing else changes.\<close>
theorem extensions_refine_their_values:
  assumes "cursor raw idx pe bs" "parse_extensions raw idx pe f = Inr (i', g)"
  shows "\<exists>es rest. bs = extensions_bytes es @ rest \<and> cursor raw i' pe rest \<and> extensions_ok (listed es) \<and>
    extn_view raw g = fold extension_info (listed es) no_info \<and> same_core f g"
  using parse_extensions_sound [OF assms] unfolding extensions_info_def by metis

definition sum_extensions :: "byte list" where
  "sum_extensions = extensions_bytes (c_extns sum_certificate)"

lemma sum_extensions_cursor: "cursor sum_extensions 0 58 (extensions_bytes (c_extns sum_certificate) @ [])"
proof -
  have "length sum_extensions = 58"
    by (simp add: sum_extensions_def sum_certificate_def extensions_bytes_def unsigned_certificate_def length_der_tlv
        extn_oids code_signing_def bool_bytes_def)
  then show ?thesis
    by (simp add: cursor_def valid_end_def object_size_def PTRDIFF_MAX_def slice_def sum_extensions_def)
qed

lemma extensions_refine_their_values_witness:
  "\<exists>i' g es rest. parse_extensions sum_extensions 0 58 zero_fields = Inr (i', g) \<and>
     sum_extensions = extensions_bytes es @ rest \<and> extn_view sum_extensions g = fold extension_info (listed es) no_info"
proof -
  have "extensions_ok (listed (c_extns sum_certificate))"
    using sum_certificate_ok by (simp add: certificate_ok_def)
  from parse_extensions_complete [OF sum_extensions_cursor _ this, of zero_fields] obtain i' g where
    p: "parse_extensions sum_extensions 0 58 zero_fields = Inr (i', g)" by (metis absent_simps(1))
  have c: "cursor sum_extensions 0 58 sum_extensions" using sum_extensions_cursor by (simp add: sum_extensions_def)
  from extensions_refine_their_values [OF c p] p show ?thesis by blast
qed

text \<open>C14 The validity of a certificate is checked by the dates as they are read (\<open>as_read\<close>): a \<open>UTCTime\<close> as it is
  written, a \<open>GeneralizedTime\<close> with 1900 years added. \<open>EXPIRED\<close> is reported exactly when the last date so read is before
  the current one in the order of the calendar, and \<open>NOT_BEFORE\<close> exactly when it is not and the first date so read is
  after the current one. So a certificate that ends in 2050 or later is trusted 1900 years longer than it says,
  and one that starts then is refused for as long.\<close>
theorem validity_is_checked_by_date:
  assumes "describes raw c f" "certificate_ok c"
  shows "(check_self_sign raw f now = Inr EXPIRED \<longleftrightarrow> as_read (c_until c) < gmtime now) \<and>
    (check_self_sign raw f now = Inr NOT_BEFORE \<longleftrightarrow> gmtime now \<le> as_read (c_until c) \<and> gmtime now < as_read (c_from c))"
  using check_self_sign_dates [OF assms] by blast

lemma validity_is_checked_by_date_witness:
  "\<exists>f. parse_x509 (certificate_bytes sum_certificate) 226 zero_fields = Inr f \<and>
     check_self_sign (certificate_bytes sum_certificate) f 2000000000 = Inr EXPIRED"
proof -
  from parse_x509_accepts [OF sum_certificate_end sum_certificate_ok] obtain f where
    f: "parse_x509 (certificate_bytes sum_certificate) 226 zero_fields = Inr f"
      "describes (certificate_bytes sum_certificate) sum_certificate f" .
  have u: "as_read (c_until sum_certificate) = year_2020" by (simp add: sum_certificate_def unsigned_certificate_def)
  have y: "valid_tm year_2020" "timegm_secs year_2020 < 2000000000"
    by (simp_all add: valid_tm_def year_2020_def month_length_def days_before_month_def timegm_secs_def
        days_before_year_def is_leap_def)
  have "year_2020 < gmtime 2000000000"
    using timegm_less_iff [OF y(1) gmtime_valid, of 2000000000] y(2) by (simp add: timegm_gmtime)
  with validity_is_checked_by_date [OF f(2) sum_certificate_ok] f(1) u show ?thesis by auto
qed

section \<open>Termination\<close>

text \<open>C15 The loop over the keys ends: on its signed 64-bit counter, which an expired key moves back before the
  increment, to -1 at the start of the array, it returns what the total \<open>auth_loop\<close> does, on any keys, any
  buffer and any library.\<close>
theorem key_loop_terminates:
  assumes "unat ksz < 2 ^ 63"
  shows "for_each_key ssl now raw n ksz 0 (ks, ksz, w) =
    Some (map_sum id (\<lambda>(r, ks, m, w). (r, ks, of_nat m, w)) (auth_loop ssl now raw n (unat ksz) 0 ks (unat ksz) w))"
  using for_each_key_auth_loop [OF assms, of 0] by simp

lemma key_loop_terminates_witness:
  "for_each_key sum_ssl 50 sum_input 10 2 0 ([ed_key, old_key], 2, two_lib) =
    Some (Inr (All_Expired, [ed_key, old_key], 1, two_lib))"
proof -
  have "auth_loop sum_ssl 50 sum_input 10 2 0 [ed_key, old_key] 2 two_lib = Inr (All_Expired, [ed_key, old_key], 1, two_lib)"
    by (rule auth_loop_revisits) (simp_all add: ed_key_def old_key_def)
  then show ?thesis by (subst key_loop_terminates) simp_all
qed

text \<open>C16 The loops of the parser end on every buffer: those over attributes, relative names and key purposes after
  at most one round for every byte they have left and a last one that ends in a status, the loop over the
  extensions after at most one round for every entry of its table and such a last one.\<close>
theorem parser_loops_terminate:
  "rounds (Suc (unat e - unat (fst p))) (\<lambda>p. snd p < e) (attribute_step raw e) p = Some (attribute_loop raw e p) \<and>
   rounds (Suc (unat e - unat i)) (\<lambda>i. i < e) (relative_name_step raw e) i = Some (relative_name_loop raw e i) \<and>
   rounds (Suc (unat e - unat (fst q))) (\<lambda>q. fst q < e) (key_purpose_step raw e) q = Some (key_purpose_loop raw e q) \<and>
   rounds (Suc MAX_EXTN) (\<lambda>s. fst s < e) (extension_step raw e) (i, [], f) = Some (extension_loop raw e (i, [], f))"
  using attributes.loop_rounds relative_names.loop_rounds purposes.loop_rounds extension_loop_rounds [of "[]" e raw i f]
  by simp

section \<open>The certificate parser\<close>



text \<open>C18 \<open>parse_any\<close> accepts exactly the headers of DER: it returns the indices \<open>i'\<close> and \<open>e\<close> and the
  identifier \<open>ident\<close> if and only if the bytes from \<open>idx\<close> to \<open>i'\<close> are that identifier and the
  shortest encoding of the length of the contents, which lie within the parent.\<close>
theorem parse_any_accepts_der_headers:
  assumes "valid_end raw parent_end"
  shows "parse_any raw idx parent_end = Inr (i', e, ident) \<longleftrightarrow>
     idx \<le> i' \<and> i' \<le> e \<and> e \<le> parent_end \<and>
     slice raw idx i' = ident # der_length (unat e - unat i')"
  by (rule parse_any_iff [OF assms])

lemma parse_any_accepts_der_headers_witness:
  "parse_any [0x30, 0x02, 0x05, 0x00] 0 4 = Inr (2, 4, 0x30)"
  by (rule parse_any_accepts_der_headers [THEN iffD2])
    (simp_all add: valid_end_def object_size_def PTRDIFF_MAX_def slice_def der_length_def)

text \<open>C19 A time that is accepted is a \<open>UTCTime\<close> or a \<open>GeneralizedTime\<close>, in seconds and with the final \<open>Z\<close>, that is
  read as a date of the calendar from the epoch on, and the result is the number of seconds from the epoch to that
  date. A \<open>UTCTime\<close> is read as the date it encodes, with a year from 1950 to 2049, a \<open>GeneralizedTime\<close> as the date
  1900 years later than its four digits say, so what it encodes need not be a date: \<open>21000229000000Z\<close> is
  accepted.\<close>
theorem parse_time_accepts_dates:
  assumes "valid_end raw parent_end" "parse_time raw idx parent_end = Inr (i', ts)"
  shows "idx < i' \<and> i' \<le> parent_end \<and>
     (\<exists>d. slice raw idx i' = date_bytes d \<and> date_written d \<and>
        (let t = if snd d then (fst d)\<lparr>tm_year := tm_year (fst d) + 1900\<rparr> else fst d in
         valid_tm t \<and> ts = timegm_secs t \<and> 0 \<le> ts))"
  using parse_time_sound [OF assms] by (fastforce simp: date_ok_def secs_read_def as_read_def split: prod.splits)

text \<open>C20 Every date from the epoch on that a certificate can encode (a \<open>UTCTime\<close> from 1950 to 2049, a
  \<open>GeneralizedTime\<close> up to the year 9999) is accepted in its encoding, with what follows left to read, except a 29 February
  in a \<open>GeneralizedTime\<close> of a year after which the year 1900 years later is no leap year, which is refused as an
  invalid date. What is returned are the seconds to the date, and for a \<open>GeneralizedTime\<close> those to the date 1900
  years later.\<close>
theorem parse_time_accepts_every_date:
  assumes "cursor raw idx parent_end (date_bytes d @ rest)" "date_written d" "valid_tm (fst d)" "0 \<le> timegm_secs (fst d)"
  shows "if snd d \<and> tm_mon (fst d) = 1 \<and> tm_mday (fst d) = 29 \<and> \<not> is_leap (tm_year (fst d) + 1900 + 1900)
    then parse_time raw idx parent_end = Inl (Code INVALID_VALIDITY_TIME)
    else \<exists>i'. parse_time raw idx parent_end =
          Inr (i', timegm_secs (if snd d then (fst d)\<lparr>tm_year := tm_year (fst d) + 1900\<rparr> else fst d)) \<and>
        cursor raw i' parent_end rest"
proof -
  have l: "leap_day_lost d \<longleftrightarrow>
      snd d \<and> tm_mon (fst d) = 1 \<and> tm_mday (fst d) = 29 \<and> \<not> is_leap (tm_year (fst d) + 1900 + 1900)"
    "secs_read d = timegm_secs (if snd d then (fst d)\<lparr>tm_year := tm_year (fst d) + 1900\<rparr> else fst d)"
    by (cases d; simp add: leap_day_lost_def secs_read_def as_read_def)+
  obtain i' where "parse_time raw idx parent_end = (if date_ok d then Inr (i', secs_read d) else Inl (Code INVALID_VALIDITY_TIME))"
    "cursor raw i' parent_end rest" by (rule parse_time_written [OF assms(1,2) two_digit_valid [OF assms(3)]])
  then show ?thesis unfolding calendar_date_ok [OF assms(2-4)] l(1) l(2) by auto
qed

text \<open>What is no date of the calendar and is read, and a date that is not.\<close>

lemma misread_leap_days:
  "let d = (epoch\<lparr>tm_year := 200, tm_mon := 1, tm_mday := 29\<rparr>, True) in \<not> valid_tm (fst d) \<and> date_ok d"
  "let d = (epoch\<lparr>tm_year := 500, tm_mon := 1, tm_mday := 29\<rparr>, True) in valid_tm (fst d) \<and> \<not> date_ok d"
  by (simp_all add: epoch_def date_ok_def date_written_def secs_read_def valid_tm_def month_length_def
      days_before_month_def is_leap_def timegm_secs_def days_before_year_def)

lemma epoch_cursor: "cursor epoch_bytes 0 15 (epoch_bytes @ [])"
  by (simp add: cursor_def valid_end_def object_size_def PTRDIFF_MAX_def slice_def epoch_bytes_def)

lemma parse_time_accepts_every_date_witness:
  "\<exists>i'. parse_time epoch_bytes 0 15 = Inr (i', 0) \<and> cursor epoch_bytes i' 15 []"
proof -
  have "cursor epoch_bytes 0 15 (date_bytes (epoch, False) @ [])" using epoch_cursor epoch_time(3) by simp
  from parse_time_accepts_every_date [OF this] epoch_time(1,2,4) show ?thesis by (simp add: date_ok_def)
qed

lemma parse_epoch: "parse_time epoch_bytes 0 15 = Inr (15, 0)"
proof -
  obtain i' where i: "parse_time epoch_bytes 0 15 = Inr (i', 0)" "cursor epoch_bytes i' 15 []"
    using parse_time_complete [OF epoch_cursor [unfolded epoch_time(3)] epoch_time(4)] epoch_time(2,3)
    by (auto simp: secs_read_def)
  from cursor_length [OF i(2)] have "i' = 15" by (simp add: word_unat_eq_iff)
  with i show ?thesis by simp
qed

lemma parse_time_accepts_dates_witness:
  "\<exists>d. slice epoch_bytes 0 15 = date_bytes d \<and> date_written d \<and>
     timegm_secs (if snd d then (fst d)\<lparr>tm_year := tm_year (fst d) + 1900\<rparr> else fst d) = 0"
proof -
  have "valid_end epoch_bytes 15" by (simp add: valid_end_def object_size_def PTRDIFF_MAX_def epoch_bytes_def)
  from parse_time_accepts_dates [OF this parse_epoch] obtain d where d: "slice epoch_bytes 0 15 = date_bytes d"
    "date_written d" "0 = timegm_secs (if snd d then (fst d)\<lparr>tm_year := tm_year (fst d) + 1900\<rparr> else fst d)"
    unfolding Let_def by blast
  show ?thesis by (intro exI [of _ d] conjI) (rule d(1), rule d(2), rule d(3) [symmetric])
qed

text \<open>C21 A \<open>GeneralizedTime\<close> is read 1900 years late: its four digits are stored in \<open>tm_year\<close>, which
  counts from 1900. The first date that certificates encode this way, 1 January 2050 (2524608000
  seconds after the epoch), is read as 1 January 3950.\<close>
theorem generalized_time_is_1900_years_late:
  assumes "cursor raw idx parent_end (date_2050 @ rest)"
  shows "\<exists>i'. parse_time raw idx parent_end = Inr (i', 62482752000)"
  using parse_time_complete [OF assms [unfolded date_2050_element(3)] date_2050_element(4)] date_2050_element(5) by auto

lemma generalized_time_is_1900_years_late_witness:
  "\<exists>i'. parse_time date_2050 0 17 = Inr (i', 62482752000)"
  by (rule generalized_time_is_1900_years_late [of _ _ _ "[]"])
   (simp add: cursor_def valid_end_def object_size_def PTRDIFF_MAX_def slice_def date_2050_def)

text \<open>C22 Either there are no extensions and the fields get their defaults, or the bytes up to the index
  returned are a run of at most 64 extensions with distinct object identifiers, every critical one
  supported and with the criticality its table entry allows, and the fields are those that the parsers
  of the supported ones leave, in the order of the certificate; nothing before the extensions changes.\<close>
theorem extensions_are_checked:
  assumes "valid_end raw pe" "idx \<le> pe"
  shows "safe PARSE_OK (parse_extensions raw idx pe f) (\<lambda>(i', g). i' \<le> pe \<and>
     (i' = idx \<and> g = assign_default_extensions f \<or>
      (\<exists>start hs. idx < start \<and> start \<le> i' \<and> extensions_of raw start i' f hs g)))"
  by (rule parse_extensions_safe [OF assms])

lemma extensions_are_checked_witness:
  "safe PARSE_OK (parse_extensions [0xa3, 2, 0x30, 0] 0 4 zero_fields) (\<lambda>(i', g). i' \<le> 4 \<and>
     (i' = 0 \<and> g = assign_default_extensions zero_fields \<or>
      (\<exists>start hs. 0 < start \<and> start \<le> i' \<and> extensions_of [0xa3, 2, 0x30, 0] start i' zero_fields hs g)))"
  by (rule extensions_are_checked) (simp_all add: valid_end_def object_size_def PTRDIFF_MAX_def)

text \<open>C23 \<open>parse_name\<close> accepts exactly the encodings of names: sequences of relative names, each a set of
  attributes that is not empty, each attribute an object identifier and one value.\<close>
theorem parse_name_accepts_names:
  assumes "cursor raw idx pe bs"
  shows "parse_name raw idx pe = Inr i' \<longleftrightarrow>
    (\<exists>n rest. name_ok n \<and> bs = name_bytes n @ rest \<and> cursor raw i' pe rest)"
proof
  assume "parse_name raw idx pe = Inr i'"
  from parse_name_sound [OF assms this] show "\<exists>n rest. name_ok n \<and> bs = name_bytes n @ rest \<and> cursor raw i' pe rest"
    by metis
next
  assume "\<exists>n rest. name_ok n \<and> bs = name_bytes n @ rest \<and> cursor raw i' pe rest"
  then obtain n rest where n: "name_ok n" "bs = name_bytes n @ rest" "cursor raw i' pe rest" by blast
  from parse_name_complete [OF assms [unfolded n(2)] n(1)] obtain j where
    "parse_name raw idx pe = Inr j" "cursor raw j pe rest" .
  with cursor_start_unique [OF _ n(3)] show "parse_name raw idx pe = Inr i'" by simp
qed

lemma parse_name_accepts_names_witness: "parse_name [0x30, 0] 0 2 = Inr 2"
proof -
  have c: "cursor [0x30, 0] 0 2 [0x30, 0]"
    by (simp add: cursor_def valid_end_def object_size_def PTRDIFF_MAX_def slice_def)
  have "name_ok [] \<and> [0x30, 0] = name_bytes [] @ [] \<and> cursor [0x30, 0] 2 2 []"
    by (simp add: name_ok_def name_bytes_def der_tlv_def der_length_def der_tags cursor_def valid_end_def
        object_size_def PTRDIFF_MAX_def)
  then show ?thesis unfolding parse_name_accepts_names [OF c] by blast
qed

text \<open>C24 The second octet of a key usage is shifted by one bit only, so its bits set the flags of the
  first: every bit string of two octets whose number of unused bits is right sets the union.\<close>
theorem key_usage_octets_overlap:
  assumes "parse_data_element raw DER_BITSTRING idx e = Inr (i, e)" "cursor raw i e [unused, a, b]"
    "unat unused < 8" "bit b (unat unused)" "take_bit (unat unused) b = 0"
  shows "parse_key_usage raw idx e flds = Inr (flds\<lparr>has_key_usage := True,
    key_usage_flags := key_usage_flags flds OR ucast a OR push_bit 1 (ucast b)\<rparr>)"
  using parse_key_usage_content [OF assms(1,2), of flds] assms(3-5) by (simp add: or.assoc)

lemma key_usage_octets_overlap_witness:
  "\<exists>flags. parse_key_usage [3, 3, 1, 0, 0x42] 0 5 zero_fields =
     Inr (zero_fields\<lparr>has_key_usage := True, key_usage_flags := flags\<rparr>) \<and>
   flags = KEY_USAGE_FLAG_SIGN OR KEY_USAGE_FLAG_KEY_CERT_SIGN"
proof -
  let ?raw = "[3, 3, 1, 0, 0x42] :: byte list"
  have c: "cursor ?raw 0 5 (der_tlv DER_BITSTRING [1, 0, 0x42])" "cursor ?raw 2 5 [1, 0, 0x42]" "cursor ?raw 5 5 []"
    by (simp_all add: cursor_def valid_end_def object_size_def PTRDIFF_MAX_def slice_def der_tlv_def der_length_def der_tags)
  have p: "parse_data_element ?raw DER_BITSTRING 0 5 = Inr (2, 5)"
    unfolding parse_data_element_at [OF c(1)] using c(2,3) by (intro exI [of _ "[1, 0, 0x42]"] exI [of _ "[]"]) simp
  show ?thesis
    using key_usage_octets_overlap [OF p c(2), of zero_fields]
    by (simp add: zero_fields_def KEY_USAGE_FLAG_SIGN_def KEY_USAGE_FLAG_KEY_CERT_SIGN_def)
qed

text \<open>C25 \<open>extract_self_sign_for_code_sign\<close> on the fields of a parsed certificate does not fault, provided
  that the key it fills in (\<open>k\<close>) holds a null pointer when it comes to making an RSA key (\<open>slot_fits\<close>; the program
  passes what \<open>malloc\<close> returned, and of OpenSSL with another pointer nothing is known). A key it returns belongs to a certificate that passes every check, OpenSSL has verified the certificate's
  signature over its signed bytes with that key, and the key owns two new objects of the library; when
  it fails, at most one object stays allocated.\<close>
theorem self_signed_key_is_sound:
  assumes "openssl_ok ssl live" "valid_end raw sz" "fields_ok raw sz f" "self_sign_ok raw f now \<longrightarrow> slot_fits raw f k"
  shows "safe () (extract_self_sign_for_code_sign ssl raw f now k w) (\<lambda>(code, k', w').
     if code = CERT_OK
     then self_sign_ok raw f now \<and> signed_by ssl raw f k' \<and> key_ok live w' k' \<and> expiry k' = not_after f \<and>
       key_objs k' \<inter> live w = {} \<and> live w' = live w \<union> key_objs k'
     else live w' = live w \<or> (\<exists>a. a \<notin> live w \<and> live w' = insert a (live w)))"
  by (rule safe_mono [OF extract_self_sign_safe [OF assms(1-3)]]) (use assms(4) in \<open>auto simp: self_sign_post_def\<close>)

lemma self_signed_key_is_sound_witness:
  "safe () (extract_self_sign_for_code_sign sum_ssl sum_cert sum_fields 50 null_key []) (\<lambda>(code, k', w').
     if code = CERT_OK
     then self_sign_ok sum_cert sum_fields 50 \<and> signed_by sum_ssl sum_cert sum_fields k' \<and>
       key_ok (live_in sum_heap) w' k' \<and> expiry k' = not_after sum_fields \<and> key_objs k' \<inter> live_in sum_heap [] = {} \<and>
       live_in sum_heap w' = live_in sum_heap [] \<union> key_objs k'
     else live_in sum_heap w' = live_in sum_heap [] \<or>
       (\<exists>a. a \<notin> live_in sum_heap [] \<and> live_in sum_heap w' = insert a (live_in sum_heap [])))"
  by (rule self_signed_key_is_sound [OF sum_ssl_ok sum_cert_end sum_fields_ok impI [OF null_fits]])

text \<open>C26 Whatever \<open>extract_self_sign_for_code_sign\<close> answers, provided that it makes no RSA key in place of a pointer that
  is not null (\<open>slot_fits\<close>), the objects of the library that were there hold
  what they held. When it succeeds on the fields of a certificate, the key it returns holds the public key in that
  certificate, with the digest of its signature algorithm, and the certificate's signature over its signed part is
  valid for it.\<close>
theorem self_signed_key_holds_the_public_key:
  assumes "openssl_contents ssl heap valid" "valid_end raw sz" "fields_ok raw sz f" "self_sign_ok raw f now \<longrightarrow> slot_fits raw f k0"
  shows "safe () (extract_self_sign_for_code_sign ssl raw f now k0 w) (\<lambda>(code, k, w').
    heap w \<subseteq>\<^sub>m heap w' \<and> (\<forall>c. code = CERT_OK \<longrightarrow> describes raw c f \<longrightarrow>
      (\<exists>m. holds_key (heap w') k m \<and> certificate_key c m (md k) \<and> valid m (md k) (tbs_bytes c) (c_signature c))))"
  by (rule safe_mono [OF extract_self_sign_safe [OF openssl_contentsD(1) [OF assms(1)] assms(2,3)]])
    (use assms(4) extract_self_sign_heap [OF assms(1-3)] in blast)+

lemma self_signed_key_holds_the_public_key_witness:
  "\<exists>m. holds_key (sum_heap run_lib) sum_key m \<and> certificate_key sum_certificate m None \<and>
     sum_valid m None (tbs_bytes sum_certificate) (c_signature sum_certificate)"
proof -
  from parse_x509_accepts [OF sum_certificate_end sum_certificate_ok] obtain f where
    f: "parse_x509 (certificate_bytes sum_certificate) 226 zero_fields = Inr f"
      "describes (certificate_bytes sum_certificate) sum_certificate f" .
  note p = safe_InrD [OF parse_x509_safe [OF sum_certificate_end(1)] f(1)]
  have r: "extract_self_sign_for_code_sign sum_ssl (certificate_bytes sum_certificate) f 50 null_key [] = Inr (CERT_OK, sum_key, run_lib)"
    by (rule iffD2 [OF extract_self_sign_iff [OF sum_certificate_end(1) p f(2)] sum_gives_key])
  from safe_InrD [OF self_signed_key_holds_the_public_key [OF sum_ssl_contents sum_certificate_end(1) p impI [OF null_fits]] r] f(2)
  show ?thesis by (simp add: sum_key_def)
qed

text \<open>C27 When \<open>ed_extract\<close> fails after it has filled in the key object, because the digest context of the Ed25519 or Ed448
  key cannot be created, it leaves that object allocated: the slot points to an object which is new, of which the
  library's objects are the ones before and that one, and the slot holds no context.\<close>
theorem failed_digest_context_leaks_the_key:
  assumes "openssl_ok ssl live" "valid_end raw sz" "fields_ok raw sz f"
    "ed_extract ssl raw f kt k w = Inr (code, k', w')" "code \<noteq> CERT_OK" "pkey k' \<noteq> pkey k"
  shows "\<exists>a. pkey k' = Addr a \<and> a \<notin> live w \<and> live w' = insert a (live w) \<and> md_ctx k' = Null"
proof -
  note r = fields_ok_ranges [OF assms(3,2)]
  have rb: "rd_bytes raw (pub_key_start f) (pub_key_end f - pub_key_start f) =
      (Inr (slice raw (pub_key_start f) (pub_key_end f)) :: byte list run)"
    by (rule rd_bytes_slice [OF r(13,12)])
  let ?key = "slice raw (pub_key_start f) (pub_key_end f)"
  show ?thesis
  proof (rule allocates_cases [OF openssl_okD(1) [OF assms(1), of w kt ?key]])
    fix w1 assume "EVP_PKEY_new_raw_public_key ssl kt ?key w = (None, w1)"
    then show ?thesis using assms(4-6) rb
      by (auto simp: ed_extract_def certeq_slices [OF r(4,8,3,7)] split: if_splits)
  next
    fix p w1 assume p: "EVP_PKEY_new_raw_public_key ssl kt ?key w = (Some p, w1)" "p \<notin> live w"
      "live w1 = insert p (live w)"
    show ?thesis
      using assms(4-6) rb p openssl_okD(2) [OF assms(1), of w1]
      by (auto simp: ed_extract_def certeq_slices [OF r(4,8,3,7)] Let_def ptr_of_def allocates_def
          split: if_splits prod.splits option.splits)
  qed
qed

definition no_ctx_ssl :: "sum_lib OpenSSL" where
  "no_ctx_ssl = sum_ssl\<lparr>EVP_MD_CTX_new := (\<lambda>w. (None, w))\<rparr>"

lemma no_ctx_ssl_ok: "openssl_ok no_ctx_ssl (live_in sum_heap)"
  using sum_ssl_ok by (auto simp: openssl_ok_def no_ctx_ssl_def allocates_def)

definition zero_public :: public_key where "zero_public = Raw_Public_Key EVP_PKEY_ED25519 [0]"

lemma no_ctx_leaks:
  "ed_extract no_ctx_ssl sum_cert sum_fields EVP_PKEY_ED25519 null_key [] =
    Inr (INVALID_PUB_KEY, null_key\<lparr>pkey := Addr 1\<rparr>, [(1, Sum_Key zero_public)])"
  by (simp add: ed_extract_def no_ctx_ssl_def sum_ssl_def sum_new_def sum_fresh_def sum_cert_def sum_fields_def
      zero_fields_def certeq_def memeq_ranges_def rd_bytes_def object_size_def PTRDIFF_MAX_def ed25519_oid_def Let_def
      ptr_of_def null_key_def zero_public_def)

lemma failed_digest_context_leaks_the_key_witness:
  "\<exists>a. pkey (null_key\<lparr>pkey := Addr 1\<rparr>) = Addr a \<and> a \<notin> live_in sum_heap [] \<and>
     live_in sum_heap [(1, Sum_Key zero_public)] = insert a (live_in sum_heap []) \<and>
     md_ctx (null_key\<lparr>pkey := Addr 1\<rparr>) = Null"
  by (rule failed_digest_context_leaks_the_key [OF no_ctx_ssl_ok sum_cert_end sum_fields_ok no_ctx_leaks])
    (simp_all add: null_key_def)

text \<open>C28 The modulus and the exponent of an RSA key are the contents of the two integers of the sequence at
  the start of the key's bit string, and nothing else may be in that sequence; what follows the sequence is
  not looked at.\<close>
theorem rsa_integers_are_read:
  assumes "cursor raw (pub_key_start flds) (pub_key_end flds) key"
  shows "rsa_integers raw flds = Inr (ns, ne, es, ee) \<longleftrightarrow>
    (\<exists>n e rest. key = der_tlv DER_SEQUENCE (der_tlv DER_INTEGER n @ der_tlv DER_INTEGER e) @ rest \<and>
       cursor raw ns ne n \<and> cursor raw es ee e \<and> cursor raw ne ee (der_tlv DER_INTEGER e) \<and>
       cursor raw ee (pub_key_end flds) rest)"
  by (rule rsa_integers_iff [OF assms])

lemma rsa_integers_are_read_witness:
  "rsa_integers [0x30, 6, 2, 1, 5, 2, 1, 3, 99] (zero_fields\<lparr>pub_key_end := 9\<rparr>) = Inr (4, 5, 7, 8)"
proof -
  let ?raw = "[0x30, 6, 2, 1, 5, 2, 1, 3, 99] :: byte list" and ?f = "zero_fields\<lparr>pub_key_end := 9\<rparr>"
  have c: "cursor ?raw (pub_key_start ?f) (pub_key_end ?f) ?raw" "cursor ?raw 4 5 [5]" "cursor ?raw 7 8 [3]"
    "cursor ?raw 5 8 (der_tlv DER_INTEGER [3])" "cursor ?raw 8 (pub_key_end ?f) [99]"
    by (simp_all add: cursor_def valid_end_def object_size_def PTRDIFF_MAX_def slice_def der_tlv_def der_length_def
        der_tags zero_fields_def)
  have "?raw = der_tlv DER_SEQUENCE (der_tlv DER_INTEGER [5] @ der_tlv DER_INTEGER [3]) @ [99]"
    by (simp add: der_tlv_def der_length_def der_tags)
  then show ?thesis unfolding rsa_integers_are_read [OF c(1)] using c(2-5) by blast
qed

text \<open>C29 With all 128 connections in use the one that has been open for longest is closed.\<close>
theorem eviction_closes_the_oldest:
  assumes "conns_inv (res s)" "MAX_CONCURRENCY \<le> unat (conns_total (res s))"
  shows "\<exists>i < MAX_CONCURRENCY. evict s = free_conn i s \<and> fd (conns (res s) ! i) > 0 \<and>
    (\<forall>c\<in>set (conns (res s)). fd c > 0 \<longrightarrow> open_time (conns (res s) ! i) \<le> open_time c)"
  by (rule evict_oldest [OF assms]) blast

definition full_server :: "sum_lib server" where
  "full_server = \<lparr>res = zero_resources\<lparr>conns := replicate 128 sum_conn, conns_total := 128\<rparr>, lib = [], trace = []\<rparr>"

lemma full_server_conns: "conns_inv (res full_server)" "MAX_CONCURRENCY \<le> unat (conns_total (res full_server))"
  using sum_conn_inv(1) by (simp_all add: conns_inv_def full_server_def open_conns_def sum_conn_def)

lemma eviction_closes_the_oldest_witness:
  "\<exists>i < MAX_CONCURRENCY. evict full_server = free_conn i full_server \<and> fd (conns (res full_server) ! i) > 0 \<and>
    (\<forall>c\<in>set (conns (res full_server)). fd c > 0 \<longrightarrow> open_time (conns (res full_server) ! i) \<le> open_time c)"
  by (rule eviction_closes_the_oldest [OF full_server_conns])






text \<open>C31 The events the server aborts on, whatever its state: with the answers of the kernel as documented, an event
  faults exactly if \<open>epoll_ctl\<close> fails for a new connection (its descriptor is closed but not set to 0, which the
  assertion after the loop demands), if its index is negative or that of a connection which is not open, or if more is
  received than there was room for. Otherwise the server goes on, unless a \<open>write\<close> to \<open>bash\<close> never returns, which is not
  counted as a fault here and needs answers in which one does not.\<close>
theorem events_that_abort:
  assumes "openssl_ok ssl live" "server_inv live K s" "kernel_ok os"
  shows "((\<exists>f. f \<noteq> Fault Blocked \<and> handle_event ssl event os s = Inl f) \<longleftrightarrow> aborts_on event os s) \<and>
    (writes_ok (exec_answers os) \<longrightarrow> handle_event ssl event os s \<noteq> Inl (Fault Blocked))"
  using handle_event_fault_iff [OF assms] by blast

lemma events_that_abort_witness:
  "(\<exists>f. handle_event sum_ssl \<lparr>data_fd = 1, events = EPOLLIN\<rparr> no_os sum_server = Inl f) \<and>
   (\<exists>f. handle_event sum_ssl refused (no_os\<lparr>acc := \<lparr>accept_result = 12, add_result = - 1, clock_result = 7\<rparr>\<rparr>) sum_server = Inl f)"
proof
  note ok = openssl_contentsD(1) [OF sum_ssl_contents]
  have "aborts_on \<lparr>data_fd = 1, events = EPOLLIN\<rparr> no_os sum_server"
    by (simp add: aborts_on_def sum_server_def zero_conn_def MAX_INT32_def)
  with events_that_abort [OF ok sum_server_inv no_os_kernel]
  show "\<exists>f. handle_event sum_ssl \<lparr>data_fd = 1, events = EPOLLIN\<rparr> no_os sum_server = Inl f" by blast
  let ?os = "no_os\<lparr>acc := \<lparr>accept_result = 12, add_result = - 1, clock_result = 7\<rparr>\<rparr>"
  have "kernel_ok ?os" using no_os_kernel by (simp add: kernel_ok_def MAX_INT64_def)
  moreover have "aborts_on refused ?os sum_server" by (simp add: aborts_on_def refused_def)
  ultimately show "\<exists>f. handle_event sum_ssl refused ?os sum_server = Inl f"
    using events_that_abort [OF ok sum_server_inv] by blast
qed

text \<open>C32 The order within a batch does no harm while no connection is evicted: if every connection is reported once, each
  event is one that the server, alone in the state in which \<open>epoll_wait\<close> returned, would neither abort on nor block in
  (\<open>event_valid\<close>: it is of an open connection with room for what is received, \<open>epoll_ctl\<close> succeeds for an accepted one, and
  every \<open>write\<close> returns), and there was room for a connection to accept, the whole batch is handled without a fault, keeps the invariant, and runs only validly signed scripts. No event invalidates another one.\<close>
theorem reported_batch_is_survived:
  assumes "openssl_contents ssl heap valid" "server_inv (live_in heap) K s" "batch_ok evs s"
  shows "safe () (handle_events ssl evs s) (\<lambda>(v, s'). server_inv (live_in heap) K s' \<and>
    extends (signed_run valid K (batch_times evs) (heap (lib s))) s s')"
  by (rule batch_safe [OF assms])

lemma reported_batch_is_survived_witness:
  "safe () (handle_events sum_ssl [(refused, no_os), (hangup, no_os)] sum_server) (\<lambda>(v, s').
    server_inv (live_in sum_heap) {ed_key} s' \<and>
    extends (signed_run sum_valid {ed_key} {50} (sum_heap (lib sum_server))) sum_server s')"
proof -
  have "event_valid (refused, no_os) sum_server" by (simp add: event_valid_def refused_def accept_ok_def no_os_def)
  then have "batch_ok [(refused, no_os), (hangup, no_os)] sum_server"
    using hangup_valid by (simp add: batch_ok_def refused_def hangup_def MAX_INT32_def sum_server_def)
  from reported_batch_is_survived [OF sum_ssl_contents sum_server_inv this] show ?thesis
    by (simp add: batch_times_def no_os_def)
qed

text \<open>C33 When a connection is evicted the order does harm: the new connection takes its slot, so that the end of the
  evicted one, if it comes later in the same batch, is taken for the end of the new connection, which is closed before it
  has sent anything.\<close>
theorem evicted_connection_ends_the_new_one:
  assumes "openssl_ok ssl live" "server_inv live K s" "MAX_CONCURRENCY \<le> unat (conns_total (res s))"
    "data_fd e1 = MAX_INT32" "accept_ok (acc os1)" "0 < accept_result (acc os1)"
    "\<forall>i < MAX_CONCURRENCY. (\<forall>c\<in>set (conns (res s)). open_time (conns (res s) ! i) \<le> open_time c) \<longrightarrow> data_fd e2 = int i"
    "events e2 AND (EPOLLRDHUP OR EPOLLHUP) > 0" "recv_chunks os2 = []" "recv_errno os2 = EAGAIN"
    "\<forall>k\<in>loaded_keys s. time_result os2 \<le> expiry k"
  shows "\<exists>i s'. handle_events ssl [(e1, os1), (e2, os2)] s = Inr (Continue, s') \<and> data_fd e2 = int i \<and>
    trace s' = trace s @ [CloseFd (fd (conns (res s) ! i)), Watch (accept_result (acc os1)) (EPOLLIN OR EPOLLRDHUP) (int i),
      Printed ''Remote bash script could not be authenticated, aborting execution'', CloseFd (accept_result (acc os1))]"
  by (rule eviction_closes_the_new_connection [OF assms])

definition busy_server :: "sum_lib server" where
  "busy_server = sum_server\<lparr>res := (res sum_server)\<lparr>
     conns := sum_conn\<lparr>open_time := - 1\<rparr> # replicate 127 sum_conn, conns_total := 128\<rparr>\<rparr>"

lemma busy_server_ok: "server_inv (live_in sum_heap) {ed_key} busy_server"
proof -
  have "conns_inv (res busy_server)"
    using sum_conn_inv(1) by (simp add: conns_inv_def busy_server_def open_conns_def sum_conn_def conn_inv_def MAX_INT64_def)
  then show ?thesis using sum_server_inv by (simp add: server_inv_def keys_inv_def busy_server_def)
qed

lemma evicted_connection_ends_the_new_one_witness:
  "\<exists>s'. handle_events sum_ssl [(refused, no_os\<lparr>acc := \<lparr>accept_result = 12, add_result = 0, clock_result = 7\<rparr>\<rparr>),
      (hangup, no_os)] busy_server = Inr (Continue, s') \<and>
    trace s' = [CloseFd 9, Watch 12 (EPOLLIN OR EPOLLRDHUP) 0,
      Printed ''Remote bash script could not be authenticated, aborting execution'', CloseFd 12]"
proof -
  have keys: "\<forall>k\<in>loaded_keys busy_server. time_result no_os \<le> expiry k"
    by (simp add: loaded_keys_def busy_server_def sum_server_def no_os_def ed_key_def)
  have oldest: "\<forall>i < MAX_CONCURRENCY. (\<forall>c\<in>set (conns (res busy_server)). open_time (conns (res busy_server) ! i) \<le> open_time c) \<longrightarrow>
      data_fd hangup = int i"
    by (auto simp: busy_server_def sum_conn_def hangup_def nth_Cons')
  show ?thesis
    using evicted_connection_ends_the_new_one [OF openssl_contentsD(1) [OF sum_ssl_contents] busy_server_ok _ _ _ _ oldest _ _ _ keys,
        of refused "no_os\<lparr>acc := \<lparr>accept_result = 12, add_result = 0, clock_result = 7\<rparr>\<rparr>"]
    by (auto simp: busy_server_def sum_server_def sum_conn_def refused_def hangup_def no_os_def accept_ok_def MAX_INT64_def
        EPOLLIN_def EPOLLRDHUP_def EPOLLHUP_def)
qed



text \<open>C35 What \<open>bash\<close> reads is the script: a prefix of it, in order, and all of it unless a \<open>write\<close>
  fails. Then both ends of the pipe are closed, and only then the child is awaited.\<close>
theorem script_reaches_bash:
  assumes "valid_end script n" "unat n < 2 ^ 31" "write_answers (unat n) (write_results os)"
    "unat n \<le> length (write_results os)" "0 \<le> pipe_result os" "0 \<le> fork_result os"
  shows "safe () (exec_script script n k os) (\<lambda>es. \<exists>es'. es =
     ExecMessage ''Remote bash script #%d received and authenticated, executing now...'' k #
     es' @ [ClosePipe False, ClosePipe True, Reaped (fork_result os)] \<and>
     (\<exists>j \<le> n. fed es' = slice script 0 j \<and> ((\<forall>m. ExecPerror m \<notin> set es') \<longrightarrow> j = n)))"
  by (rule exec_script_safe [OF assms])

lemma script_reaches_bash_witness:
  "safe () (exec_script sum_script 2 1 echo_os) (\<lambda>es. \<exists>es'. es =
     ExecMessage ''Remote bash script #%d received and authenticated, executing now...'' 1 #
     es' @ [ClosePipe False, ClosePipe True, Reaped (fork_result echo_os)] \<and>
     (\<exists>j \<le> 2. fed es' = slice sum_script 0 j \<and> ((\<forall>m. ExecPerror m \<notin> set es') \<longrightarrow> j = 2)))"
  by (rule script_reaches_bash)
    (simp_all add: valid_end_def object_size_def PTRDIFF_MAX_def sum_script_def echo_os_def)

text \<open>C36 The script crosses the pipe: whatever the order in which the parent writes and a child that reads its input to
  the end reads, and however small the pipe is, the child has read a part of the script from its start, the write loop
  has fed what the child has read and what is in the pipe, every step comes closer to the end and one can be taken until
  the parent has returned, and then the child has read all of the script.\<close>
theorem script_crosses_the_pipe:
  assumes "pipe_steps cap False (pipe_start script) s" "0 < cap" "length script < 2 ^ 31"
  shows "seen s @ piped s @ unwritten s = script \<and>
    (\<exists>es. write_loop script (of_nat (length script)) 0 (answers s) = Inr es \<and> fed es = seen s @ piped s \<and>
      (NoAnswer \<in> set es \<longleftrightarrow> unwritten s \<noteq> [])) \<and>
    (\<forall>t. pipe_step cap False s t \<longrightarrow> pipe_measure t < pipe_measure s) \<and>
    (parent s \<noteq> Returned \<longrightarrow> (\<exists>t. pipe_step cap False s t)) \<and>
    (parent s = Returned \<longrightarrow> seen s = script)"
proof -
  have inv: "pipe_inv cap False script s" by (rule pipe_steps_inv [OF assms(1) pipe_start_inv])
  then have "seen s @ piped s @ unwritten s = script" by (simp add: pipe_inv_def)
  with pipe_refines_write_loop [OF inv assms(3)] pipe_progress [OF inv assms(2)] pipe_returned [OF inv]
  show ?thesis by (blast intro: pipe_step_measure)
qed

lemma script_crosses_the_pipe_witness:
  "\<exists>s. pipe_steps 1 False (pipe_start [7, 8]) s \<and> seen s = [7] \<and> unwritten s = [8] \<and> (\<exists>t. pipe_step 1 False s t) \<and>
    (\<exists>es. write_loop [7, 8] 2 0 (answers s) = Inr es \<and> fed es = [7])"
proof -
  let ?s = "\<lparr>unwritten = [8], piped = [], seen = [7], answers = [1], parent = Writing, child = Reading\<rparr>"
  have a: "pipe_step 1 False (pipe_start [7, 8]) (?s\<lparr>piped := [7], seen := []\<rparr>)"
    using pipe_step.written [of "pipe_start [7, 8]" 1 1 False] by (simp add: pipe_start_def)
  have b: "pipe_step 1 False (?s\<lparr>piped := [7], seen := []\<rparr>) ?s"
    using pipe_step.read [of "?s\<lparr>piped := [7], seen := []\<rparr>" 1 1 False] by simp
  have s: "pipe_steps 1 False (pipe_start [7, 8]) ?s"
    using a b by (meson converse_rtranclp_into_rtranclp r_into_rtranclp)
  from script_crosses_the_pipe [OF s] s show ?thesis by (intro exI [of _ ?s]) auto
qed

text \<open>C37 \<open>bash\<close> can block the server: once the child has exited with more left of the script than fits into the pipe,
  the parent stays in its write loop for ever, because the read end it has kept open itself keeps \<open>write\<close> from
  failing. The comment in the source rules this out for \<open>bash\<close>; a script that starts with \<open>exit\<close> is enough.\<close>
theorem early_exit_blocks_the_server:
  assumes "pipe_steps cap True (pipe_start script) s" "child s = Exited"
    "cap < length (piped s) + length (unwritten s)" "length script < 2 ^ 31" "pipe_steps cap True s t"
  shows "parent t = Writing \<and> (\<exists>es. write_loop script (of_nat (length script)) 0 (answers t) = Inr es \<and> NoAnswer \<in> set es)"
proof -
  have inv: "pipe_inv cap True script s" by (rule pipe_steps_inv [OF assms(1) pipe_start_inv])
  then have "stuck_writing cap s" "length (piped s) \<le> cap"
    using assms(2,3) by (auto simp: pipe_inv_def stuck_writing_def)
  from stuck_steps [OF assms(5) this] have t: "parent t = Writing" "unwritten t \<noteq> []" by (auto simp: stuck_writing_def)
  with pipe_refines_write_loop [OF pipe_steps_inv [OF assms(5) inv] assms(4)] show ?thesis by blast
qed

lemma early_exit_blocks_the_server_witness:
  "\<exists>s. pipe_steps 1 True (pipe_start [7, 8]) s \<and> (\<forall>t. pipe_steps 1 True s t \<longrightarrow> parent t = Writing)"
proof -
  let ?s = "(pipe_start [7, 8])\<lparr>child := Exited\<rparr>"
  have s: "pipe_steps 1 True (pipe_start [7, 8]) ?s"
    by (intro r_into_rtranclp pipe_step.quits) (simp_all add: pipe_start_def)
  from early_exit_blocks_the_server [OF this] show ?thesis
    by (intro exI [of _ ?s]) (use s in \<open>auto simp: pipe_start_def\<close>)
qed

text \<open>C38 Loading the certificates of a file or a directory leaves the server running on at least one key, each
  of which holds the public key of a certificate in one of the files that may sign code and is validly signed with
  that key, or makes the program return; no script is run. The only fault is the assertion on the path of a directory,
  which fails for a path of one character (\<open>path_ok\<close>). Assumed are an operating system that answers as documented
  (\<open>certs_ok\<close>: a file is mapped with its size, a directory has no more than \<open>2 ^ 32\<close> entries, with shorter names and a
  shorter path), and that no certificate has its RSA key made in an element of the array of keys whose pointer is not null (\<open>null_slots\<close>;
  the elements are memory from \<open>malloc\<close> or left over from a rejected certificate, and nothing is known of OpenSSL
  then).\<close>
theorem loading_gives_keys_of_certificates:
  assumes "openssl_contents ssl heap valid" "no_keys s" "certs_ok path os" "null_slots ssl fresh path os s"
  shows "case load_certs ssl fresh path os s of
    Inl f \<Rightarrow> \<not> path_ok path os
  | Inr (v, s') \<Rightarrow> extends quiet s s' \<and>
      (v = Continue \<longrightarrow> server_inv (live_in heap) (loaded_keys s') s' \<and>
         keys_from valid (cert_files os) (loaded_keys s') (heap (lib s')))"
proof (cases "path_ok path os")
  case True
  with assms(3,4) have "certs_valid ssl fresh path os s" by (simp add: certs_valid_def)
  with load_certs_contents [OF assms(1,2) this] show ?thesis
    by (cases "load_certs ssl fresh path os s") (auto simp: run_safe_iff)
next
  case False
  then show ?thesis using load_certs_path_ok [of ssl fresh path os s] by (cases "load_certs ssl fresh path os s") auto
qed

lemma loading_gives_keys_of_certificates_witness:
  "\<exists>s' m. load_certs sum_ssl null_key ''cert'' (Single sum_file) \<lparr>res = zero_resources, lib = [], trace = []\<rparr> = Inr (Continue, s') \<and>
     loaded_keys s' = {sum_key} \<and> holds_key (sum_heap (lib s')) sum_key m \<and>
     file_key sum_valid sum_file (expiry sum_key) m (md sum_key)"
proof -
  let ?s = "\<lparr>res = zero_resources, lib = [], trace = []\<rparr> :: sum_lib server"
  have n: "null_slots sum_ssl null_key ''cert'' (Single sum_file) ?s"
    by (rule null_slots_single) (simp_all add: null_key_def zero_resources_def)
  have c: "certs_ok ''cert'' (Single sum_file)" by (simp add: certs_ok_def sum_file_ok)
  have r: "\<exists>s'. load_certs sum_ssl null_key ''cert'' (Single sum_file) ?s = Inr (Continue, s') \<and> loaded_keys s' = {sum_key}"
    by (simp add: load_certs_def read_key_def alloc_keys_def sum_read_cert zero_resources_def emit_def replicate_4 loaded_keys_def)
  then obtain s' where s': "load_certs sum_ssl null_key ''cert'' (Single sum_file) ?s = Inr (Continue, s')" "loaded_keys s' = {sum_key}"
    by blast
  from loading_gives_keys_of_certificates [OF sum_ssl_contents zero_no_keys c n] s'
  show ?thesis by (auto simp: keys_from_def cert_files_def)
qed

text \<open>C39 \<open>free_all\<close> closes every descriptor and frees the keys in use, the array of keys and every
  buffer, once, and erases the handles.\<close>
theorem free_all_releases_everything:
  assumes "openssl_ok ssl live" "keys_ready live s"
  shows "safe () (free_all ssl s) (\<lambda>s'. res s' = zero_resources \<and> trace s' = trace s @ released (res s) \<and>
    live (lib s') = live (lib s) - (\<Union>k\<in>loaded_keys s. key_objs k))"
  by (rule free_all_safe [OF assms])

lemma free_all_releases_everything_witness:
  "safe () (free_all sum_ssl sum_server) (\<lambda>s'. res s' = zero_resources \<and>
    trace s' = trace sum_server @ released (res sum_server) \<and>
    live_in sum_heap (lib s') = live_in sum_heap (lib sum_server) - (\<Union>k\<in>loaded_keys sum_server. key_objs k))"
  by (rule free_all_releases_everything [OF sum_ssl_ok keys_ready_cases(1) [OF sum_server_inv]])

text \<open>C40 A \<open>write\<close> that fails while \<open>gen_sig\<close> writes the signature is not noticed: the answer is stored
  in a \<open>size_t\<close>, so the loop takes the error for progress of -1 bytes. When the first \<open>write\<close> fails the index is beyond
  the end and the signature is lost; when one fails after the first \<open>j\<close> bytes have been written, the last of these is
  written again. If all that is written otherwise succeeds, the newline and the script follow, nothing is reported and the
  exit status is 0.\<close>
theorem gen_sig_ignores_write_errors:
  assumes "0 < length sig" "length sig \<le> PTRDIFF_MAX" "length data \<le> PTRDIFF_MAX"
    "\<forall>r\<in>set pre. 0 < r" "sum_list pre < int (length sig)" "j = nat (sum_list pre)"
    "if pre = [] then post = 1 # rest else full_writes (length sig - (j - 1)) (1 # rest) post"
    "full_writes (length data) [] rest"
  shows "write_output sig data (pre @ - 1 # post) =
    Inr (Some 0, (if pre = [] then [] else take j sig @ drop (j - 1) sig) @ 10 # data, [])"
proof -
  have "write_all data (of_nat (length data)) 0 rest = Inr (True, data, [])"
    using write_all_full [of data "of_nat (length data)" 0 "[]" rest] whole_valid [OF assms(3)] assms(8) by simp
  with write_all_error [OF assms(2,4,5) assms(7) [unfolded assms(6)]] show ?thesis
    unfolding write_output_def assms(6) by simp
qed

lemma gen_sig_ignores_write_errors_witness:
  "write_output [1, 2, 3] [4, 5] [- 1, 1, 2] = Inr (Some 0, [10, 4, 5], []) \<and>
   write_output [1, 2, 3] [4, 5] [1, - 1, 3, 1, 2] = Inr (Some 0, [1, 1, 2, 3, 10, 4, 5], [])"
  using gen_sig_ignores_write_errors [of "[1, 2, 3]" "[4, 5]" "[1]" 1 "[3, 1, 2]" "[2]"]
    gen_sig_ignores_write_errors [of "[1, 2, 3]" "[4, 5]" "[]" 0 "[1, 2]" "[2]"]
  by (simp add: PTRDIFF_MAX_def)

end
